(* ===== verification/Prelude.thy ===== *)
theory Prelude
  imports Main "HOL-Library.Word"
begin

text \<open>
  Shared vocabulary of the development: machine integers of the 32-bit build (\<open>-m32\<close> in every
  \<^verbatim>\<open>Makefile.am\<close>), C strings and the functions of the C library that the sources call on
  them, and the generic list, option and word lemmas the components share.

  A C string is the list of its bytes before the terminating NUL. A byte is an 8-bit word where
  the code computes on it and a \<^typ>\<open>char\<close> where the code reads text.
\<close>

unbundle bit_operations_syntax

section \<open>Integers\<close>

type_synonym u8 = "8 word"
type_synonym u16 = "16 word"
type_synonym u32 = "32 word"
type_synonym u64 = "64 word"

named_theorems frame_simps \<open>fields that an operation leaves alone\<close>
named_theorems step_defs \<open>definitions unfolded when one step of a component is evaluated\<close>

text \<open>A value of C type \<^verbatim>\<open>int\<close>: the two's complement reading of the low 32 bits.\<close>

definition c_int :: "nat \<Rightarrow> int" where
  "c_int n = sint (word_of_nat n :: u32)"

definition UINT_MAX :: nat where
  "UINT_MAX = 4294967295"

definition INT_MAX :: nat where
  "INT_MAX = 2147483647"

definition DIV_ROUND_UP :: "nat \<Rightarrow> nat \<Rightarrow> nat" where
  "DIV_ROUND_UP x y = (x + y - 1) div y"

definition ALIGN :: "nat \<Rightarrow> nat \<Rightarrow> nat" where
  "ALIGN x y = y * DIV_ROUND_UP x y"

definition ALIGN_DOWN :: "nat \<Rightarrow> nat \<Rightarrow> nat" where
  "ALIGN_DOWN x y = y * (x div y)"

lemma c_int_small [simp]:
  assumes "n \<le> INT_MAX"
  shows "c_int n = int n"
proof -
  have "take_bit 32 n = n"
    using assms by (intro take_bit_nat_eq_self) (simp add: INT_MAX_def)
  moreover have "signed_take_bit 31 (int n) = int n"
    using assms by (intro signed_take_bit_int_eq_self) (auto simp: INT_MAX_def)
  ultimately show ?thesis
    by (simp add: c_int_def sint_uint unsigned_of_nat)
qed

lemma unat_u32_pow2:
  assumes "j < 32"
  shows "unat (2 ^ j :: u32) = 2 ^ j"
proof -
  have "(2::nat) ^ j < 2 ^ 32" using assms by (intro power_strict_increasing) auto
  then have "take_bit 32 (2 ^ j :: nat) = 2 ^ j" by (rule take_bit_nat_eq_self)
  moreover have "unat (push_bit j 1 :: u32) = take_bit 32 (push_bit j 1)"
    by (simp only: unsigned_push_bit_eq len_num0 len_bit0 len_num1) simp
  ultimately show ?thesis by (simp add: push_bit_eq_mult)
qed

lemma DIV_ROUND_UP_mult [simp]:
  assumes "0 < y"
  shows "DIV_ROUND_UP (k * y) y = k"
proof -
  have "DIV_ROUND_UP (k * y) y = (k * y + (y - 1)) div y" using assms by (simp add: DIV_ROUND_UP_def)
  also have "\<dots> = k + (y - 1) div y" by (rule div_mult_self3) (use assms in simp)
  finally show ?thesis using assms by simp
qed

lemma ALIGN_ge: "0 < y \<Longrightarrow> x \<le> ALIGN x y"
  using dividend_less_times_div [of y "x + y - 1"] by (simp add: ALIGN_def DIV_ROUND_UP_def)


section \<open>C strings\<close>

abbreviation NUL :: char where
  "NUL \<equiv> CHR 0x00"

abbreviation newline :: char where
  "newline \<equiv> CHR 0x0A"

text \<open>The C string that starts at the first byte of \<open>mem\<close>.\<close>

definition c_str :: "string \<Rightarrow> string" where
  "c_str mem = takeWhile (\<lambda>c. c \<noteq> NUL) mem"

text \<open>\<^verbatim>\<open>strncmp (p, s, strlen (p)) == 0\<close>, and \<^verbatim>\<open>memcmp\<close> of a NUL-free prefix.\<close>

definition starts_with :: "string \<Rightarrow> string \<Rightarrow> bool" where
  "starts_with p s \<longleftrightarrow> take (length p) s = p"

text \<open>\<^verbatim>\<open>strchr (s, c)\<close>: the suffix that begins with the first \<open>c\<close>, or NULL.\<close>

fun strchr :: "string \<Rightarrow> char \<Rightarrow> string option" where
  "strchr [] c = None"
| "strchr (x # xs) c = (if x = c then Some (x # xs) else strchr xs c)"

text \<open>\<^verbatim>\<open>strstr (s, p)\<close>: the suffix that begins with the first occurrence of \<open>p\<close>.\<close>

fun strstr :: "string \<Rightarrow> string \<Rightarrow> string option" where
  "strstr [] p = (if p = [] then Some [] else None)"
| "strstr (x # xs) p = (if starts_with p (x # xs) then Some (x # xs) else strstr xs p)"

definition isspace :: "char \<Rightarrow> bool" where
  "isspace c \<longleftrightarrow> c \<in> {CHR '' '', CHR 0x09, CHR 0x0A, CHR 0x0B, CHR 0x0C, CHR 0x0D}"

definition isdigit :: "char \<Rightarrow> bool" where
  "isdigit c \<longleftrightarrow> 48 \<le> (of_char c :: nat) \<and> (of_char c :: nat) \<le> 57"

definition tolower :: "char \<Rightarrow> char" where
  "tolower c = (let n = of_char c :: nat in if 65 \<le> n \<and> n \<le> 90 then char_of (n + 32) else c)"

definition strcasecmp_eq :: "string \<Rightarrow> string \<Rightarrow> bool" where
  "strcasecmp_eq s t \<longleftrightarrow> map tolower s = map tolower t"

text \<open>
  \<^verbatim>\<open>strtok\<close> with a delimiter set: leading delimiters are skipped, the token runs to the next
  delimiter, and the pair is the token and what the next call continues with.
\<close>

definition strtok :: "string \<Rightarrow> string \<Rightarrow> (string \<times> string) option" where
  "strtok delim s =
     (let t = dropWhile (\<lambda>c. c \<in> set delim) s
      in if t = [] then None
         else Some (takeWhile (\<lambda>c. c \<notin> set delim) t, tl (dropWhile (\<lambda>c. c \<notin> set delim) t)))"

text \<open>Values of digits for \<^verbatim>\<open>strtoul\<close> and its kin.\<close>

definition digit_value :: "char \<Rightarrow> nat option" where
  "digit_value c =
     (let n = of_char c :: nat
      in if 48 \<le> n \<and> n \<le> 57 then Some (n - 48)
         else if 97 \<le> n \<and> n \<le> 122 then Some (n - 87)
         else if 65 \<le> n \<and> n \<le> 90 then Some (n - 55)
         else None)"

fun digits_value :: "nat \<Rightarrow> nat \<Rightarrow> string \<Rightarrow> nat" where
  "digits_value base acc [] = acc"
| "digits_value base acc (c # cs) =
     (case digit_value c of
        None \<Rightarrow> acc
      | Some d \<Rightarrow> if d < base then digits_value base (acc * base + d) cs else acc)"

text \<open>
  \<^verbatim>\<open>skip_prefix\<close> removes the optional \<^verbatim>\<open>0x\<close> (only when a hexadecimal digit follows) and, for
  base 0, chooses the base from the prefix.
\<close>

definition is_hex_digit :: "char \<Rightarrow> bool" where
  "is_hex_digit c = (case digit_value c of None \<Rightarrow> False | Some d \<Rightarrow> d < 16)"

fun skip_prefix :: "nat \<Rightarrow> string \<Rightarrow> nat \<times> string" where
  "skip_prefix base (a # b # c # cs) =
     (if (base = 0 \<or> base = 16) \<and> a = CHR ''0'' \<and> (b = CHR ''x'' \<or> b = CHR ''X'') \<and> is_hex_digit c
      then (16, c # cs)
      else if base = 0 then (if a = CHR ''0'' then 8 else 10, a # b # c # cs)
      else (base, a # b # c # cs))"
| "skip_prefix base (a # cs) =
     (if base = 0 then (if a = CHR ''0'' then 8 else 10, a # cs) else (base, a # cs))"
| "skip_prefix base [] = (if base = 0 then 10 else base, [])"

fun skip_sign :: "string \<Rightarrow> bool \<times> string" where
  "skip_sign [] = (False, [])"
| "skip_sign (c # cs) =
     (if c = CHR ''-'' then (True, cs) else if c = CHR ''+'' then (False, cs) else (False, c # cs))"

text \<open>
  \<^verbatim>\<open>strtoul\<close> (\<open>w = 32\<close> on this build) and \<^verbatim>\<open>strtoull\<close> (\<open>w = 64\<close>): out-of-range magnitudes
  saturate, a minus sign negates modulo \<open>2 ^ w\<close>.
\<close>

definition strtoul :: "nat \<Rightarrow> nat \<Rightarrow> string \<Rightarrow> nat" where
  "strtoul w base s =
     (let (neg, s1) = skip_sign (dropWhile isspace s);
          (b, s2) = skip_prefix base s1;
          v = digits_value b 0 s2
      in if v \<ge> 2 ^ w then 2 ^ w - 1
         else if neg then (2 ^ w - v) mod 2 ^ w else v)"

text \<open>\<^verbatim>\<open>strtol\<close> (\<open>w = 32\<close>) and \<^verbatim>\<open>strtoll\<close> (\<open>w = 64\<close>): out-of-range values are clamped.\<close>

definition strtol :: "nat \<Rightarrow> nat \<Rightarrow> string \<Rightarrow> int" where
  "strtol w base s =
     (let (neg, s1) = skip_sign (dropWhile isspace s);
          (b, s2) = skip_prefix base s1;
          v = int (digits_value b 0 s2);
          x = (if neg then - v else v)
      in if x > 2 ^ (w - 1) - 1 then 2 ^ (w - 1) - 1
         else if x < - (2 ^ (w - 1)) then - (2 ^ (w - 1)) else x)"

definition atoi :: "string \<Rightarrow> int" where
  "atoi s = strtol 32 10 s"

text \<open>\<^verbatim>\<open>printf\<close> conversions the sources use: \<^verbatim>\<open>%u\<close>, \<^verbatim>\<open>%d\<close> and zero-padded \<^verbatim>\<open>%0nx\<close>.\<close>

definition digit_char :: "nat \<Rightarrow> char" where
  "digit_char d = (if d < 10 then char_of (48 + d) else char_of (87 + d))"

fun show_base :: "nat \<Rightarrow> nat \<Rightarrow> string" where
  "show_base base n =
     (if base \<le> 1 \<or> n < base then [digit_char n]
      else show_base base (n div base) @ [digit_char (n mod base)])"

declare show_base.simps [simp del]

definition show_nat :: "nat \<Rightarrow> string" where
  "show_nat n = show_base 10 n"

definition show_int :: "int \<Rightarrow> string" where
  "show_int i = (if i < 0 then CHR ''-'' # show_nat (nat (- i)) else show_nat (nat i))"

definition show_hex_padded :: "nat \<Rightarrow> nat \<Rightarrow> string" where
  "show_hex_padded w n =
     (let h = show_base 16 n in replicate (w - length h) (CHR ''0'') @ h)"

lemma starts_with_iff: "starts_with p s \<longleftrightarrow> (\<exists>t. s = p @ t)"
  by (auto simp: starts_with_def) (metis append_take_drop_id)

lemma starts_with_append [simp]: "starts_with p (p @ t)"
  by (simp add: starts_with_def)

lemma starts_with_drop: "starts_with p s \<Longrightarrow> s = p @ drop (length p) s"
  by (metis append_take_drop_id starts_with_def)

lemma strchr_Some_iff: "strchr s c = Some t \<longleftrightarrow> (\<exists>u. s = u @ t \<and> c \<notin> set u \<and> t \<noteq> [] \<and> hd t = c)"
proof (induction s)
  case Nil
  then show ?case by simp
next
  case (Cons x xs)
  show ?case
  proof (cases "x = c")
    case True
    then show ?thesis by (auto simp: Cons_eq_append_conv)
  next
    case False
    then show ?thesis using Cons by (auto simp: Cons_eq_append_conv)
  qed
qed

lemma strchr_None_iff: "strchr s c = None \<longleftrightarrow> c \<notin> set s"
  by (induction s) auto

section \<open>Numbers printed and read back\<close>

lemma digit_value_digit_char: "d < 16 \<Longrightarrow> digit_value (digit_char d) = Some d"
  by (auto simp: digit_value_def digit_char_def Let_def)

lemma digits_value_append:
  "\<forall>c\<in>set xs. \<exists>d<base. digit_value c = Some d \<Longrightarrow>
     digits_value base acc (xs @ ys) = digits_value base (digits_value base acc xs) ys"
  by (induction xs arbitrary: acc) auto

lemma show_base_digits:
  "1 < b \<Longrightarrow> b \<le> 16 \<Longrightarrow> c \<in> set (show_base b n) \<Longrightarrow> \<exists>d<b. digit_value c = Some d"
proof (induction b n rule: show_base.induct)
  case (1 b n)
  show ?case
  proof (cases "n < b")
    case True
    then have "c = digit_char n" using "1.prems" by (subst (asm) show_base.simps) simp
    then show ?thesis using True "1.prems" by (simp add: digit_value_digit_char)
  next
    case False
    have m: "n mod b < b" "n mod b < 16" using "1.prems" by (auto intro: less_le_trans [of _ b])
    have "c \<in> set (show_base b (n div b)) \<or> c = digit_char (n mod b)"
      using "1.prems" False by (subst (asm) show_base.simps) auto
    then show ?thesis
    proof
      assume "c \<in> set (show_base b (n div b))"
      then show ?thesis using "1.IH" "1.prems" False by simp
    next
      assume "c = digit_char (n mod b)"
      then show ?thesis using m by (simp add: digit_value_digit_char)
    qed
  qed
qed

lemma digits_value_show_base:
  "1 < b \<Longrightarrow> b \<le> 16 \<Longrightarrow>
     digits_value b acc (show_base b n) = acc * b ^ length (show_base b n) + n"
proof (induction b n arbitrary: acc rule: show_base.induct)
  case (1 b n)
  show ?case
  proof (cases "n < b")
    case True
    then have "show_base b n = [digit_char n]" by (subst show_base.simps) simp
    then show ?thesis using True "1.prems" by (simp add: digit_value_digit_char)
  next
    case False
    have m: "n mod b < b" "n mod b < 16" using "1.prems" by (auto intro: less_le_trans [of _ b])
    have s: "show_base b n = show_base b (n div b) @ [digit_char (n mod b)]"
      using False "1.prems" by (subst show_base.simps) simp
    have "digits_value b acc (show_base b n) =
        digits_value b (digits_value b acc (show_base b (n div b))) [digit_char (n mod b)]"
      unfolding s by (rule digits_value_append) (use show_base_digits "1.prems" in blast)
    also have "\<dots> = (acc * b ^ length (show_base b (n div b)) + n div b) * b + n mod b"
      using "1.IH" "1.prems" False m by (simp add: digit_value_digit_char)
    also have "\<dots> = acc * b ^ length (show_base b n) + n"
      unfolding s by (simp add: add_mult_distrib)
    finally show ?thesis .
  qed
qed

lemmas digits_value_show = digits_value_show_base [of 16, simplified]

lemma show_base_length: "n < 16 ^ Suc k \<Longrightarrow> length (show_base 16 n) \<le> Suc k"
proof (induction k arbitrary: n)
  case 0
  then show ?case by (subst show_base.simps) simp
next
  case (Suc k)
  show ?case
  proof (cases "n < 16")
    case True
    then show ?thesis by (subst show_base.simps) simp
  next
    case False
    have "n div 16 < 16 ^ Suc k" using Suc.prems by (intro less_mult_imp_div_less) (simp add: mult.commute)
    from Suc.IH [OF this] False show ?thesis by (subst show_base.simps) simp
  qed
qed

lemma digit_value_zero: "digit_value (CHR ''0'') = Some 0"
  by (simp add: digit_value_def)

lemma hex_digits_padded: "c \<in> set (show_hex_padded w n) \<Longrightarrow> \<exists>d<16. digit_value c = Some d"
  using show_base_digits [of 16 c n] digit_value_zero
  by (cases "c \<in> set (show_base 16 n)") (auto simp: show_hex_padded_def Let_def)

lemma digits_value_padded: "digits_value 16 0 (show_hex_padded w n) = n"
proof -
  have "digits_value 16 0 (replicate k (CHR ''0'')) = 0" for k
    by (induction k) (simp_all add: digit_value_zero)
  moreover have "digits_value 16 0 (replicate k (CHR ''0'') @ ys) =
      digits_value 16 (digits_value 16 0 (replicate k (CHR ''0''))) ys" for k ys
    by (rule digits_value_append) (auto simp: digit_value_zero)
  ultimately show ?thesis
    by (simp add: show_hex_padded_def Let_def digits_value_show)
qed

lemma hex_digit_plain:
  assumes "\<exists>d<16. digit_value c = Some d"
  shows "\<not> isspace c" "c \<noteq> CHR ''-''" "c \<noteq> CHR ''+''" "c \<noteq> CHR ''x''" "c \<noteq> CHR ''X''"
  using assms by (auto simp: isspace_def digit_value_def)

lemma show_hex_padded_length: "n < 2 ^ 32 \<Longrightarrow> length (show_hex_padded 8 n) = 8"
  using show_base_length [of n 7] by (simp add: show_hex_padded_def Let_def)

lemma skip_prefix_plain:
  "\<forall>c\<in>set s. c \<noteq> CHR ''x'' \<and> c \<noteq> CHR ''X'' \<Longrightarrow> skip_prefix 16 s = (16, s)"
  by (cases "(16 :: nat, s)" rule: skip_prefix.cases) auto

lemma strtoul_show_hex:
  assumes "n < 2 ^ 32"
  shows "strtoul 32 16 (show_hex_padded 8 n) = n"
proof -
  let ?s = "show_hex_padded 8 n"
  obtain c cs where s: "?s = c # cs"
    using show_hex_padded_length [OF assms] by (cases ?s) auto
  have all: "\<exists>d<16. digit_value x = Some d" if "x \<in> set (c # cs)" for x
    using hex_digits_padded that s by metis
  have c: "dropWhile isspace (c # cs) = c # cs" "skip_sign (c # cs) = (False, c # cs)"
    using hex_digit_plain [OF all, of c] by simp_all
  have "\<forall>x\<in>set (c # cs). x \<noteq> CHR ''x'' \<and> x \<noteq> CHR ''X''" using hex_digit_plain [OF all] by blast
  then have "skip_prefix 16 (c # cs) = (16, c # cs)" by (rule skip_prefix_plain)
  moreover have "digits_value 16 0 (c # cs) = n" using digits_value_padded [of 8 n] s by simp
  ultimately show ?thesis
    unfolding s strtoul_def Let_def c prod.case using assms by simp
qed

lemma show_base_ne: "show_base b n \<noteq> []"
  by (subst show_base.simps) simp

lemma decimal_digit_plain:
  assumes "\<exists>d<10. digit_value c = Some d"
  shows "\<not> isspace c" "c \<noteq> CHR ''-''" "c \<noteq> CHR ''+''" "c \<noteq> CHR ''x''" "c \<noteq> CHR ''X''" "c \<noteq> CHR '',''"
  using assms by (auto simp: isspace_def digit_value_def)

lemma show_nat_digits: "c \<in> set (show_nat n) \<Longrightarrow> \<exists>d<10. digit_value c = Some d"
  unfolding show_nat_def by (rule show_base_digits) simp_all

lemma digits_value_show_nat: "digits_value 10 0 (show_nat n) = n"
  by (simp add: show_nat_def digits_value_show_base)

lemma skip_prefix_decimal: "skip_prefix 10 s = (10, s)"
  by (cases "(10 :: nat, s)" rule: skip_prefix.cases) auto

lemma strtol_show_int:
  assumes "- (2 ^ (w - 1)) \<le> i" "i \<le> 2 ^ (w - 1) - 1"
  shows "strtol w 10 (show_int i) = i"
proof -
  have plain: "dropWhile isspace (show_nat n) = show_nat n" "skip_sign (show_nat n) = (False, show_nat n)" for n
  proof -
    obtain c cs where s: "show_nat n = c # cs"
      using show_base_ne [of 10 n] by (cases "show_nat n") (auto simp: show_nat_def)
    then have "\<exists>d<10. digit_value c = Some d" using show_nat_digits [of c n] by simp
    from decimal_digit_plain [OF this] show "dropWhile isspace (show_nat n) = show_nat n"
      "skip_sign (show_nat n) = (False, show_nat n)" unfolding s by simp_all
  qed
  show ?thesis
  proof (cases "i < 0")
    case True
    have "dropWhile isspace (CHR ''-'' # s) = CHR ''-'' # s" for s by (simp add: isspace_def)
    then show ?thesis
      using True assms by (simp add: strtol_def show_int_def skip_prefix_decimal digits_value_show_nat)
  next
    case False
    then show ?thesis
      using assms by (simp add: strtol_def show_int_def plain skip_prefix_decimal digits_value_show_nat)
  qed
qed

end
