(* ===== verification/Config_Utils.thy ===== *)
theory Config_Utils
  imports Prelude
begin

text \<open>
  The configuration trees of \<^verbatim>\<open>libcutils/config_utils.c\<close> and \<^verbatim>\<open>libcutils/load_file.c\<close>. A node is a value of
  type \<open>cnode\<close>; the parser, which holds a pointer into the tree, returns the updated subtree instead.
  The code does not test the allocation of nodes, which is taken to succeed.
\<close>

section \<open>Nodes\<close>

datatype cnode = CNode (cn_name: string) (cn_value: string) (cn_children: "cnode list")

definition config_node :: "string option \<Rightarrow> string option \<Rightarrow> cnode" where
  "config_node nm v = CNode (case nm of None \<Rightarrow> [] | Some s \<Rightarrow> s) (case v of None \<Rightarrow> [] | Some s \<Rightarrow> s) []"

text \<open>The position of the last child of that name.\<close>

fun last_index :: "string \<Rightarrow> nat \<Rightarrow> cnode list \<Rightarrow> nat option \<Rightarrow> nat option" where
  "last_index nm i [] m = m"
| "last_index nm i (c # cs) m = last_index nm (Suc i) cs (if cn_name c = nm then Some i else m)"

definition config_find :: "cnode \<Rightarrow> string \<Rightarrow> nat option" where
  "config_find root nm = last_index nm 0 (cn_children root) None"

fun config_create :: "cnode \<Rightarrow> cnode \<Rightarrow> cnode" where
  "config_create (CNode nm v cs) node = CNode nm v (cs @ [node])"

fun set_value :: "string \<Rightarrow> cnode \<Rightarrow> cnode" where
  "set_value v (CNode nm _ cs) = CNode nm v cs"

fun set_child :: "cnode \<Rightarrow> nat \<Rightarrow> cnode \<Rightarrow> cnode" where
  "set_child (CNode nm v cs) i c = CNode nm v (cs[i := c])"

definition config_bool :: "cnode \<Rightarrow> string \<Rightarrow> bool \<Rightarrow> bool" where
  "config_bool root nm dflt =
     (case config_find root nm of
        None \<Rightarrow> dflt
      | Some i \<Rightarrow>
          (case cn_value (cn_children root ! i) of
             [] \<Rightarrow> False
           | c # _ \<Rightarrow> c = CHR ''y'' \<or> c = CHR ''Y'' \<or> c = CHR ''1''))"

definition config_str :: "cnode \<Rightarrow> string \<Rightarrow> string option \<Rightarrow> string option" where
  "config_str root nm dflt =
     (case config_find root nm of None \<Rightarrow> dflt | Some i \<Rightarrow> Some (cn_value (cn_children root ! i)))"

definition config_set :: "cnode \<Rightarrow> string \<Rightarrow> string \<Rightarrow> cnode" where
  "config_set root nm v =
     (case config_find root nm of
        Some i \<Rightarrow> set_child root i (set_value v (cn_children root ! i))
      | None \<Rightarrow> config_create root (set_value v (config_node (Some nm) None)))"

section \<open>The lexer\<close>

datatype token = T_EOF | T_TEXT string | T_DOT | T_OBRACE | T_CBRACE

text \<open>
  \<open>cs_data\<close> is the text from \<^verbatim>\<open>cs->data\<close> to its NUL, \<open>cs_next\<close> the pushed-back character. At the end of the
  text the code leaves \<^verbatim>\<open>cs->data\<close> before the blanks it has skipped, from where the end is found again;
  the model moves to the end.
\<close>

record cstate =
  cs_data :: string
  cs_next :: "char option"

definition is_punct :: "char \<Rightarrow> bool" where
  "is_punct c \<longleftrightarrow> c = CHR ''.'' \<or> c = CHR ''{'' \<or> c = CHR ''}''"

text \<open>Text to the end of the line, stripped of trailing blanks unless the data ends first.\<close>

definition lex_value :: "char \<Rightarrow> string \<Rightarrow> token \<times> cstate" where
  "lex_value c s =
     (let t = takeWhile (\<lambda>x. x \<noteq> newline) s
      in if newline \<in> set s
         then (T_TEXT (c # rev (dropWhile isspace (rev t))), \<lparr>cs_data = drop (Suc (length t)) s, cs_next = None\<rparr>)
         else (T_TEXT (c # t), \<lparr>cs_data = [], cs_next = None\<rparr>))"

definition lex_name :: "char \<Rightarrow> string \<Rightarrow> token \<times> cstate" where
  "lex_name c s =
     (let t = takeWhile (\<lambda>x. \<not> isspace x \<and> \<not> is_punct x) s
      in case drop (length t) s of
           [] \<Rightarrow> (T_TEXT (c # t), \<lparr>cs_data = [], cs_next = None\<rparr>)
         | x # r \<Rightarrow> (T_TEXT (c # t), \<lparr>cs_data = r, cs_next = (if isspace x then None else Some x)\<rparr>))"

function lex_from :: "bool \<Rightarrow> string \<Rightarrow> token \<times> cstate" where
  "lex_from value [] = (T_EOF, \<lparr>cs_data = [], cs_next = None\<rparr>)"
| "lex_from value (c # s) =
     (if isspace c then lex_from value s
      else if c = CHR ''#'' then lex_from value (dropWhile (\<lambda>x. x \<noteq> newline) s)
      else if c = CHR ''.'' then (T_DOT, \<lparr>cs_data = s, cs_next = None\<rparr>)
      else if c = CHR ''{'' then (T_OBRACE, \<lparr>cs_data = s, cs_next = None\<rparr>)
      else if c = CHR ''}'' then (T_CBRACE, \<lparr>cs_data = s, cs_next = None\<rparr>)
      else if value then lex_value c s
      else lex_name c s)"
  by pat_completeness auto

termination
  by (relation "measure (\<lambda>(v, s). length s)") (auto simp: le_imp_less_Suc length_dropWhile_le)

definition lex_cs :: "cstate \<Rightarrow> bool \<Rightarrow> token \<times> cstate" where
  "lex_cs cs value =
     (case cs_next cs of None \<Rightarrow> lex_from value (cs_data cs) | Some c \<Rightarrow> lex_from value (c # cs_data cs))"

section \<open>The parser\<close>

text \<open>
  The three loops call one another on what is left of the text. The first argument bounds the depth of
  calls; \<open>None\<close> means that it was too small, which \<open>config_load\<close> rules out by its choice. The result says
  whether the code returns 0, the lexer's state and the updated node.
\<close>

fun parse_block :: "nat \<Rightarrow> cstate \<Rightarrow> cnode \<Rightarrow> (bool \<times> cstate \<times> cnode) option"
and parse_expr :: "nat \<Rightarrow> cstate \<Rightarrow> string \<Rightarrow> cnode \<Rightarrow> (bool \<times> cstate \<times> cnode) option"
and expr_loop :: "nat \<Rightarrow> cstate \<Rightarrow> cnode \<Rightarrow> (bool \<times> cstate \<times> cnode) option" where
  "parse_block 0 cs node = None"
| "parse_block (Suc n) cs node =
     (case lex_cs cs False of
        (T_TEXT t, cs1) \<Rightarrow>
          (case parse_expr n cs1 t node of
             None \<Rightarrow> None
           | Some (ok, cs2, node') \<Rightarrow> if ok then parse_block n cs2 node' else Some (False, cs2, node'))
      | (T_CBRACE, cs1) \<Rightarrow> Some (True, cs1, node)
      | (_, cs1) \<Rightarrow> Some (False, cs1, node))"
| "parse_expr 0 cs t root = None"
| "parse_expr (Suc n) cs t root =
     (case config_find root t of
        Some i \<Rightarrow>
          if cn_value (cn_children root ! i) = []
          then map_option (\<lambda>(ok, cs1, c). (ok, cs1, set_child root i c)) (expr_loop n cs (cn_children root ! i))
          else map_option (\<lambda>(ok, cs1, c). (ok, cs1, config_create root c))
                 (expr_loop n cs (config_node (Some t) None))
      | None \<Rightarrow>
          map_option (\<lambda>(ok, cs1, c). (ok, cs1, config_create root c))
            (expr_loop n cs (config_node (Some t) None)))"
| "expr_loop 0 cs node = None"
| "expr_loop (Suc n) cs node =
     (case lex_cs cs True of
        (T_DOT, cs1) \<Rightarrow>
          (case lex_cs cs1 False of
             (T_TEXT t, cs2) \<Rightarrow>
               map_option (\<lambda>(ok, cs3, c). (ok, cs3, config_create node c))
                 (expr_loop n cs2 (config_node (Some t) None))
           | (_, cs2) \<Rightarrow> Some (False, cs2, node))
      | (T_TEXT t, cs1) \<Rightarrow> Some (True, cs1, set_value t node)
      | (T_OBRACE, cs1) \<Rightarrow> parse_block n cs1 node
      | (_, cs1) \<Rightarrow> Some (False, cs1, node))"

fun load_loop :: "nat \<Rightarrow> cstate \<Rightarrow> cnode \<Rightarrow> cnode option" where
  "load_loop 0 cs root = None"
| "load_loop (Suc n) cs root =
     (case lex_cs cs False of
        (T_TEXT t, cs1) \<Rightarrow>
          (case parse_expr n cs1 t root of
             None \<Rightarrow> None
           | Some (ok, cs2, root') \<Rightarrow> if ok then load_loop n cs2 root' else Some root')
      | _ \<Rightarrow> Some root)"

definition config_load :: "cnode \<Rightarrow> string option \<Rightarrow> cnode option" where
  "config_load root data =
     (case data of
        None \<Rightarrow> Some root
      | Some s \<Rightarrow> load_loop (2 * length s + 1) \<lparr>cs_data = c_str s, cs_next = None\<rparr> root)"

section \<open>Files\<close>

text \<open>
  What the system answers while a file is loaded: \<^verbatim>\<open>open\<close>, the two \<^verbatim>\<open>lseek\<close> calls, \<^verbatim>\<open>malloc\<close> and the bytes
  \<^verbatim>\<open>read\<close> delivers.
\<close>

record load_answers =
  la_open :: bool
  la_size :: int
  la_rewind :: int
  la_malloc :: bool
  la_read :: "string option"

definition load_file :: "load_answers \<Rightarrow> string option" where
  "load_file a =
     (if \<not> la_open a then None
      else if la_size a < 0 then None
      else if la_rewind a \<noteq> 0 then None
      else if \<not> la_malloc a then None
      else case la_read a of
             None \<Rightarrow> None
           | Some bs \<Rightarrow> if int (length bs) \<noteq> la_size a then None else Some (bs @ [NUL]))"

definition config_load_file :: "load_answers \<Rightarrow> cnode \<Rightarrow> cnode option" where
  "config_load_file a root = config_load root (load_file a)"

end
