(* ===== verification/Config_Tree.thy ===== *)
theory Config_Tree
  imports Config_Utils
begin

text \<open>
  Properties of the configuration parser: it ends on every text, and a tree printed in the syntax of
  the configuration files is read back.
\<close>

section \<open>Progress and termination\<close>

definition weight :: "cstate \<Rightarrow> nat" where
  "weight cs = length (cs_data cs) + (if cs_next cs = None then 0 else 1)"

lemma lex_text_weight: "weight (snd (lex_name c s)) \<le> length s" "weight (snd (lex_value c s)) \<le> length s"
proof -
  let ?r = "drop (length (takeWhile (\<lambda>x. \<not> isspace x \<and> \<not> is_punct x) s)) s"
  have "length ?r \<le> length s" by simp
  then show "weight (snd (lex_name c s)) \<le> length s"
    unfolding lex_name_def Let_def by (cases ?r) (simp_all add: weight_def)
qed (simp add: lex_value_def Let_def weight_def)

lemma lex_from_weight:
  "lex_from v s = (tok, cs) \<Longrightarrow> weight cs \<le> length s \<and> (tok \<noteq> T_EOF \<longrightarrow> weight cs < length s)"
proof (induction v s rule: lex_from.induct)
  case (1 v)
  then show ?case by (auto simp: weight_def)
next
  case (2 v c s)
  note nm = lex_text_weight [of c s]
  note dw = length_dropWhile_le [of "\<lambda>x. x \<noteq> newline" s]
  consider (sp) "isspace c" | (co) "\<not> isspace c" "c = CHR ''#''"
    | (tk) "\<not> isspace c" "c \<noteq> CHR ''#''" by blast
  then show ?case
  proof cases
    case sp
    then show ?thesis using 2 by auto
  next
    case co
    then show ?thesis using "2.IH"(2) "2.prems" dw by fastforce
  next
    case tk
    then have "weight cs \<le> length s" using "2.prems" nm
      by (cases v) (auto simp: weight_def split: if_splits)
    then show ?thesis by simp
  qed
qed

lemma lex_weight:
  assumes "lex_cs cs v = (tok, cs')"
  shows "weight cs' \<le> weight cs" "tok \<noteq> T_EOF \<Longrightarrow> weight cs' < weight cs"
proof -
  have "weight cs' \<le> weight cs \<and> (tok \<noteq> T_EOF \<longrightarrow> weight cs' < weight cs)"
  proof (cases "cs_next cs")
    case None
    then show ?thesis using assms lex_from_weight [of v "cs_data cs"] by (simp add: lex_cs_def weight_def [of cs])
  next
    case (Some c)
    then show ?thesis using assms lex_from_weight [of v "c # cs_data cs"] by (simp add: lex_cs_def weight_def [of cs])
  qed
  then show "weight cs' \<le> weight cs" "tok \<noteq> T_EOF \<Longrightarrow> weight cs' < weight cs" by simp_all
qed

lemma parse_total:
  "(\<forall>cs node. 2 * weight cs < n \<longrightarrow> (\<exists>ok cs' c. parse_block n cs node = Some (ok, cs', c) \<and> weight cs' \<le> weight cs)) \<and>
   (\<forall>cs t node. 2 * weight cs + 1 < n \<longrightarrow> (\<exists>ok cs' c. parse_expr n cs t node = Some (ok, cs', c) \<and> weight cs' \<le> weight cs)) \<and>
   (\<forall>cs node. 2 * weight cs < n \<longrightarrow> (\<exists>ok cs' c. expr_loop n cs node = Some (ok, cs', c) \<and> weight cs' \<le> weight cs))"
proof (induction n)
  case 0
  then show ?case by simp
next
  case (Suc n)
  have b: "\<exists>ok cs' c. parse_block n cs node = Some (ok, cs', c) \<and> weight cs' \<le> weight cs" if "2 * weight cs < n" for cs node
    using Suc.IH that by blast
  have e: "\<exists>ok cs' c. parse_expr n cs t node = Some (ok, cs', c) \<and> weight cs' \<le> weight cs" if "2 * weight cs + 1 < n" for cs t node
    using Suc.IH that by blast
  have l: "\<exists>ok cs' c. expr_loop n cs node = Some (ok, cs', c) \<and> weight cs' \<le> weight cs" if "2 * weight cs < n" for cs node
    using Suc.IH that by blast
  have "\<exists>ok cs' c. parse_block (Suc n) cs node = Some (ok, cs', c) \<and> weight cs' \<le> weight cs"
    if w: "2 * weight cs < Suc n" for cs node
  proof -
    obtain tok cs1 where lx: "lex_cs cs False = (tok, cs1)" by fastforce
    show ?thesis
    proof (cases tok)
      case (T_TEXT t)
      have w1: "weight cs1 < weight cs" using lex_weight(2) [OF lx] T_TEXT by simp
      then obtain ok cs2 c where p: "parse_expr n cs1 t node = Some (ok, cs2, c)" "weight cs2 \<le> weight cs1"
        using e [of cs1 t node] w by auto
      then show ?thesis using b [of cs2 c] w w1 lx T_TEXT by (cases ok) auto
    qed (use lx lex_weight(1) [OF lx] in auto)
  qed
  moreover have "\<exists>ok cs' c. parse_expr (Suc n) cs t node = Some (ok, cs', c) \<and> weight cs' \<le> weight cs"
    if w: "2 * weight cs + 1 < Suc n" for cs t node
  proof -
    have "\<exists>ok cs' c. expr_loop n cs nd = Some (ok, cs', c) \<and> weight cs' \<le> weight cs" for nd using l w by simp
    then have "\<exists>ok cs' c. map_option (\<lambda>(ok, cs1, c). (ok, cs1, g c)) (expr_loop n cs nd) = Some (ok, cs', c) \<and> weight cs' \<le> weight cs"
      for nd and g :: "cnode \<Rightarrow> cnode" by (metis (no_types, lifting) case_prod_conv option.simps(9))
    then show ?thesis by (simp split: option.split)
  qed
  moreover have "\<exists>ok cs' c. expr_loop (Suc n) cs node = Some (ok, cs', c) \<and> weight cs' \<le> weight cs"
    if w: "2 * weight cs < Suc n" for cs node
  proof -
    obtain tok cs1 where lx: "lex_cs cs True = (tok, cs1)" by fastforce
    show ?thesis
    proof (cases tok)
      case T_DOT
      have w1: "weight cs1 < weight cs" using lex_weight(2) [OF lx] T_DOT by simp
      obtain tok2 cs2 where lx2: "lex_cs cs1 False = (tok2, cs2)" by fastforce
      have w2: "weight cs2 \<le> weight cs1" by (rule lex_weight(1) [OF lx2])
      obtain ok cs3 c where "expr_loop n cs2 (config_node (Some (case tok2 of T_TEXT t \<Rightarrow> t)) None) = Some (ok, cs3, c)"
        "weight cs3 \<le> weight cs2" using l [of cs2] w w1 w2 by fastforce
      then show ?thesis using lx lx2 w1 w2 T_DOT by (cases tok2) auto
    next
      case T_OBRACE
      have "weight cs1 < weight cs" using lex_weight(2) [OF lx] T_OBRACE by simp
      then show ?thesis using b [of cs1 node] w lx T_OBRACE by auto
    qed (use lx lex_weight(1) [OF lx] in auto)
  qed
  ultimately show ?case by blast
qed

lemmas parse_expr_total = parse_total [THEN conjunct2, THEN conjunct1, rule_format]

lemma load_loop_total: "2 * weight cs < n \<Longrightarrow> \<exists>t. load_loop n cs root = Some t"
proof (induction n arbitrary: cs root)
  case 0
  then show ?case by simp
next
  case (Suc n)
  obtain tok cs1 where lx: "lex_cs cs False = (tok, cs1)" by fastforce
  show ?case
  proof (cases tok)
    case (T_TEXT t)
    have w1: "weight cs1 < weight cs" using lex_weight(2) [OF lx] T_TEXT by simp
    then obtain ok cs2 c where p: "parse_expr n cs1 t root = Some (ok, cs2, c)" "weight cs2 \<le> weight cs1"
      using parse_expr_total [of cs1 n t root] Suc.prems by auto
    then show ?thesis using Suc.IH [of cs2 c] Suc.prems w1 lx T_TEXT by (cases ok) auto
  qed (use lx in auto)
qed


lemma parse_more_fuel:
  "(\<forall>cs node r. parse_block n cs node = Some r \<longrightarrow> parse_block (Suc n) cs node = Some r) \<and>
   (\<forall>cs t node r. parse_expr n cs t node = Some r \<longrightarrow> parse_expr (Suc n) cs t node = Some r) \<and>
   (\<forall>cs node r. expr_loop n cs node = Some r \<longrightarrow> expr_loop (Suc n) cs node = Some r)"
proof (induction n)
  case 0
  then show ?case by simp
next
  case (Suc n)
  have b: "parse_block n cs node = Some r \<Longrightarrow> parse_block (Suc n) cs node = Some r"
    and e: "parse_expr n cs t node = Some r \<Longrightarrow> parse_expr (Suc n) cs t node = Some r"
    and l: "expr_loop n cs node = Some r \<Longrightarrow> expr_loop (Suc n) cs node = Some r" for cs t node r
    using Suc.IH by blast+
  have "parse_block (Suc (Suc n)) cs node = Some r" if p: "parse_block (Suc n) cs node = Some r" for cs node r
  proof -
    obtain tok cs1 where lx: "lex_cs cs False = (tok, cs1)" by fastforce
    show ?thesis
    proof (cases tok)
      case (T_TEXT t)
      then obtain ok cs2 c where q: "parse_expr n cs1 t node = Some (ok, cs2, c)"
        "(if ok then parse_block n cs2 c else Some (False, cs2, c)) = Some r"
        using p lx by (auto split: option.splits)
      then show ?thesis using lx T_TEXT e [OF q(1)] b [of cs2 c r]
        by (cases ok; subst parse_block.simps) (auto simp del: parse_block.simps parse_expr.simps)
    qed (use lx p in auto)
  qed
  moreover have "parse_expr (Suc (Suc n)) cs t node = Some r" if p: "parse_expr (Suc n) cs t node = Some r" for cs t node r
    using p by (subst parse_expr.simps) (auto simp del: expr_loop.simps dest!: l split: option.splits if_splits)
  moreover have "expr_loop (Suc (Suc n)) cs node = Some r" if p: "expr_loop (Suc n) cs node = Some r" for cs node r
  proof -
    obtain tok cs1 where lx: "lex_cs cs True = (tok, cs1)" by fastforce
    show ?thesis
    proof (cases tok)
      case T_DOT
      obtain tok2 cs2 where lx2: "lex_cs cs1 False = (tok2, cs2)" by fastforce
      show ?thesis using p lx lx2 T_DOT
        by (subst expr_loop.simps, cases tok2)
           (auto simp del: expr_loop.simps simp: expr_loop.simps(2) [of n] dest!: l)
    next
      case T_OBRACE
      then have "parse_block n cs1 node = Some r" using p lx by simp
      then show ?thesis using lx T_OBRACE b by (subst expr_loop.simps) (simp del: parse_block.simps)
    qed (use lx p in auto)
  qed
  ultimately show ?case by blast
qed

lemma fuel_mono:
  assumes "n \<le> m"
  shows "parse_block n cs node = Some r \<Longrightarrow> parse_block m cs node = Some r"
    and "parse_expr n cs t node = Some r \<Longrightarrow> parse_expr m cs t node = Some r"
    and "expr_loop n cs node = Some r \<Longrightarrow> expr_loop m cs node = Some r"
  using assms parse_more_fuel by (induction m rule: dec_induct) blast+

lemma load_loop_more: "load_loop n cs root = Some r \<Longrightarrow> load_loop (Suc n) cs root = Some r"
proof (induction n arbitrary: cs root)
  case 0
  then show ?case by simp
next
  case (Suc n)
  obtain tok cs1 where lx: "lex_cs cs False = (tok, cs1)" by fastforce
  show ?case
  proof (cases tok)
    case (T_TEXT t)
    then obtain ok cs2 c where q: "parse_expr n cs1 t root = Some (ok, cs2, c)"
      "(if ok then load_loop n cs2 c else Some c) = Some r"
      using Suc.prems lx by (auto split: option.splits)
    then show ?thesis using lx T_TEXT fuel_mono(2) [OF le_SucI [OF order_refl] q(1)] Suc.IH [of cs2 c]
      by (cases ok; subst load_loop.simps) (auto simp del: load_loop.simps parse_expr.simps)
  qed (use lx Suc.prems in auto)
qed

lemma load_loop_mono: "n \<le> m \<Longrightarrow> load_loop n cs root = Some r \<Longrightarrow> load_loop m cs root = Some r"
  by (induction m rule: dec_induct) (use load_loop_more in blast)+


section \<open>Printing and reading back\<close>

fun print_node :: "cnode \<Rightarrow> string" where
  "print_node (CNode nm v cs) =
     nm @ (if v \<noteq> [] then '' '' @ v @ [newline]
           else '' {'' @ [newline] @ concat (map print_node cs) @ ''}'' @ [newline])"

definition name_ok :: "string \<Rightarrow> bool" where
  "name_ok nm \<longleftrightarrow> nm \<noteq> [] \<and> hd nm \<noteq> CHR ''#'' \<and> list_all (\<lambda>c. \<not> isspace c \<and> \<not> is_punct c \<and> c \<noteq> NUL) nm"

definition value_ok :: "string \<Rightarrow> bool" where
  "value_ok v \<longleftrightarrow> v \<noteq> [] \<and> hd v \<noteq> CHR ''#'' \<and> \<not> isspace (hd v) \<and> \<not> is_punct (hd v) \<and>
     list_all (\<lambda>c. c \<noteq> newline \<and> c \<noteq> NUL) v \<and> \<not> isspace (last v)"

fun node_ok :: "cnode \<Rightarrow> bool" where
  "node_ok (CNode nm v cs) \<longleftrightarrow>
     name_ok nm \<and>
     (if v \<noteq> [] then value_ok v \<and> cs = [] else list_all node_ok cs \<and> distinct (map cn_name cs))"

lemma space_newline: "isspace newline" "isspace (CHR '' '')"
  by (simp_all add: isspace_def)

lemma lex_blank: "isspace c \<Longrightarrow> lex_cs \<lparr>cs_data = c # s, cs_next = None\<rparr> v = lex_cs \<lparr>cs_data = s, cs_next = None\<rparr> v"
  by (simp add: lex_cs_def)

lemma lex_name_text:
  assumes "name_ok nm"
  shows "lex_cs \<lparr>cs_data = nm @ CHR '' '' # rest, cs_next = None\<rparr> False =
    (T_TEXT nm, \<lparr>cs_data = rest, cs_next = None\<rparr>)"
proof -
  obtain c t where nm: "nm = c # t" using assms by (cases nm) (auto simp: name_ok_def)
  have t: "\<forall>x\<in>set t. \<not> isspace x \<and> \<not> is_punct x" using assms nm by (auto simp: name_ok_def list_all_iff)
  have "takeWhile (\<lambda>x. \<not> isspace x \<and> \<not> is_punct x) (t @ CHR '' '' # rest) = t"
    using t by (subst takeWhile_append2) (auto simp: space_newline)
  then have "lex_name c (t @ CHR '' '' # rest) = (T_TEXT nm, \<lparr>cs_data = rest, cs_next = None\<rparr>)"
    by (simp add: lex_name_def nm space_newline)
  moreover have "\<not> isspace c" "c \<noteq> CHR ''#''" "c \<noteq> CHR ''.''" "c \<noteq> CHR ''{''" "c \<noteq> CHR ''}''"
    using assms nm by (auto simp: name_ok_def is_punct_def)
  ultimately show ?thesis by (simp add: lex_cs_def nm)
qed

lemma lex_value_text:
  assumes "value_ok v"
  shows "lex_cs \<lparr>cs_data = v @ newline # rest, cs_next = None\<rparr> True =
    (T_TEXT v, \<lparr>cs_data = rest, cs_next = None\<rparr>)"
proof -
  obtain c t where v: "v = c # t" using assms by (cases v) (auto simp: value_ok_def)
  have t: "\<forall>x\<in>set t. x \<noteq> newline" using assms v by (auto simp: value_ok_def list_all_iff)
  have tw: "takeWhile (\<lambda>x. x \<noteq> newline) (t @ newline # rest) = t"
    using t by (subst takeWhile_append2) auto
  have "rev (dropWhile isspace (rev t)) = t"
  proof (cases t rule: rev_cases)
    case (snoc u x)
    then show ?thesis using assms v by (simp add: value_ok_def)
  qed simp
  then have "lex_value c (t @ newline # rest) = (T_TEXT v, \<lparr>cs_data = rest, cs_next = None\<rparr>)"
    by (simp add: lex_value_def tw v)
  moreover have "\<not> isspace c" "c \<noteq> CHR ''#''" "c \<noteq> CHR ''.''" "c \<noteq> CHR ''{''" "c \<noteq> CHR ''}''"
    using assms v by (auto simp: value_ok_def is_punct_def)
  ultimately show ?thesis by (simp add: lex_cs_def v)
qed

lemma lex_brace:
  "lex_cs \<lparr>cs_data = CHR ''{'' # s, cs_next = None\<rparr> v = (T_OBRACE, \<lparr>cs_data = s, cs_next = None\<rparr>)"
  "lex_cs \<lparr>cs_data = CHR ''}'' # s, cs_next = None\<rparr> v = (T_CBRACE, \<lparr>cs_data = s, cs_next = None\<rparr>)"
  "lex_cs \<lparr>cs_data = [], cs_next = None\<rparr> v = (T_EOF, \<lparr>cs_data = [], cs_next = None\<rparr>)"
  by (simp_all add: lex_cs_def isspace_def)

lemma last_index_absent: "nm \<notin> cn_name ` set cs \<Longrightarrow> last_index nm i cs m = m"
  by (induction cs arbitrary: i m) auto

lemma find_absent: "nm \<notin> cn_name ` set (cn_children root) \<Longrightarrow> config_find root nm = None"
  by (simp add: config_find_def last_index_absent)

text \<open>
  \<open>skipped s rest\<close>: \<open>s\<close> is \<open>rest\<close> after at most one line break, which is what a closing brace leaves.
\<close>

definition skipped :: "string \<Rightarrow> string \<Rightarrow> bool" where
  "skipped s rest \<longleftrightarrow> s = rest \<or> s = newline # rest"

lemma skipped_lex: "skipped s rest \<Longrightarrow> lex_cs \<lparr>cs_data = s, cs_next = None\<rparr> v = lex_cs \<lparr>cs_data = rest, cs_next = None\<rparr> v"
  by (auto simp: skipped_def lex_blank space_newline)

lemma skipped_refl: "skipped s s" "skipped (newline # s) s"
  by (auto simp: skipped_def)

text \<open>What remains of the line after the name of a node.\<close>

definition after_name :: "cnode \<Rightarrow> string \<Rightarrow> string" where
  "after_name c rest =
     (if cn_value c \<noteq> [] then cn_value c @ newline # rest
      else CHR ''{'' # newline # concat (map print_node (cn_children c)) @ CHR ''}'' # newline # rest)"

lemma print_after_name: "print_node c @ rest = cn_name c @ CHR '' '' # after_name c rest"
  by (cases c) (simp add: after_name_def)

definition reads_node :: "cnode \<Rightarrow> bool" where
  "reads_node c \<longleftrightarrow> (\<forall>root rest. cn_name c \<notin> cn_name ` set (cn_children root) \<longrightarrow>
     (\<exists>n s. skipped s rest \<and> parse_expr n \<lparr>cs_data = after_name c rest, cs_next = None\<rparr> (cn_name c) root =
        Some (True, \<lparr>cs_data = s, cs_next = None\<rparr>, config_create root c)))"

lemma reads_nodeD:
  assumes "reads_node c" "cn_name c \<notin> cn_name ` set cs0"
  obtains n s where "skipped s rest"
    "parse_expr n \<lparr>cs_data = after_name c rest, cs_next = None\<rparr> (cn_name c) (CNode nm v cs0) =
      Some (True, \<lparr>cs_data = s, cs_next = None\<rparr>, CNode nm v (cs0 @ [c]))"
  using assms(1) [unfolded reads_node_def, rule_format, of "CNode nm v cs0" rest] assms(2) by auto

lemma children_create: "cn_children (config_create root c) = cn_children root @ [c]"
  by (cases root) simp

lemma block_reads:
  assumes "list_all reads_node cs" "list_all (name_ok \<circ> cn_name) cs" "distinct (map cn_name (cs0 @ cs))"
    "skipped s (concat (map print_node cs) @ CHR ''}'' # rest)"
  shows "\<exists>n. parse_block n \<lparr>cs_data = s, cs_next = None\<rparr> (CNode nm v cs0) =
    Some (True, \<lparr>cs_data = rest, cs_next = None\<rparr>, CNode nm v (cs0 @ cs))"
  using assms
proof (induction cs arbitrary: cs0 s)
  case Nil
  then have "parse_block 1 \<lparr>cs_data = s, cs_next = None\<rparr> (CNode nm v cs0) =
      Some (True, \<lparr>cs_data = rest, cs_next = None\<rparr>, CNode nm v cs0)"
    by (simp add: skipped_lex lex_brace)
  then show ?case unfolding append_Nil2 by (rule exI)
next
  case (Cons c cs)
  let ?more = "concat (map print_node cs) @ CHR ''}'' # rest"
  have lx: "lex_cs \<lparr>cs_data = s, cs_next = None\<rparr> False = (T_TEXT (cn_name c), \<lparr>cs_data = after_name c ?more, cs_next = None\<rparr>)"
    using skipped_lex [OF Cons.prems(4)] print_after_name [of c ?more] lex_name_text [of "cn_name c"] Cons.prems(2) by simp
  have "reads_node c" "cn_name c \<notin> cn_name ` set cs0" using Cons.prems(1,3) by auto
  from reads_nodeD [OF this] obtain n t where n: "skipped t ?more"
    "parse_expr n \<lparr>cs_data = after_name c ?more, cs_next = None\<rparr> (cn_name c) (CNode nm v cs0) =
      Some (True, \<lparr>cs_data = t, cs_next = None\<rparr>, CNode nm v (cs0 @ [c]))"
    by blast
  obtain m where m: "parse_block m \<lparr>cs_data = t, cs_next = None\<rparr> (CNode nm v (cs0 @ [c])) =
      Some (True, \<lparr>cs_data = rest, cs_next = None\<rparr>, CNode nm v ((cs0 @ [c]) @ cs))"
    using Cons.IH [of "cs0 @ [c]" t] Cons.prems n(1) by auto
  have "parse_block (Suc (max n m)) \<lparr>cs_data = s, cs_next = None\<rparr> (CNode nm v cs0) =
      Some (True, \<lparr>cs_data = rest, cs_next = None\<rparr>, CNode nm v (cs0 @ c # cs))"
    using lx fuel_mono(2) [OF max.cobounded1 n(2), of m] fuel_mono(1) [OF max.cobounded2 m, of n]
    by (simp del: parse_block.simps add: parse_block.simps(2) [of "max n m"])
  then show ?case by blast
qed

lemma node_reads: "node_ok c \<Longrightarrow> reads_node c"
proof (induction c)
  case (CNode nm v cs)
  show ?case unfolding reads_node_def
  proof (intro allI impI)
    fix root rest
    assume "cn_name (CNode nm v cs) \<notin> cn_name ` set (cn_children root)"
    then have f: "config_find root nm = None" by (simp add: find_absent)
    show "\<exists>n s. skipped s rest \<and> parse_expr n \<lparr>cs_data = after_name (CNode nm v cs) rest, cs_next = None\<rparr> (cn_name (CNode nm v cs)) root =
        Some (True, \<lparr>cs_data = s, cs_next = None\<rparr>, config_create root (CNode nm v cs))"
    proof (cases "v = []")
      case False
      then have "value_ok v" "cs = []" using CNode.prems by auto
      then have "parse_expr 2 \<lparr>cs_data = after_name (CNode nm v cs) rest, cs_next = None\<rparr> nm root =
          Some (True, \<lparr>cs_data = rest, cs_next = None\<rparr>, config_create root (CNode nm v cs))"
        using False by (simp add: numeral_2_eq_2 f after_name_def lex_value_text config_node_def)
      then show ?thesis using skipped_refl(1) [of rest] unfolding cnode.sel by blast
    next
      case True
      then have ok: "list_all node_ok cs" "distinct (map cn_name cs)" using CNode.prems by auto
      have "list_all reads_node cs" "list_all (name_ok \<circ> cn_name) cs"
        using CNode.IH ok(1) by (auto simp: list_all_iff) (metis cnode.sel(1) node_ok.elims(2))
      then obtain n where "parse_block n \<lparr>cs_data = newline # concat (map print_node cs) @ CHR ''}'' # newline # rest, cs_next = None\<rparr> (CNode nm v []) =
          Some (True, \<lparr>cs_data = newline # rest, cs_next = None\<rparr>, CNode nm v cs)"
        using block_reads [of cs "[]" "newline # concat (map print_node cs) @ CHR ''}'' # newline # rest" "newline # rest" nm v]
          ok(2) skipped_refl(2) by auto
      then have "parse_expr (Suc (Suc n)) \<lparr>cs_data = after_name (CNode nm v cs) rest, cs_next = None\<rparr> nm root =
          Some (True, \<lparr>cs_data = newline # rest, cs_next = None\<rparr>, config_create root (CNode nm v cs))"
        using True by (simp add: f after_name_def lex_brace config_node_def)
      then show ?thesis using skipped_refl(2) [of rest] unfolding cnode.sel by blast
    qed
  qed
qed

lemma load_reads:
  assumes "list_all node_ok cs" "distinct (map cn_name (cs0 @ cs))" "skipped s (concat (map print_node cs))"
  shows "\<exists>n. load_loop n \<lparr>cs_data = s, cs_next = None\<rparr> (CNode nm v cs0) = Some (CNode nm v (cs0 @ cs))"
  using assms
proof (induction cs arbitrary: cs0 s)
  case Nil
  then have "load_loop 1 \<lparr>cs_data = s, cs_next = None\<rparr> (CNode nm v cs0) = Some (CNode nm v cs0)"
    by (simp add: skipped_lex lex_brace)
  then show ?case unfolding append_Nil2 by (rule exI)
next
  case (Cons c cs)
  let ?more = "concat (map print_node cs)"
  have "name_ok (cn_name c)" using Cons.prems(1) by (cases c) auto
  then have lx: "lex_cs \<lparr>cs_data = s, cs_next = None\<rparr> False = (T_TEXT (cn_name c), \<lparr>cs_data = after_name c ?more, cs_next = None\<rparr>)"
    using skipped_lex [OF Cons.prems(3)] print_after_name [of c ?more] lex_name_text [of "cn_name c"] by simp
  have "reads_node c" using node_reads Cons.prems(1) by simp
  moreover have "cn_name c \<notin> cn_name ` set cs0" using Cons.prems(2) by auto
  ultimately obtain n t where n: "skipped t ?more"
    "parse_expr n \<lparr>cs_data = after_name c ?more, cs_next = None\<rparr> (cn_name c) (CNode nm v cs0) =
      Some (True, \<lparr>cs_data = t, cs_next = None\<rparr>, CNode nm v (cs0 @ [c]))"
    using reads_nodeD by blast
  obtain m where m: "load_loop m \<lparr>cs_data = t, cs_next = None\<rparr> (CNode nm v (cs0 @ [c])) =
      Some (CNode nm v ((cs0 @ [c]) @ cs))"
    using Cons.IH [of "cs0 @ [c]" t] Cons.prems n(1) by auto
  have "load_loop (Suc (max n m)) \<lparr>cs_data = s, cs_next = None\<rparr> (CNode nm v cs0) = Some (CNode nm v (cs0 @ c # cs))"
    using lx fuel_mono(2) [OF max.cobounded1 n(2), of m] load_loop_mono [OF max.cobounded2 m, of n]
    by (simp del: load_loop.simps add: load_loop.simps(2) [of "max n m"])
  then show ?case by blast
qed

lemma print_no_NUL: "node_ok c \<Longrightarrow> NUL \<notin> set (print_node c)"
proof (induction c)
  case (CNode nm v cs)
  have nm: "NUL \<notin> set nm" using CNode.prems by (auto simp: name_ok_def list_all_iff)
  show ?case
  proof (cases "v = []")
    case True
    then have "\<forall>c\<in>set cs. NUL \<notin> set (print_node c)" using CNode by (simp add: list_all_iff)
    then show ?thesis using nm True by simp
  next
    case False
    then have "NUL \<notin> set v" using CNode.prems by (auto simp: value_ok_def list_all_iff)
    then show ?thesis using nm False by simp
  qed
qed

lemma tree_read_back:
  assumes "list_all node_ok cs" "distinct (map cn_name cs)"
  shows "config_load (config_node None None) (Some (concat (map print_node cs) @ [NUL])) = Some (CNode [] [] cs)"
proof -
  let ?p = "concat (map print_node cs)"
  let ?cs = "\<lparr>cs_data = ?p, cs_next = None\<rparr>"
  have "NUL \<notin> set ?p" using assms(1) print_no_NUL by (auto simp: list_all_iff)
  moreover have "c_str (u @ [NUL]) = u" if "NUL \<notin> set u" for u
    using that by (induction u) (auto simp: c_str_def)
  ultimately have c: "c_str (?p @ [NUL]) = ?p" by blast
  obtain n where n: "load_loop n ?cs (CNode [] [] []) = Some (CNode [] [] cs)"
    using load_reads [of cs "[]" ?p "[]" "[]"] assms skipped_refl(1) by auto
  let ?m = "2 * length (?p @ [NUL]) + 1"
  obtain t where t: "load_loop ?m ?cs (CNode [] [] []) = Some t"
    using load_loop_total [of ?cs ?m "CNode [] [] []"] by (auto simp: weight_def)
  have "t = CNode [] [] cs"
    using load_loop_mono [OF _ n] load_loop_mono [OF _ t] n t by (metis nat_le_linear option.inject)
  then show ?thesis using t c by (simp add: config_load_def config_node_def)
qed

section \<open>Properties\<close>

text \<open>
  C32. Parsing a configuration ends on every text: the bound on nested calls that \<open>config_load\<close> chooses is
  always enough.
\<close>

theorem config_load_ends: "\<exists>t. config_load root data = Some t"
proof (cases data)
  case (Some s)
  have "weight \<lparr>cs_data = c_str s, cs_next = None\<rparr> \<le> length s"
    by (simp add: weight_def c_str_def length_takeWhile_le)
  then show ?thesis
    using load_loop_total [of "\<lparr>cs_data = c_str s, cs_next = None\<rparr>" "2 * length s + 1" root] Some
    by (simp add: config_load_def)
qed (simp add: config_load_def)

text \<open>
  C8. A tree of settings printed in the syntax of the configuration files, blocks nested to any
  depth, is read back as the same tree.
\<close>

theorem config_tree_roundtrip:
  assumes "list_all node_ok cs" "distinct (map cn_name cs)"
  shows "config_load (config_node None None) (Some (concat (map print_node cs) @ [NUL])) = Some (CNode [] [] cs)"
  using assms by (rule tree_read_back)

definition example_tree :: "cnode list" where
  "example_tree =
     [CNode ''device'' []
        [CNode ''path'' ''/dev/mmcblk0'' [],
         CNode ''partitions'' [] [CNode ''boot'' [] [CNode ''len'' ''16 M'' []], CNode ''data'' [] []]],
      CNode ''rev'' ''2'' []]"

theorem config_tree_roundtrip_witness:
  "config_load (config_node None None) (Some (concat (map print_node example_tree) @ [NUL])) =
     Some (CNode [] [] example_tree)"
proof (rule config_tree_roundtrip)
  show "list_all node_ok example_tree"
    by (simp add: example_tree_def name_ok_def value_ok_def isspace_def is_punct_def)
  show "distinct (map cn_name example_tree)" by (simp add: example_tree_def)
qed

end
