(* ===== verification/Bytes.thy ===== *)
theory Bytes
  imports Prelude
begin

text \<open>
  Bytes on storage: little-endian integers, a medium as a function from offsets to bytes, and lists
  of writes to it. The disk configuration and the image writers share these.
\<close>

section \<open>Widening and rounding\<close>

lemma unat_ucast64: "unat (ucast (w :: u32) :: u64) = unat w"
  using unsigned_less [of w, where ?'a = nat]
  by (simp add: unsigned_ucast_eq take_bit_nat_eq_self)

lemma ucast_pow2:
  assumes "unat (w :: u32) = 2 ^ k"
  shows "(ucast w :: u64) = 2 ^ k"
proof -
  have "(ucast w :: u64) = word_of_nat (unat (ucast w :: u64))" by simp
  then show ?thesis using assms by (simp only: unat_ucast64) simp
qed

lemma clear_low_div: "((x :: u64) AND NOT (mask k)) div 2 ^ k = drop_bit k x"
  unfolding drop_bit_eq_div [symmetric]
  by (rule bit_eqI) (auto simp: bit_simps dest: bit_imp_le_length)

lemma word_of_nat_pred: "word_of_nat (2 ^ k - 1) = (2 ^ k - 1 :: u64)"
  by (simp add: of_nat_diff)

lemma signed_u32_pos:
  assumes "unat (w :: u32) < 2 ^ 31"
  shows "(signed w :: u64) = ucast w"
proof -
  have "int (unat w) < int (2 ^ 31)" using assms by (simp only: of_nat_less_iff)
  then have u: "0 \<le> uint w" "uint w < 2 ^ 31" by simp_all
  have "- (2 ^ 31) \<le> uint w" by (rule order_trans [OF _ u(1)]) simp
  then have "signed_take_bit 31 (uint w) = uint w" using u(2) by (intro signed_take_bit_int_eq_self)
  then have "sint w = uint w" by (simp only: sint_uint) simp
  then show ?thesis by (metis of_int_sint of_int_uint)
qed

section \<open>Little-endian integers\<close>

fun le_bytes :: "nat \<Rightarrow> nat \<Rightarrow> u8 list" where
  "le_bytes 0 x = []"
| "le_bytes (Suc n) x = word_of_nat (x mod 256) # le_bytes n (x div 256)"

fun le_val :: "u8 list \<Rightarrow> nat" where
  "le_val [] = 0"
| "le_val (b # bs) = unat b + 256 * le_val bs"

lemma length_le_bytes [simp]: "length (le_bytes n x) = n"
  by (induction n arbitrary: x) auto

lemma unat_byte: "unat (word_of_nat (x mod 256) :: u8) = x mod 256"
  by (simp add: unsigned_of_nat take_bit_eq_mod)

lemma le_val_bytes: "le_val (le_bytes n x) = x mod 256 ^ n"
  by (induction n arbitrary: x) (simp_all add: unat_byte mod_mult2_eq)

lemma le_val_bytes_u32 [simp]: "le_val (le_bytes 4 (unat (w :: u32))) = unat w"
  using unsigned_less [of w, where ?'a = nat] by (simp add: le_val_bytes)

lemma le_val_bytes_small: "x < 256 ^ n \<Longrightarrow> le_val (le_bytes n x) = x"
  by (simp add: le_val_bytes)

section \<open>A medium\<close>

type_synonym disk = "nat \<Rightarrow> u8"

definition pread :: "disk \<Rightarrow> nat \<Rightarrow> nat \<Rightarrow> u8 list" where
  "pread d off n = map d [off..<off + n]"

definition pwrite :: "nat \<Rightarrow> u8 list \<Rightarrow> disk \<Rightarrow> disk" where
  "pwrite off bs d = (\<lambda>i. if off \<le> i \<and> i < off + length bs then bs ! (i - off) else d i)"

lemma length_pread [simp]: "length (pread d off n) = n"
  by (simp add: pread_def)

lemma pread_cong: "(\<And>i. off \<le> i \<Longrightarrow> i < off + n \<Longrightarrow> d i = e i) \<Longrightarrow> pread d off n = pread e off n"
  by (simp add: pread_def)

lemma pread_pwrite: "pread (pwrite off bs d) off (length bs) = bs"
  by (rule nth_equalityI) (simp_all add: pread_def pwrite_def)

lemma pread_pwrite_disjoint:
  "off + n \<le> off' \<or> off' + length bs \<le> off \<Longrightarrow> pread (pwrite off' bs d) off n = pread d off n"
  by (rule pread_cong) (auto simp: pwrite_def)

lemma pwrite_outside: "\<not> (off \<le> i \<and> i < off + length bs) \<Longrightarrow> pwrite off bs d i = d i"
  by (auto simp: pwrite_def)

lemma pread_split: "pread d off (m + n) = pread d off m @ pread d (off + m) n"
  using upt_add_eq_append [of off "off + m" n] by (simp add: pread_def add.assoc)

lemma pread_sub: "k + m \<le> n \<Longrightarrow> pread d (off + k) m = take m (drop k (pread d off n))"
  by (rule nth_equalityI) (simp_all add: pread_def add.assoc)

section \<open>Lists of writes\<close>

text \<open>
  \<open>laid lo its\<close>: the writes of \<open>its\<close> are at or above \<open>lo\<close>, in ascending order and do not overlap.
\<close>

fun laid :: "nat \<Rightarrow> (nat \<times> u8 list) list \<Rightarrow> bool" where
  "laid lo [] = True"
| "laid lo ((off, bs) # its) \<longleftrightarrow> lo \<le> off \<and> laid (off + length bs) its"

definition pwrites :: "(nat \<times> u8 list) list \<Rightarrow> disk \<Rightarrow> disk" where
  "pwrites its d = fold (\<lambda>(off, bs). pwrite off bs) its d"

lemma laid_mono: "laid lo its \<Longrightarrow> lo' \<le> lo \<Longrightarrow> laid lo' its"
  by (cases its) auto

lemma laid_append: "laid lo (xs @ ys) \<Longrightarrow> laid lo xs"
  by (induction xs arbitrary: lo) auto

lemma laid_above: "laid lo its \<Longrightarrow> (off, bs) \<in> set its \<Longrightarrow> lo \<le> off"
proof (induction its arbitrary: lo)
  case (Cons it its)
  then show ?case by (cases it) fastforce
qed simp

lemma pwrites_outside:
  "\<forall>(off, bs)\<in>set its. \<not> (off \<le> i \<and> i < off + length bs) \<Longrightarrow> pwrites its d i = d i"
  by (induction its arbitrary: d) (auto simp: pwrites_def pwrite_outside)

lemma pwrites_rev_Cons: "pwrites (rev ((off, bs) # its)) d = pwrite off bs (pwrites (rev its) d)"
  by (simp add: pwrites_def)

text \<open>Writing such a list in reverse order leaves every item on the medium.\<close>

lemma pwrites_laid:
  assumes "laid lo its" "(off, bs) \<in> set its"
  shows "pread (pwrites (rev its) d) off (length bs) = bs"
  using assms
proof (induction its arbitrary: lo)
  case (Cons it its)
  obtain o1 b1 where it: "it = (o1, b1)" by (cases it)
  show ?case
  proof (cases "(off, bs) \<in> set its")
    case True
    then have "o1 + length b1 \<le> off" using Cons.prems it laid_above by (auto simp: laid.simps)
    then show ?thesis
      using Cons.IH [of "o1 + length b1"] Cons.prems True it
      by (simp only: it pwrites_rev_Cons) (simp add: pread_pwrite_disjoint)
  next
    case False
    then have "off = o1" "bs = b1" using Cons.prems it by auto
    then show ?thesis by (simp only: it pwrites_rev_Cons pread_pwrite)
  qed
qed simp

lemma pwrites_laid_below: "laid lo its \<Longrightarrow> i < lo \<Longrightarrow> pwrites (rev its) d i = d i"
  by (rule pwrites_outside) (auto dest: laid_above)

end
