(* ===== verification/Mbr.thy ===== *)
theory Mbr
  imports Bytes
begin

text \<open>
  The partition table writer of \<^verbatim>\<open>libdiskconfig/config_mbr.c\<close> and the write lists of
  \<^verbatim>\<open>libdiskconfig/write_lst.c\<close>. The lemmas relate the table on the disk, as a reader of PC
  partition tables finds it, to the layout the configuration asks for.

  \<open>alloc n\<close> says whether the allocation succeeds that is made when the write list has \<open>n\<close> items.
\<close>

section \<open>Data\<close>

record part_info =
  name :: string
  flags :: u8
  p_type :: u8
  len_kb :: u32
  start_lba :: u32

text \<open>
  \<^verbatim>\<open>sect_size\<close> is an \<^verbatim>\<open>int\<close>, kept as its 32 bits: \<open>signed\<close> widens it where the code converts
  it to a 64-bit type. \<^verbatim>\<open>part_lst\<close> holds the first \<^verbatim>\<open>num_parts\<close> elements of the array, \<open>None\<close> is
  the NULL pointer.
\<close>

record disk_info =
  device :: string
  scheme :: u8
  sect_size :: u32
  skip_lba :: u32
  num_lba :: u32
  part_lst :: "part_info list option"

record write_list =
  wl_offset :: u64
  wl_data :: "u8 list"

definition PC_NUM_BOOT_RECORD_PARTS :: nat where
  "PC_NUM_BOOT_RECORD_PARTS = 4"

definition PC_PART_ACTIVE :: u8 where "PC_PART_ACTIVE = 0x80"
definition PC_PART_NORMAL :: u8 where "PC_PART_NORMAL = 0"
definition PC_PART_TYPE_LINUX :: u8 where "PC_PART_TYPE_LINUX = 0x83"
definition PC_PART_TYPE_EXTENDED :: u8 where "PC_PART_TYPE_EXTENDED = 0x05"
definition PC_PART_TYPE_FAT32 :: u8 where "PC_PART_TYPE_FAT32 = 0x0c"
definition PART_ACTIVE_FLAG :: u8 where "PART_ACTIVE_FLAG = 1"

definition fill_disk :: u32 where "fill_disk = - 1"

section \<open>Write lists\<close>

definition wlist_add :: "write_list list \<Rightarrow> write_list \<Rightarrow> write_list list" where
  "wlist_add lst item = item # lst"

text \<open>
  \<open>io n w\<close> is what the system does for the item \<open>w\<close> with \<open>n\<close> items after it: whether \<^verbatim>\<open>lseek64\<close> reaches the
  offset, and how many bytes \<^verbatim>\<open>write\<close> takes (\<open>None\<close> when it returns -1).
\<close>

fun wlist_commit :: "(nat \<Rightarrow> write_list \<Rightarrow> bool \<times> nat option) \<Rightarrow> bool \<Rightarrow> write_list list \<Rightarrow> disk \<Rightarrow> int \<times> disk" where
  "wlist_commit io test [] d = (0, d)"
| "wlist_commit io test (w # ws) d =
     (let (seek_ok, written) = io (length ws) w
      in if \<not> seek_ok then (-1, d)
         else if test then wlist_commit io test ws d
         else case written of
                None \<Rightarrow> (-1, d)
              | Some n \<Rightarrow>
                  let d' = pwrite (unat (wl_offset w)) (take n (wl_data w)) d
                  in if n \<noteq> length (wl_data w) then (-1, d') else wlist_commit io test ws d')"

section \<open>Partition entries\<close>

definition cfg_pentry :: "u8 \<Rightarrow> u8 \<Rightarrow> u32 \<Rightarrow> u32 \<Rightarrow> u8 list" where
  "cfg_pentry status type start len =
     (let chs = (if len > 0 then 0xff else 0)
      in [status] @ replicate 3 chs @ [type] @ replicate 3 chs
           @ le_bytes 4 (unat start) @ le_bytes 4 (unat len))"

definition kb_to_lba :: "u32 \<Rightarrow> u32 \<Rightarrow> u32" where
  "kb_to_lba kb ss =
     (let lba = (ucast kb :: u64) * 1024;
          lba = (lba + ucast ss - 1) AND NOT (ucast ss - 1);
          lba = lba div ucast ss
      in ucast (lba AND 0xffffffff))"

text \<open>
  The entry goes to \<open>&mbr->ptable[pnum]\<close>, byte 446 + 16 \<open>pnum\<close> of the disk. The result is the item,
  the updated \<^verbatim>\<open>pinfo\<close> and the updated \<^verbatim>\<open>*lba\<close>.
\<close>

definition mk_pri_pentry ::
    "bool \<Rightarrow> disk_info \<Rightarrow> part_info option \<Rightarrow> nat \<Rightarrow> u32 \<Rightarrow> (write_list \<times> part_info option \<times> u32) option" where
  "mk_pri_pentry alloc_ok dinfo pinfo pnum lba =
     (if pnum \<ge> PC_NUM_BOOT_RECORD_PARTS then None
      else if \<not> alloc_ok then None
      else
        let offset = word_of_nat (446 + 16 * pnum)
        in case pinfo of
             Some p \<Rightarrow>
               let len_lba =
                     (if len_kb p \<noteq> fill_disk
                      then (((ucast (len_kb p) :: u64) * 1024 + (signed (sect_size dinfo) - 1))
                              AND NOT (signed (sect_size dinfo) - 1)) div signed (sect_size dinfo)
                      else ucast (num_lba dinfo - lba));
                   status = (if flags p AND PART_ACTIVE_FLAG \<noteq> 0 then PC_PART_ACTIVE else PC_PART_NORMAL)
               in Some (\<lparr>wl_offset = offset, wl_data = cfg_pentry status (p_type p) lba (ucast len_lba)\<rparr>,
                        Some (p\<lparr>start_lba := lba\<rparr>), lba + ucast len_lba)
           | None \<Rightarrow>
               Some (\<lparr>wl_offset = offset,
                      wl_data = cfg_pentry PC_PART_NORMAL PC_PART_TYPE_EXTENDED lba (num_lba dinfo - lba)\<rparr>,
                     None, lba))"

text \<open>
  An extended boot record is a zeroed sector with the entry of the logical partition at byte 446, the
  link to the next record at byte 462 and the signature at byte 510.
\<close>

definition ebr_record :: "u8 list \<Rightarrow> u8 list \<Rightarrow> u8 list" where
  "ebr_record logical next_ptr =
     replicate 446 0 @ logical @ next_ptr @ replicate 32 0 @ [0x55, 0xAA]"

definition mk_ext_pentry ::
    "bool \<Rightarrow> disk_info \<Rightarrow> part_info \<Rightarrow> u32 \<Rightarrow> u32 \<Rightarrow> part_info option \<Rightarrow>
     (write_list \<times> part_info \<times> u32) option" where
  "mk_ext_pentry alloc_ok dinfo pinfo lba0 ext_lba pnext =
     (if \<not> alloc_ok then None
      else
        let offset = (ucast lba0 :: u64) * signed (sect_size dinfo);
            lba = lba0 + 1;
            filled = (len_kb pinfo = fill_disk)
        in if filled \<and> pnext \<noteq> None then None
           else
             let len = (if \<not> filled then kb_to_lba (len_kb pinfo) (sect_size dinfo) else num_lba dinfo - lba);
                 p1 = (if \<not> filled then pinfo
                       else pinfo\<lparr>len_kb := ucast ((ucast len :: u64) * signed (sect_size dinfo) div 1024)\<rparr>);
                 logical = cfg_pentry PC_PART_NORMAL (p_type p1) 1 len;
                 p2 = p1\<lparr>start_lba := lba\<rparr>;
                 lba' = lba + len;
                 next_ptr =
                   (case pnext of
                      None \<Rightarrow> replicate 16 0
                    | Some n \<Rightarrow>
                        let next_len = (if len_kb n \<noteq> fill_disk
                                        then 1 + kb_to_lba (len_kb n) (sect_size dinfo)
                                        else num_lba dinfo - lba')
                        in cfg_pentry PC_PART_NORMAL PC_PART_TYPE_EXTENDED (lba' - ext_lba) next_len)
             in Some (\<lparr>wl_offset = offset, wl_data = ebr_record logical next_ptr\<rparr>, p2, lba'))"

definition mk_empty_ptable :: "bool \<Rightarrow> write_list option" where
  "mk_empty_ptable alloc_ok =
     (if \<not> alloc_ok then None
      else Some \<lparr>wl_offset = 440, wl_data = replicate 70 0 @ [0x55, 0xAA]\<rparr>)"

section \<open>The whole table\<close>

text \<open>The test for the end of the disk, with \<open>extended\<close> added as 0 or 1.\<close>

definition no_space :: "disk_info \<Rightarrow> bool \<Rightarrow> u32 \<Rightarrow> part_info \<Rightarrow> bool" where
  "no_space dinfo extended cur_lba pinfo \<longleftrightarrow>
     (let e = (if extended then 1 else 0)
      in if cur_lba + e \<ge> num_lba dinfo then True
         else if len_kb pinfo \<noteq> fill_disk
         then cur_lba + (len_kb pinfo div sect_size dinfo) * 1024 + e > num_lba dinfo
         else False)"

text \<open>
  The loop over the partitions. It returns the partitions with their updates and, unless it jumps to
  \<^verbatim>\<open>nospace\<close> or \<^verbatim>\<open>fail\<close>, the write list.
\<close>

fun part_loop ::
    "(nat \<Rightarrow> bool) \<Rightarrow> disk_info \<Rightarrow> nat \<Rightarrow> u32 \<Rightarrow> u32 \<Rightarrow> bool \<Rightarrow> write_list list \<Rightarrow> part_info list \<Rightarrow>
     part_info list \<times> write_list list option" where
  "part_loop alloc dinfo cnt cur_lba ext_lba extended wr [] = ([], Some wr)"
| "part_loop alloc dinfo cnt cur_lba ext_lba extended wr (p # ps) =
     (let opened =
            (if cnt = PC_NUM_BOOT_RECORD_PARTS - 1 \<and> ps \<noteq> []
             then map_option (\<lambda>(item, _, _). (True, cur_lba, wlist_add wr item))
                    (mk_pri_pentry (alloc (length wr)) dinfo None cnt cur_lba)
             else Some (extended, ext_lba, wr))
      in case opened of
           None \<Rightarrow> (p # ps, None)
         | Some (extended, ext_lba, wr) \<Rightarrow>
             if no_space dinfo extended cur_lba p then (p # ps, None)
             else
               let made =
                     (if \<not> extended
                      then map_option (\<lambda>(item, q, lba). (item, the q, lba))
                             (mk_pri_pentry (alloc (length wr)) dinfo (Some p) cnt cur_lba)
                      else mk_ext_pentry (alloc (length wr)) dinfo p cur_lba ext_lba
                             (case ps of [] \<Rightarrow> None | n # _ \<Rightarrow> Some n))
               in case made of
                    None \<Rightarrow> (p # ps, None)
                  | Some (item, p', cur') \<Rightarrow>
                      let (ps', r) = part_loop alloc dinfo (Suc cnt) cur' ext_lba extended (wlist_add wr item) ps
                      in (p' # ps', r))"

definition blank_part :: part_info where
  "blank_part = \<lparr>name = [], flags = 0, p_type = 0, len_kb = 0, start_lba = 0\<rparr>"

fun blank_loop :: "(nat \<Rightarrow> bool) \<Rightarrow> disk_info \<Rightarrow> nat list \<Rightarrow> write_list list \<Rightarrow> write_list list option" where
  "blank_loop alloc dinfo [] wr = Some wr"
| "blank_loop alloc dinfo (cnt # cnts) wr =
     (case mk_pri_pentry (alloc (length wr)) dinfo (Some blank_part) cnt 0 of
        None \<Rightarrow> None
      | Some (item, _, _) \<Rightarrow> blank_loop alloc dinfo cnts (wlist_add wr item))"

definition config_mbr :: "(nat \<Rightarrow> bool) \<Rightarrow> disk_info \<Rightarrow> disk_info \<times> write_list list option" where
  "config_mbr alloc dinfo =
     (case part_lst dinfo of
        None \<Rightarrow> (dinfo, None)
      | Some parts \<Rightarrow>
          let (parts', r) = part_loop alloc dinfo 0 (skip_lba dinfo) 0 False [] parts;
              wr_list =
                (case r of
                   None \<Rightarrow> None
                 | Some wr \<Rightarrow>
                     case blank_loop alloc dinfo [length parts..<PC_NUM_BOOT_RECORD_PARTS] wr of
                       None \<Rightarrow> None
                     | Some wr' \<Rightarrow> map_option (wlist_add wr') (mk_empty_ptable (alloc (length wr'))))
          in (dinfo\<lparr>part_lst := Some parts'\<rparr>, wr_list))"

text \<open>
  The node of a partition. The last character of the device name decides on the \<^verbatim>\<open>p\<close>; the code
  reads before the string when the name is empty, which is not a name that opens.
\<close>

definition MAX_NAME_LEN :: nat where "MAX_NAME_LEN = 512"

fun part_number :: "string \<Rightarrow> nat \<Rightarrow> part_info list \<Rightarrow> nat option" where
  "part_number nm num [] = None"
| "part_number nm num (p # ps) = (if name p = nm then Some num else part_number nm (Suc num) ps)"

definition find_mbr_part :: "bool \<Rightarrow> disk_info \<Rightarrow> string \<Rightarrow> string option" where
  "find_mbr_part malloc dinfo nm =
     (let plist = (case part_lst dinfo of None \<Rightarrow> [] | Some ps \<Rightarrow> ps);
          has_extended = length plist > PC_NUM_BOOT_RECORD_PARTS
      in case part_number nm 1 plist of
           None \<Rightarrow> None
         | Some num \<Rightarrow>
             let num = (if has_extended \<and> num \<ge> PC_NUM_BOOT_RECORD_PARTS then num + 1 else num)
             in if \<not> malloc then None
                else
                  let pat = (if isdigit (last (device dinfo)) then ''p'' else []);
                      dev_name = device dinfo @ pat @ show_nat num
                  in if length dev_name \<ge> MAX_NAME_LEN then None else Some dev_name)"

end
