(* ===== verification/Mbr_Layout.thy ===== *)
theory Mbr_Layout
  imports Mbr
begin

text \<open>
  What \<^verbatim>\<open>config_mbr\<close> writes, in terms of the layout a configuration asks for. \<open>plan\<close> is that layout
  on natural numbers, \<open>writes\<close> the table entries and boot records it leads to; the lemmas show that
  the 32-bit code computes exactly these when the layout fits the disk.
\<close>

section \<open>The layout a configuration asks for\<close>

definition sectors :: "nat \<Rightarrow> nat \<Rightarrow> nat" where
  "sectors ss kb = DIV_ROUND_UP (kb * 1024) ss"

definition geometry :: "disk_info \<Rightarrow> bool" where
  "geometry d \<longleftrightarrow> (\<exists>k. 9 \<le> k \<and> k \<le> 30 \<and> unat (sect_size d) = 2 ^ k)"

abbreviation sec :: "disk_info \<Rightarrow> nat" where "sec d \<equiv> unat (sect_size d)"
abbreviation lbas :: "disk_info \<Rightarrow> nat" where "lbas d \<equiv> unat (num_lba d)"

definition part_len :: "disk_info \<Rightarrow> nat \<Rightarrow> part_info \<Rightarrow> nat" where
  "part_len d start p = (if len_kb p = fill_disk then lbas d - start else sectors (sec d) (unat (len_kb p)))"

definition logical :: "nat \<Rightarrow> 'a list \<Rightarrow> bool" where
  "logical cnt ps \<longleftrightarrow> cnt > 3 \<or> (cnt = 3 \<and> ps \<noteq> [])"

fun plan :: "disk_info \<Rightarrow> nat \<Rightarrow> nat \<Rightarrow> part_info list \<Rightarrow> (nat \<times> nat) list" where
  "plan d cnt cur [] = []"
| "plan d cnt cur (p # ps) =
     (let start = (if logical cnt ps then cur + 1 else cur); len = part_len d start p
      in (start, len) # plan d (Suc cnt) (start + len) ps)"

definition fits :: "disk_info \<Rightarrow> (nat \<times> nat) list \<Rightarrow> bool" where
  "fits d pl \<longleftrightarrow> list_all (\<lambda>(s, l). s < lbas d \<and> s + l \<le> lbas d) pl"

definition pentry :: "u8 \<Rightarrow> u8 \<Rightarrow> nat \<Rightarrow> nat \<Rightarrow> u8 list" where
  "pentry status type start len =
     (let chs = (if len > 0 then 0xff else 0)
      in [status] @ replicate 3 chs @ [type] @ replicate 3 chs @ le_bytes 4 start @ le_bytes 4 len)"

definition pri_item :: "disk_info \<Rightarrow> nat \<Rightarrow> nat \<Rightarrow> part_info \<Rightarrow> nat \<times> u8 list" where
  "pri_item d cnt cur p =
     (446 + 16 * cnt,
      pentry (if flags p AND PART_ACTIVE_FLAG \<noteq> 0 then PC_PART_ACTIVE else PC_PART_NORMAL) (p_type p) cur
        (part_len d cur p))"

definition ebr_item :: "disk_info \<Rightarrow> nat \<Rightarrow> nat \<Rightarrow> part_info \<Rightarrow> part_info list \<Rightarrow> nat \<times> u8 list" where
  "ebr_item d ext cur p ps =
     (let len = part_len d (cur + 1) p; e = cur + 1 + len
      in (cur * sec d,
          ebr_record (pentry PC_PART_NORMAL (p_type p) 1 len)
            (case ps of [] \<Rightarrow> replicate 16 0
             | n # _ \<Rightarrow> pentry PC_PART_NORMAL PC_PART_TYPE_EXTENDED (e - ext)
                 (if len_kb n = fill_disk then lbas d - e else 1 + sectors (sec d) (unat (len_kb n))))))"

fun writes :: "disk_info \<Rightarrow> nat \<Rightarrow> nat \<Rightarrow> nat \<Rightarrow> part_info list \<Rightarrow> (nat \<times> u8 list) list" where
  "writes d cnt cur ext [] = []"
| "writes d cnt cur ext (p # ps) =
     (if cnt < 3 \<or> (cnt = 3 \<and> ps = [])
      then pri_item d cnt cur p # writes d (Suc cnt) (cur + part_len d cur p) ext ps
      else if cnt = 3
      then (446 + 16 * cnt, pentry PC_PART_NORMAL PC_PART_TYPE_EXTENDED cur (lbas d - cur))
             # ebr_item d cur cur p ps # writes d (Suc cnt) (cur + 1 + part_len d (cur + 1) p) cur ps
      else ebr_item d ext cur p ps # writes d (Suc cnt) (cur + 1 + part_len d (cur + 1) p) ext ps)"

definition wl_item :: "nat \<times> u8 list \<Rightarrow> write_list" where
  "wl_item it = \<lparr>wl_offset = word_of_nat (fst it), wl_data = snd it\<rparr>"

definition blanks_from :: "nat \<Rightarrow> (nat \<times> u8 list) list" where
  "blanks_from n = map (\<lambda>i. (446 + 16 * i, pentry 0 0 0 0)) [n..<4]"

section \<open>The code computes this layout\<close>

lemma round_up_sectors:
  assumes "unat (ss :: u32) = 2 ^ k" 
  shows "unat (((ucast (kb :: u32) * 1024 + (ucast ss - 1)) AND NOT (ucast ss - 1)) div (ucast ss) :: u64)
    = sectors (2 ^ k) (unat kb)"
proof -
  have c: "(2 :: nat) ^ k < 2 ^ 32" using unsigned_less [of ss, where ?'a = nat] assms by simp
  let ?x = "ucast kb * 1024 + (ucast ss - 1) :: u64"
  have m: "(ucast ss - 1 :: u64) = mask k" by (simp add: ucast_pow2 [OF assms] mask_eq_decr_exp)
  then have "((?x AND NOT (ucast ss - 1)) div (ucast ss) :: u64) = drop_bit k ?x"
    by (simp only: m ucast_pow2 [OF assms] clear_low_div)
  moreover have "unat ?x = unat kb * 1024 + (2 ^ k - 1)"
  proof -
    have kb: "unat kb < 2 ^ 32" using unsigned_less [of kb, where ?'a = nat] by simp
    have "?x = word_of_nat (unat kb * 1024 + (2 ^ k - 1))"
      unfolding of_nat_add word_of_nat_pred ucast_pow2 [OF assms] by simp
    then have "unat ?x = take_bit 64 (unat kb * 1024 + (2 ^ k - 1))" by (simp only: unsigned_of_nat) simp
    also have "\<dots> = unat kb * 1024 + (2 ^ k - 1)" using kb c by (intro take_bit_nat_eq_self) simp
    finally show ?thesis .
  qed
  moreover have "unat (drop_bit k y) = unat y div 2 ^ k" for y :: u64
    using unsigned_less [of y, where ?'a = nat]
    by (simp only: unsigned_drop_bit_eq) (simp add: take_bit_nat_eq_self drop_bit_eq_div)
  ultimately show ?thesis by (simp only: sectors_def DIV_ROUND_UP_def) simp
qed

lemma unat_kb_to_lba:
  assumes "unat ss = 2 ^ k" "sectors (2 ^ k) (unat kb) < 2 ^ 32"
  shows "kb_to_lba kb ss = word_of_nat (sectors (2 ^ k) (unat kb))"
proof -
  let ?q = "((ucast kb * 1024 + (ucast ss - 1)) AND NOT (ucast ss - 1)) div (ucast ss) :: u64"
  have "ucast kb * 1024 + ucast ss - 1 = (ucast kb * 1024 + (ucast ss - 1) :: u64)" by simp
  then have "kb_to_lba kb ss = ucast (?q AND 0xffffffff)" by (simp only: kb_to_lba_def Let_def)
  also have "(0xffffffff :: u64) = mask 32" by (simp add: mask_eq_decr_exp)
  also have "?q AND mask 32 = take_bit 32 ?q" by (simp only: take_bit_eq_mask)
  also have "(ucast (take_bit 32 ?q) :: u32) = word_of_nat (unat (take_bit 32 ?q))" by simp
  also have "unat (take_bit 32 ?q) = take_bit 32 (unat ?q)" by (rule unsigned_take_bit_eq)
  also have "\<dots> = sectors (2 ^ k) (unat kb)"
    unfolding round_up_sectors [OF assms(1)] using assms(2) by (rule take_bit_nat_eq_self)
  finally show ?thesis .
qed

lemma unat_nat_u32: "n < 2 ^ 32 \<Longrightarrow> unat (word_of_nat n :: u32) = n"
  by (simp add: unsigned_of_nat take_bit_nat_eq_self)

lemma lbas_less: "lbas d < 2 ^ 32"
  using unsigned_less [of "num_lba d", where ?'a = nat] by simp

lemma cfg_pentry_nat:
  assumes "s < 2 ^ 32" "l < 2 ^ 32"
  shows "cfg_pentry status type (word_of_nat s) (word_of_nat l) = pentry status type s l"
proof -
  have "(word_of_nat l :: u32) > 0 \<longleftrightarrow> l > 0"
    using unat_nat_u32 [OF assms(2)] by (metis unat_0 unat_eq_zero word_gt_0 neq0_conv)
  then show ?thesis by (simp add: cfg_pentry_def pentry_def unat_nat_u32 [OF assms(1)] unat_nat_u32 [OF assms(2)])
qed

lemma rest_of_disk: "n \<le> lbas d \<Longrightarrow> num_lba d - word_of_nat n = word_of_nat (lbas d - n)"
  by (simp add: of_nat_diff)

lemma sectors_check: "0 < ss \<Longrightarrow> kb div ss * 1024 \<le> sectors ss kb"
proof -
  assume ss: "0 < ss"
  have "kb div ss * 1024 * ss \<le> kb * 1024" by (metis div_times_less_eq_dividend mult.commute mult.left_commute mult_le_mono1)
  then have "kb div ss * 1024 \<le> kb * 1024 div ss" using ss by (simp add: less_eq_div_iff_mult_less_eq)
  also have "\<dots> \<le> (kb * 1024 + ss - 1) div ss" using ss by (intro div_le_mono) simp
  finally show ?thesis by (simp add: sectors_def DIV_ROUND_UP_def)
qed

lemma space_left:
  assumes "geometry d" "s < lbas d" "s + part_len d s p \<le> lbas d" "s = (if extended then cur + 1 else cur)"
  shows "\<not> no_space d extended (word_of_nat cur) p"
proof -
  let ?e = "if extended then 1 else 0 :: u32"
  have ss: "0 < sec d" using assms(1) by (auto simp: geometry_def)
  have w: "word_of_nat cur + ?e = (word_of_nat s :: u32)" using assms(4) by simp
  have sb: "s < 2 ^ 32" using assms(2) lbas_less [of d] by simp
  have 1: "\<not> word_of_nat s \<ge> num_lba d"
    using assms(2) unat_nat_u32 [OF sb] by (simp add: word_le_nat_alt)
  show ?thesis
  proof (cases "len_kb p = fill_disk")
    case True
    then show ?thesis using 1 w by (simp add: no_space_def Let_def)
  next
    case False
    let ?q = "unat (len_kb p) div sec d * 1024"
    have q: "s + ?q \<le> lbas d"
      using sectors_check [OF ss, of "unat (len_kb p)"] assms(3) False by (simp add: part_len_def)
    have "len_kb p div sect_size d = word_of_nat (unat (len_kb p) div sec d)"
      by (simp add: word_arith_nat_div)
    then have "word_of_nat cur + (len_kb p div sect_size d) * 1024 + ?e = (word_of_nat (s + ?q) :: u32)"
      using w by (simp add: algebra_simps)
    moreover have "unat (word_of_nat (s + ?q) :: u32) = s + ?q"
      using q lbas_less [of d] by (intro unat_nat_u32) simp
    then have "\<not> word_of_nat (s + ?q) > num_lba d" using q by (simp add: word_less_nat_alt)
    ultimately show ?thesis using 1 w False by (simp add: no_space_def Let_def)
  qed
qed

lemma mk_pri_item:
  assumes "geometry d" "cur < lbas d" "cur + part_len d cur p \<le> lbas d" "cnt \<le> 3"
  shows "mk_pri_pentry True d (Some p) cnt (word_of_nat cur) =
    Some (wl_item (pri_item d cnt cur p), Some (p\<lparr>start_lba := word_of_nat cur\<rparr>),
      word_of_nat (cur + part_len d cur p))"
proof -
  obtain k where k: "k \<le> 30" "sec d = 2 ^ k" using assms(1) by (auto simp: geometry_def)
  have "(2::nat) ^ k \<le> 2 ^ 30" using k(1) by (intro power_increasing) auto
  then have sg: "(signed (sect_size d) :: u64) = ucast (sect_size d)"
    by (intro signed_u32_pos) (simp add: k(2))
  have l32: "part_len d cur p < 2 ^ 32" "cur < 2 ^ 32" using assms lbas_less [of d] by auto
  define L where "L = (if len_kb p \<noteq> fill_disk
                      then (((ucast (len_kb p) :: u64) * 1024 + (signed (sect_size d) - 1))
                              AND NOT (signed (sect_size d) - 1)) div signed (sect_size d)
                      else ucast (num_lba d - word_of_nat cur))"
  have "unat L = part_len d cur p"
  proof (cases "len_kb p = fill_disk")
    case True
    have "unat (num_lba d - word_of_nat cur) = lbas d - cur"
      using assms(2) rest_of_disk [of cur d] unat_nat_u32 [of "lbas d - cur"] lbas_less [of d] by simp
    then show ?thesis using True by (simp add: L_def part_len_def unat_ucast64)
  next
    case False
    then show ?thesis unfolding L_def sg using round_up_sectors [OF k(2)] by (simp add: part_len_def k(2))
  qed
  then have uL: "(ucast L :: u32) = word_of_nat (part_len d cur p)" by (metis of_nat_unat)
  then show ?thesis
    using assms(4) cfg_pentry_nat [OF l32(2,1)]
    unfolding mk_pri_pentry_def Let_def option.case L_def [symmetric] uL
    by (simp add: PC_NUM_BOOT_RECORD_PARTS_def wl_item_def pri_item_def)
qed

lemma mk_pri_extended:
  assumes "cur < lbas d" 
  shows "mk_pri_pentry True d None 3 (word_of_nat cur) =
    Some (wl_item (446 + 16 * 3, pentry PC_PART_NORMAL PC_PART_TYPE_EXTENDED cur (lbas d - cur)), None,
      word_of_nat cur)"
proof -
  have "cur < 2 ^ 32" "lbas d - cur < 2 ^ 32" using assms lbas_less [of d] by auto
  then have "cfg_pentry PC_PART_NORMAL PC_PART_TYPE_EXTENDED (word_of_nat cur) (num_lba d - word_of_nat cur)
      = pentry PC_PART_NORMAL PC_PART_TYPE_EXTENDED cur (lbas d - cur)"
    unfolding rest_of_disk [OF less_imp_le [OF assms]] by (rule cfg_pentry_nat)
  then show ?thesis
    by (simp add: mk_pri_pentry_def PC_NUM_BOOT_RECORD_PARTS_def wl_item_def)
qed

lemma mk_ext_item:
  assumes "geometry d" "fits d (plan d cnt cur (p # ps))" "cnt > 3 \<or> ps \<noteq> []" "cnt \<ge> 3" "ext \<le> cur"
  shows "\<exists>p'. mk_ext_pentry True d p (word_of_nat cur) (word_of_nat ext) (case ps of [] \<Rightarrow> None | n # _ \<Rightarrow> Some n) =
    Some (wl_item (ebr_item d ext cur p ps), p', word_of_nat (cur + 1 + part_len d (cur + 1) p)) \<and>
    start_lba p' = word_of_nat (cur + 1) \<and> name p' = name p"
proof -
  obtain k where k: "k \<le> 30" "sec d = 2 ^ k" using assms(1) by (auto simp: geometry_def)
  have "(2::nat) ^ k \<le> 2 ^ 30" using k(1) by (intro power_increasing) auto
  then have sg: "(signed (sect_size d) :: u64) = ucast (sect_size d)"
    by (intro signed_u32_pos) (simp add: k(2))
  let ?len = "part_len d (cur + 1) p"
  let ?e = "cur + 1 + ?len"
  have lg: "logical cnt ps" using assms(3,4) by (auto simp: logical_def)
  have f: "cur + 1 < lbas d" "?e \<le> lbas d" "fits d (plan d (Suc cnt) ?e ps)"
    using assms(2) lg by (auto simp: fits_def Let_def)
  have b: "?len < 2 ^ 32" "?e < 2 ^ 32" "cur < 2 ^ 32" using f lbas_less [of d] by auto
  have nofill: "len_kb p \<noteq> fill_disk" if "ps = n # ns" for n ns
  proof
    assume "len_kb p = fill_disk"
    then have "?e = lbas d" using f(1) by (simp add: part_len_def)
    then show False using f(3) that by (auto simp: fits_def Let_def split: if_splits)
  qed
  have off: "(ucast (word_of_nat cur :: u32) :: u64) * signed (sect_size d) = word_of_nat (cur * sec d)"
    unfolding sg by (metis b(3) of_nat_mult of_nat_unat unat_nat_u32)
  have len: "(if \<not> len_kb p = fill_disk then kb_to_lba (len_kb p) (sect_size d) else num_lba d - (word_of_nat cur + 1)) =
      word_of_nat ?len"
    using unat_kb_to_lba [OF k(2), of "len_kb p"] b(1) rest_of_disk [of "cur + 1" d] f(1)
    by (auto simp: part_len_def k(2) add.commute)
  have e: "word_of_nat cur + 1 + word_of_nat ?len = (word_of_nat ?e :: u32)" by simp
  have lgc: "cfg_pentry PC_PART_NORMAL (p_type p) 1 (word_of_nat ?len) = pentry PC_PART_NORMAL (p_type p) 1 ?len"
    using cfg_pentry_nat [of 1 ?len, OF _ b(1)] by simp
  have nxt: "cfg_pentry PC_PART_NORMAL PC_PART_TYPE_EXTENDED (word_of_nat ?e - word_of_nat ext)
       (if len_kb n \<noteq> fill_disk then 1 + kb_to_lba (len_kb n) (sect_size d) else num_lba d - word_of_nat ?e) =
     pentry PC_PART_NORMAL PC_PART_TYPE_EXTENDED (?e - ext)
       (if len_kb n = fill_disk then lbas d - ?e else 1 + sectors (sec d) (unat (len_kb n)))"
    if ps: "ps = n # ns" for n ns
  proof -
    let ?nl = "if len_kb n = fill_disk then lbas d - ?e else 1 + sectors (sec d) (unat (len_kb n))"
    have "logical (Suc cnt) ns" using assms(4) by (simp add: logical_def)
    then have g: "?e + 1 + part_len d (?e + 1) n \<le> lbas d" using f(3) by (simp add: ps fits_def Let_def)
    have nl: "?nl < 2 ^ 32" using g lbas_less [of d] by (auto simp: part_len_def split: if_splits)
    have "(if len_kb n \<noteq> fill_disk then 1 + kb_to_lba (len_kb n) (sect_size d) else num_lba d - word_of_nat ?e)
        = word_of_nat ?nl"
      using unat_kb_to_lba [OF k(2), of "len_kb n"] nl rest_of_disk [of ?e d] f(2) by (auto simp: k(2))
    moreover have "word_of_nat ?e - word_of_nat ext = (word_of_nat (?e - ext) :: u32)"
      using assms(5) by (simp add: of_nat_diff)
    moreover have "?e - ext < 2 ^ 32" using b(2) by simp
    ultimately show ?thesis using cfg_pentry_nat [OF _ nl] by (simp only:)
  qed
  show ?thesis
  proof (cases ps)
    case Nil
    then show ?thesis using lgc
      unfolding mk_ext_pentry_def Let_def off len e
      by (simp add: wl_item_def ebr_item_def Let_def)
  next
    case (Cons n ns)
    then show ?thesis using nofill [OF Cons] nxt [OF Cons] lgc
      unfolding mk_ext_pentry_def Let_def off len e
      by (simp add: wl_item_def ebr_item_def Let_def)
  qed
qed

lemma part_loop_writes:
  assumes "geometry d" "fits d (plan d cnt cur ps)" "ps \<noteq> [] \<longrightarrow> extended = (cnt > 3)" "ext \<le> cur"
  shows "\<exists>ps'. part_loop (\<lambda>_. True) d cnt (word_of_nat cur) (word_of_nat ext) extended wr ps =
      (ps', Some (rev (map wl_item (writes d cnt cur ext ps)) @ wr)) \<and>
    map start_lba ps' = map (word_of_nat \<circ> fst) (plan d cnt cur ps) \<and> map name ps' = map name ps"
  using assms(2-)
proof (induction ps arbitrary: cnt cur ext extended wr)
  case Nil
  then show ?case by simp
next
  case (Cons p ps)
  let ?s = "if logical cnt ps then cur + 1 else cur"
  let ?e = "?s + part_len d ?s p"
  have f: "?s < lbas d" "?e \<le> lbas d" "fits d (plan d (Suc cnt) ?e ps)"
    using Cons.prems(1) by (auto simp: fits_def Let_def)
  consider (pri) "cnt < 3 \<or> (cnt = 3 \<and> ps = [])" | (opens) "cnt = 3" "ps \<noteq> []" | (more) "cnt > 3" by linarith
  then show ?case
  proof cases
    case pri
    then have l: "\<not> logical cnt ps" "\<not> extended" "cnt \<le> 3" using Cons.prems(2) by (auto simp: logical_def)
    obtain ps' where ih: "part_loop (\<lambda>_. True) d (Suc cnt) (word_of_nat (cur + part_len d cur p)) (word_of_nat ext) False
        (wl_item (pri_item d cnt cur p) # wr) ps =
      (ps', Some (rev (map wl_item (writes d (Suc cnt) (cur + part_len d cur p) ext ps)) @ wl_item (pri_item d cnt cur p) # wr))"
      "map start_lba ps' = map (word_of_nat \<circ> fst) (plan d (Suc cnt) (cur + part_len d cur p) ps)" "map name ps' = map name ps"
      using Cons.IH [of "Suc cnt" "cur + part_len d cur p" False ext "wl_item (pri_item d cnt cur p) # wr"] f l pri Cons.prems(3)
      by auto
    have "\<not> no_space d False (word_of_nat cur) p" using space_left [OF assms(1), of cur p False cur] f l by simp
    moreover have "mk_pri_pentry True d (Some p) cnt (word_of_nat cur) =
      Some (wl_item (pri_item d cnt cur p), Some (p\<lparr>start_lba := word_of_nat cur\<rparr>),
        word_of_nat (cur + part_len d cur p))"
      using f l by (intro mk_pri_item [OF assms(1)]) auto
    ultimately show ?thesis using ih l pri
      by (auto simp: wlist_add_def Let_def PC_NUM_BOOT_RECORD_PARTS_def simp del: of_nat_add)
  next
    case opens
    then have l: "logical cnt ps" by (simp add: logical_def)
    let ?w = "wl_item (446 + 16 * 3, pentry PC_PART_NORMAL PC_PART_TYPE_EXTENDED cur (lbas d - cur))"
    let ?b = "wl_item (ebr_item d cur cur p ps)"
    let ?e' = "cur + 1 + part_len d (cur + 1) p"
    obtain ps' where ih: "part_loop (\<lambda>_. True) d (Suc cnt) (word_of_nat ?e') (word_of_nat cur) True (?b # ?w # wr) ps =
      (ps', Some (rev (map wl_item (writes d (Suc cnt) ?e' cur ps)) @ ?b # ?w # wr))"
      "map start_lba ps' = map (word_of_nat \<circ> fst) (plan d (Suc cnt) ?e' ps)" "map name ps' = map name ps"
      using Cons.IH [of "Suc cnt" ?e' True cur "?b # ?w # wr"] f l opens by auto
    obtain p' where p': "mk_ext_pentry True d p (word_of_nat cur) (word_of_nat cur) (case ps of [] \<Rightarrow> None | n # _ \<Rightarrow> Some n) =
      Some (?b, p', word_of_nat ?e')" "start_lba p' = word_of_nat (cur + 1)" "name p' = name p"
      using mk_ext_item [OF assms(1) Cons.prems(1), of cur] opens by auto
    have "\<not> no_space d True (word_of_nat cur) p" using space_left [OF assms(1), of "cur + 1" p True cur] f l by simp
    moreover have "mk_pri_pentry True d None 3 (word_of_nat cur) = Some (?w, None, word_of_nat cur)"
      using f l by (intro mk_pri_extended) auto
    ultimately show ?thesis using ih l opens p'
      by (simp add: wlist_add_def Let_def PC_NUM_BOOT_RECORD_PARTS_def del: of_nat_add)
  next
    case more
    then have l: "logical cnt ps" "extended" using Cons.prems by (auto simp: logical_def)
    let ?b = "wl_item (ebr_item d ext cur p ps)"
    let ?e' = "cur + 1 + part_len d (cur + 1) p"
    obtain ps' where ih: "part_loop (\<lambda>_. True) d (Suc cnt) (word_of_nat ?e') (word_of_nat ext) True (?b # wr) ps =
      (ps', Some (rev (map wl_item (writes d (Suc cnt) ?e' ext ps)) @ ?b # wr))"
      "map start_lba ps' = map (word_of_nat \<circ> fst) (plan d (Suc cnt) ?e' ps)" "map name ps' = map name ps"
      using Cons.IH [of "Suc cnt" ?e' True ext "?b # wr"] f l more Cons.prems(3) by auto
    obtain p' where p': "mk_ext_pentry True d p (word_of_nat cur) (word_of_nat ext) (case ps of [] \<Rightarrow> None | n # _ \<Rightarrow> Some n) =
      Some (?b, p', word_of_nat ?e')" "start_lba p' = word_of_nat (cur + 1)" "name p' = name p"
      using mk_ext_item [OF assms(1) Cons.prems(1), of ext] more Cons.prems(3) by auto
    have "\<not> no_space d True (word_of_nat cur) p" using space_left [OF assms(1), of "cur + 1" p True cur] f l by simp
    then show ?thesis using ih l more p'
      by (simp add: wlist_add_def Let_def PC_NUM_BOOT_RECORD_PARTS_def del: of_nat_add)
  qed
qed

section \<open>Where the writes go\<close>

lemma length_pentry [simp]: "length (pentry st t s l) = 16"
  by (simp add: pentry_def Let_def)

lemma length_ebr [simp]: "length a = 16 \<Longrightarrow> length b = 16 \<Longrightarrow> length (ebr_record a b) = 512"
  by (simp add: ebr_record_def)

lemma item_lengths [simp]:
  "fst (pri_item d cnt cur p) = 446 + 16 * cnt" "length (snd (pri_item d cnt cur p)) = 16"
  "fst (ebr_item d ext cur p ps) = cur * sec d" "length (snd (ebr_item d ext cur p ps)) = 512"
  by (simp_all add: pri_item_def ebr_item_def Let_def split: list.split)

lemma laid_Cons: "laid lo (it # its) \<longleftrightarrow> lo \<le> fst it \<and> laid (fst it + length (snd it)) its"
  by (cases it) simp

lemma geometry_sec: "geometry d \<Longrightarrow> 512 \<le> sec d" "geometry d \<Longrightarrow> sec d \<le> 2 ^ 30"
proof -
  assume "geometry d"
  then obtain k where k: "9 \<le> k" "k \<le> 30" "sec d = 2 ^ k" by (auto simp: geometry_def)
  have "(2::nat) ^ 9 \<le> 2 ^ k" by (rule power_increasing) (use k in auto)
  moreover have "(2::nat) ^ k \<le> 2 ^ 30" by (rule power_increasing) (use k in auto)
  ultimately show "512 \<le> sec d" "sec d \<le> 2 ^ 30" by (simp_all add: k(3))
qed

lemma laid_blanks: "n \<le> 4 \<Longrightarrow> laid (446 + 16 * n) (blanks_from n)"
proof -
  assume "n \<le> 4"
  then consider "n = 0" | "n = 1" | "n = 2" | "n = 3" | "n = 4" by linarith
  then show ?thesis by cases (simp_all add: blanks_from_def upt_rec)
qed

lemma laid_writes:
  assumes "geometry d" "1 \<le> cur"
  shows "laid (if cnt \<le> 3 then 446 + 16 * cnt else cur * sec d) (writes d cnt cur ext ps @ blanks_from (cnt + length ps))"
  using assms(2)
proof (induction ps arbitrary: cnt cur ext)
  case Nil
  then show ?case using laid_blanks [of cnt] by (auto simp: blanks_from_def)
next
  case (Cons p ps)
  have sec: "512 \<le> sec d" by (rule geometry_sec [OF assms(1)])
  have step: "laid (cur * sec d + 512) (writes d (Suc cnt) (cur + 1 + l) ext' ps @ blanks_from (Suc cnt + length ps))"
    if "cnt \<ge> 3" for l ext'
  proof -
    have "laid ((cur + 1 + l) * sec d) (writes d (Suc cnt) (cur + 1 + l) ext' ps @ blanks_from (Suc cnt + length ps))"
      using Cons.IH [of "cur + 1 + l" "Suc cnt" ext'] that by simp
    moreover have "cur * sec d + 512 \<le> (cur + 1 + l) * sec d" using sec by (simp add: add_mult_distrib)
    ultimately show ?thesis by (rule laid_mono)
  qed
  consider (pri) "cnt < 3 \<or> (cnt = 3 \<and> ps = [])" | (opens) "cnt = 3" "ps \<noteq> []" | (more) "cnt > 3" by linarith
  then show ?case
  proof cases
    case pri
    have "laid (446 + 16 * Suc cnt) (writes d (Suc cnt) (cur + part_len d cur p) ext ps @ blanks_from (Suc cnt + length ps))"
    proof (cases "cnt < 3")
      case True
      then show ?thesis using Cons.IH [of "cur + part_len d cur p" "Suc cnt" ext] Cons.prems by simp
    next
      case False
      then show ?thesis using pri by (simp add: blanks_from_def)
    qed
    then show ?thesis using pri by (auto simp: laid_Cons)
  next
    case opens
    have "1 * 512 \<le> cur * sec d" using sec Cons.prems by (intro mult_le_mono) auto
    then show ?thesis using opens step [of "part_len d (cur + 1) p" cur] by (simp add: laid_Cons)
  next
    case more
    then show ?thesis using step [of "part_len d (cur + 1) p" ext] by (simp add: laid_Cons)
  qed
qed

lemma writes_place:
  assumes "geometry d" "1 \<le> cur" "fits d (plan d cnt cur ps)" "(off, bs) \<in> set (writes d cnt cur ext ps)"
  shows "off + length bs \<le> 510 \<or> (512 \<le> off \<and> off < 2 ^ 62)"
  using assms(2-)
proof (induction ps arbitrary: cnt cur ext)
  case Nil
  then show ?case by simp
next
  case (Cons p ps)
  have sec: "512 \<le> sec d" "sec d \<le> 2 ^ 30" using geometry_sec [OF assms(1)] by auto
  let ?s = "if logical cnt ps then cur + 1 else cur"
  let ?e = "?s + part_len d ?s p"
  have f: "?s < lbas d" "fits d (plan d (Suc cnt) ?e ps)"
    using Cons.prems(2) by (auto simp: fits_def Let_def)
  have "1 * 512 \<le> cur * sec d" using sec Cons.prems(1) by (intro mult_le_mono) auto
  moreover have "cur < 2 ^ 32" using f lbas_less [of d] by (auto split: if_splits)
  then have "cur * sec d < 2 ^ 32 * 2 ^ 30" using sec by (intro mult_less_le_imp_less) auto
  ultimately have ebr: "512 \<le> cur * sec d" "cur * sec d < 2 ^ 62" by simp_all
  consider (pri) "cnt < 3 \<or> (cnt = 3 \<and> ps = [])" | (opens) "cnt = 3" "ps \<noteq> []" | (more) "cnt > 3" by linarith
  then show ?case
  proof cases
    case pri
    then have "\<not> logical cnt ps" by (auto simp: logical_def)
    then show ?thesis
      using Cons.IH [of ?e "Suc cnt" ext] Cons.prems f pri by (auto simp: pri_item_def)
  next
    case opens
    then have "logical cnt ps" by (simp add: logical_def)
    then show ?thesis
      using Cons.IH [of ?e "Suc cnt" cur] Cons.prems f opens ebr
      by (auto simp: ebr_item_def Let_def add.assoc)
  next
    case more
    then have "logical cnt ps" by (simp add: logical_def)
    then show ?thesis
      using Cons.IH [of ?e "Suc cnt" ext] Cons.prems f more ebr
      by (auto simp: ebr_item_def Let_def add.assoc)
  qed
qed

end
