(* ===== verification/Mbr_Table.thy ===== *)
theory Mbr_Table
  imports Mbr_Layout
begin

text \<open>
  Reading a PC partition table back, as an operating system does, and the properties of the
  partition table writer: what is committed to the disk reads back as the configured layout.
\<close>

section \<open>A reader of partition tables\<close>

definition rd_entry :: "disk \<Rightarrow> nat \<Rightarrow> u8 \<times> nat \<times> nat" where
  "rd_entry d off = (d (off + 4), le_val (pread d (off + 8) 4), le_val (pread d (off + 12) 4))"

definition boot_sig :: "disk \<Rightarrow> nat \<Rightarrow> bool" where
  "boot_sig d off \<longleftrightarrow> pread d (off + 510) 2 = [0x55, 0xAA]"

text \<open>The logical partitions: every record names one, relative to itself, and links to the next.\<close>

fun read_chain :: "nat \<Rightarrow> disk \<Rightarrow> nat \<Rightarrow> nat \<Rightarrow> nat \<Rightarrow> (u8 \<times> nat \<times> nat) list" where
  "read_chain 0 d ss ext lba = []"
| "read_chain (Suc n) d ss ext lba =
     (if \<not> boot_sig d (lba * ss) then []
      else
        let (t, s, l) = rd_entry d (lba * ss + 446);
            (t2, s2, l2) = rd_entry d (lba * ss + 462)
        in (t, lba + s, l) # (if t2 = 0 then [] else read_chain n d ss ext (ext + s2)))"

definition read_slot :: "nat \<Rightarrow> disk \<Rightarrow> nat \<Rightarrow> nat \<Rightarrow> (nat \<times> u8 \<times> nat \<times> nat) list \<times> (u8 \<times> nat \<times> nat) list" where
  "read_slot n d ss i =
     (case rd_entry d (446 + 16 * i) of (t, s, l) \<Rightarrow>
        if t = 0 then ([], [])
        else if t = PC_PART_TYPE_EXTENDED then ([], read_chain n d ss s s)
        else ([(i + 1, t, s, l)], []))"

text \<open>
  Primary partitions are numbered by their slot, logical ones from 5 on in the order of the chain.
  At most \<open>n\<close> logical partitions are read.
\<close>

definition read_table :: "nat \<Rightarrow> disk \<Rightarrow> nat \<Rightarrow> (nat \<times> u8 \<times> nat \<times> nat) list" where
  "read_table n d ss =
     (if \<not> boot_sig d 0 then []
      else
        let logicals = concat (map (\<lambda>i. snd (read_slot n d ss i)) [0..<4])
        in concat (map (\<lambda>i. fst (read_slot n d ss i)) [0..<4])
             @ zip [5..<5 + length logicals] logicals)"

text \<open>The table a list of partitions should give.\<close>

definition entries :: "disk_info \<Rightarrow> nat \<Rightarrow> nat \<Rightarrow> part_info list \<Rightarrow> (u8 \<times> nat \<times> nat) list" where
  "entries d cnt cur ps = zip (map p_type ps) (plan d cnt cur ps)"

definition numbered :: "'a list \<Rightarrow> (nat \<times> 'a) list" where
  "numbered es =
     (if length es \<le> 4 then zip [1..<5] es
      else zip [1..<4] (take 3 es) @ zip [5..<2 + length es] (drop 3 es))"

section \<open>Reading what was written\<close>

definition holds :: "disk \<Rightarrow> (nat \<times> u8 list) list \<Rightarrow> bool" where
  "holds d its \<longleftrightarrow> list_all (\<lambda>(off, bs). pread d off (length bs) = bs) its"

lemma holds_Cons: "holds d (it # its) \<longleftrightarrow> pread d (fst it) (length (snd it)) = snd it \<and> holds d its"
  by (cases it) (simp add: holds_def)

lemma holds_append: "holds d (xs @ ys) \<longleftrightarrow> holds d xs \<and> holds d ys"
  by (simp add: holds_def)

lemma pread_1: "pread d off 1 = [d off]"
  by (simp add: pread_def)

lemma rd_entry_pentry:
  assumes "pread d off 16 = pentry st t s l" "s < 2 ^ 32" "l < 2 ^ 32"
  shows "rd_entry d off = (t, s, l)"
proof -
  have "pread d (off + 4) 1 = [t]" using pread_sub [of 4 1 16 d off] assms(1)
    by (simp add: pentry_def Let_def)
  then have 1: "d (off + 4) = t" by (simp only: pread_1) simp
  have "pread d (off + 8) 4 = le_bytes 4 s" using pread_sub [of 8 4 16 d off] assms(1)
    by (simp add: pentry_def Let_def)
  moreover have "pread d (off + 12) 4 = le_bytes 4 l" using pread_sub [of 12 4 16 d off] assms(1)
    by (simp add: pentry_def Let_def)
  ultimately show ?thesis using 1 assms(2,3) by (simp add: rd_entry_def le_val_bytes_small)
qed

lemma rd_entry_zero: "pread d off 16 = replicate 16 0 \<Longrightarrow> fst (rd_entry d off) = 0"
  using pread_sub [of 4 1 16 d off] pread_1 [of d "off + 4"] by (simp add: rd_entry_def)

lemma ebr_parts:
  assumes "pread d off 512 = ebr_record a b" "length a = 16" "length b = 16"
  shows "pread d (off + 446) 16 = a" "pread d (off + 462) 16 = b" "boot_sig d off"
  using pread_sub [of 446 16 512 d off] pread_sub [of 462 16 512 d off] pread_sub [of 510 2 512 d off] assms
  by (simp_all add: ebr_record_def boot_sig_def)

lemma chain_read:
  assumes "fits d (plan d cnt cur (p # ps))" "cnt \<ge> 3" "cnt > 3 \<or> ps \<noteq> []" "ext \<le> cur"
    "holds k (ebr_item d ext cur p ps # writes d (Suc cnt) (cur + 1 + part_len d (cur + 1) p) ext ps)"
    "length ps < n"
  shows "read_chain n k (sec d) ext cur = entries d cnt cur (p # ps)"
  using assms
proof (induction ps arbitrary: p cnt cur n)
  case (Nil p cnt cur n)
  then obtain m where n: "n = Suc m" by (cases n) auto
  let ?len = "part_len d (cur + 1) p"
  have lg: "logical cnt ([] :: part_info list)" using Nil by (auto simp: logical_def)
  have f: "cur + 1 + ?len \<le> lbas d" using Nil lg by (simp add: fits_def Let_def)
  have "pread k (cur * sec d) 512 = ebr_record (pentry PC_PART_NORMAL (p_type p) 1 ?len) (replicate 16 0)"
    using Nil.prems(5) by (simp add: holds_def ebr_item_def Let_def)
  note e = ebr_parts [OF this]
  have "rd_entry k (cur * sec d + 446) = (p_type p, 1, ?len)"
    using e(1) f lbas_less [of d] by (intro rd_entry_pentry) auto
  moreover have "fst (rd_entry k (cur * sec d + 462)) = 0" using e(2) by (intro rd_entry_zero) simp
  ultimately show ?case using e(3) n lg
    by (cases "rd_entry k (cur * sec d + 462)") (simp add: entries_def Let_def)
next
  case (Cons q qs p cnt cur n)
  then obtain m where n: "n = Suc m" by (cases n) auto
  let ?len = "part_len d (cur + 1) p"
  let ?e = "cur + 1 + ?len"
  let ?nl = "if len_kb q = fill_disk then lbas d - ?e else 1 + sectors (sec d) (unat (len_kb q))"
  have lg: "logical cnt (q # qs)" "logical (Suc cnt) qs" using Cons by (auto simp: logical_def)
  have f: "?e \<le> lbas d" "fits d (plan d (Suc cnt) ?e (q # qs))"
    using Cons.prems(1) lg by (auto simp: fits_def Let_def)
  have g: "?e + 1 + part_len d (?e + 1) q \<le> lbas d" using f(2) lg by (simp add: fits_def Let_def)
  have nl: "?nl < 2 ^ 32" using g lbas_less [of d] by (auto simp: part_len_def split: if_splits)
  have "pread k (cur * sec d) 512 = ebr_record (pentry PC_PART_NORMAL (p_type p) 1 ?len)
      (pentry PC_PART_NORMAL PC_PART_TYPE_EXTENDED (?e - ext) ?nl)"
    using Cons.prems(5) by (simp add: holds_def ebr_item_def Let_def)
  note e = ebr_parts [OF this]
  have 1: "rd_entry k (cur * sec d + 446) = (p_type p, 1, ?len)"
    using e(1) f(1) lbas_less [of d] by (intro rd_entry_pentry) auto
  have 2: "rd_entry k (cur * sec d + 462) = (PC_PART_TYPE_EXTENDED, ?e - ext, ?nl)"
    using e(2) f(1) nl lbas_less [of d] by (intro rd_entry_pentry) auto
  have "read_chain m k (sec d) ext ?e = entries d (Suc cnt) ?e (q # qs)"
    using Cons.prems(2,4,5,6) n f(2)
    by (intro Cons.IH) (auto simp: holds_Cons)
  moreover have "ext + (?e - ext) = ?e" using Cons.prems(4) by simp
  ultimately show ?case using 1 2 e(3) n lg
    by (simp add: entries_def Let_def PC_PART_TYPE_EXTENDED_def)
qed

definition known_type :: "u8 \<Rightarrow> bool" where
  "known_type t \<longleftrightarrow> t = PC_PART_TYPE_LINUX \<or> t = PC_PART_TYPE_FAT32"

lemma known_type_plain: "known_type t \<Longrightarrow> t \<noteq> 0 \<and> t \<noteq> PC_PART_TYPE_EXTENDED"
  by (auto simp: known_type_def PC_PART_TYPE_LINUX_def PC_PART_TYPE_FAT32_def PC_PART_TYPE_EXTENDED_def)

lemma slot_primary:
  assumes "holds k [pri_item d i cur p]" "known_type (p_type p)" "cur + part_len d cur p \<le> lbas d"
  shows "read_slot n k ss i = ([(i + 1, p_type p, cur, part_len d cur p)], [])"
proof -
  have "cur < 2 ^ 32" "part_len d cur p < 2 ^ 32" using assms(3) lbas_less [of d] by auto
  then have "rd_entry k (446 + 16 * i) = (p_type p, cur, part_len d cur p)"
    using assms(1) by (intro rd_entry_pentry) (auto simp: holds_def pri_item_def)
  then show ?thesis using known_type_plain [OF assms(2)] by (simp add: read_slot_def)
qed

lemma slot_extended:
  assumes "holds k [(446 + 16 * i, pentry st PC_PART_TYPE_EXTENDED s l)]" "s < 2 ^ 32" "l < 2 ^ 32"
  shows "read_slot n k ss i = ([], read_chain n k ss s s)"
proof -
  have "rd_entry k (446 + 16 * i) = (PC_PART_TYPE_EXTENDED, s, l)"
    using assms by (intro rd_entry_pentry) (auto simp: holds_def)
  then show ?thesis by (simp add: read_slot_def PC_PART_TYPE_EXTENDED_def)
qed

lemma slot_blank:
  assumes "holds k (blanks_from m)" "m \<le> i" "i < 4"
  shows "read_slot n k ss i = ([], [])"
proof -
  have "pread k (446 + 16 * i) 16 = pentry 0 0 0 0"
    using assms by (auto simp: holds_def blanks_from_def list_all_iff)
  then have "rd_entry k (446 + 16 * i) = (0, 0, 0)" by (rule rd_entry_pentry) auto
  then show ?thesis by (simp add: read_slot_def)
qed

lemma length_plan [simp]: "length (plan d cnt cur ps) = length ps"
  by (induction ps arbitrary: cnt cur) (auto simp: Let_def)

lemma length_entries [simp]: "length (entries d cnt cur ps) = length ps"
  by (simp add: entries_def)

lemma slots_read:
  assumes "fits d (plan d cnt cur ps)" "list_all (known_type \<circ> p_type) ps" "cnt \<le> 3 \<or> (cnt = 4 \<and> ps = [])"
    "holds k (writes d cnt cur ext ps @ blanks_from (cnt + length ps))" "length ps \<le> n"
  defines "K \<equiv> if cnt + length ps \<le> 4 then length ps else 3 - cnt"
  shows "concat (map (\<lambda>i. fst (read_slot n k (sec d) i)) [cnt..<4]) = zip [cnt + 1..<5] (take K (entries d cnt cur ps)) \<and>
    concat (map (\<lambda>i. snd (read_slot n k (sec d) i)) [cnt..<4]) = drop K (entries d cnt cur ps)"
  using assms(1-5) unfolding K_def
proof (induction ps arbitrary: cnt cur ext n)
  case Nil
  then show ?case using slot_blank [of k cnt] by (simp add: entries_def)
next
  case (Cons p ps)
  then have cnt: "cnt \<le> 3" by simp
  then have up: "[cnt..<4] = cnt # [Suc cnt..<4]" "[cnt + 1..<5] = (cnt + 1) # [Suc cnt + 1..<5]"
    by (simp_all add: upt_rec)
  let ?s = "if logical cnt ps then cur + 1 else cur"
  let ?e = "?s + part_len d ?s p"
  have f: "?s < lbas d" "?e \<le> lbas d" "fits d (plan d (Suc cnt) ?e ps)"
    using Cons.prems(1) by (auto simp: fits_def Let_def)
  consider (pri) "cnt < 3 \<or> (cnt = 3 \<and> ps = [])" | (opens) "cnt = 3" "ps \<noteq> []" using cnt by linarith
  then show ?case
  proof cases
    case pri
    then have l: "\<not> logical cnt ps" by (auto simp: logical_def)
    have h: "holds k [pri_item d cnt cur p]"
      "holds k (writes d (Suc cnt) (cur + part_len d cur p) ext ps @ blanks_from (Suc cnt + length ps))"
      using Cons.prems(4) pri by (auto simp: holds_Cons holds_append holds_def)
    have "read_slot n k (sec d) cnt = ([(cnt + 1, p_type p, cur, part_len d cur p)], [])"
      using h(1) Cons.prems(2) f l by (intro slot_primary) auto
    moreover have "concat (map (\<lambda>i. fst (read_slot n k (sec d) i)) [Suc cnt..<4]) =
        zip [Suc cnt + 1..<5] (take (if Suc cnt + length ps \<le> 4 then length ps else 3 - Suc cnt)
          (entries d (Suc cnt) (cur + part_len d cur p) ps)) \<and>
      concat (map (\<lambda>i. snd (read_slot n k (sec d) i)) [Suc cnt..<4]) =
        drop (if Suc cnt + length ps \<le> 4 then length ps else 3 - Suc cnt)
          (entries d (Suc cnt) (cur + part_len d cur p) ps)"
      using f l pri Cons.prems h(2) by (intro Cons.IH) auto
    moreover have "entries d cnt cur (p # ps) =
        (p_type p, cur, part_len d cur p) # entries d (Suc cnt) (cur + part_len d cur p) ps"
      using l by (simp add: entries_def Let_def)
    moreover have "(if cnt + length (p # ps) \<le> 4 then length (p # ps) else 3 - cnt) =
        Suc (if Suc cnt + length ps \<le> 4 then length ps else 3 - Suc cnt)"
      using pri by auto
    ultimately show ?thesis unfolding up by simp
  next
    case opens
    then have l: "logical cnt ps" by (simp add: logical_def)
    have h: "holds k [(446 + 16 * cnt, pentry PC_PART_NORMAL PC_PART_TYPE_EXTENDED cur (lbas d - cur))]"
      using Cons.prems(4) opens by (simp add: holds_Cons holds_def)
    have "read_slot n k (sec d) cnt = ([], read_chain n k (sec d) cur cur)"
      by (rule slot_extended [OF h]) (use f l lbas_less [of d] in auto)
    moreover have "read_chain n k (sec d) cur cur = entries d cnt cur (p # ps)"
      using Cons.prems(4,5) opens
      by (intro chain_read [OF Cons.prems(1)]) (auto simp: holds_Cons holds_append)
    moreover have "length ps > 0" using opens by simp
    ultimately show ?thesis unfolding up using opens by simp
  qed
qed

lemma table_read:
  assumes "fits d (plan d 0 cur ps)" "list_all (known_type \<circ> p_type) ps" "boot_sig k 0"
    "holds k (writes d 0 cur ext ps @ blanks_from (length ps))"
  shows "read_table (length ps) k (sec d) = numbered (entries d 0 cur ps)"
proof -
  let ?E = "entries d 0 cur ps"
  have r: "concat (map (\<lambda>i. fst (read_slot (length ps) k (sec d) i)) [0..<4]) =
      zip [1..<5] (take (if length ps \<le> 4 then length ps else 3) ?E)"
    "concat (map (\<lambda>i. snd (read_slot (length ps) k (sec d) i)) [0..<4]) =
      drop (if length ps \<le> 4 then length ps else 3) ?E"
    using slots_read [OF assms(1,2), of k ext "length ps"] assms(4) by simp_all
  show ?thesis
  proof (cases "length ps \<le> 4")
    case True
    then show ?thesis using r assms(3) by (simp add: read_table_def numbered_def)
  next
    case False
    have three: "zip [1..<5] xs = zip [1..<4] xs" if "length xs = 3" for xs :: "(u8 \<times> nat \<times> nat) list"
      using that by (auto simp: numeral_eq_Suc length_Suc_conv upt_rec)
    have "zip [1..<5] (take 3 ?E) = zip [1..<4] (take 3 ?E)" using False by (intro three) simp
    then show ?thesis using False r assms(3) by (simp add: read_table_def numbered_def)
  qed
qed

section \<open>Committing the list\<close>

text \<open>A device on which every seek and every write succeeds.\<close>

definition good_device :: "nat \<Rightarrow> write_list \<Rightarrow> bool \<times> nat option" where
  "good_device n w = (True, Some (length (wl_data w)))"

lemma commit_good:
  "wlist_commit good_device False ws d = (0, pwrites (map (\<lambda>w. (unat (wl_offset w), wl_data w)) ws) d)"
  by (induction ws arbitrary: d) (simp_all add: good_device_def pwrites_def)

lemma commit_items:
  assumes "\<forall>it\<in>set its. fst it < 2 ^ 64"
  shows "map (\<lambda>w. (unat (wl_offset w), wl_data w)) (map wl_item its) = its"
proof -
  have "unat (word_of_nat n :: u64) = n" if "n < 2 ^ 64" for n
    using that by (simp add: unsigned_of_nat take_bit_nat_eq_self)
  then show ?thesis using assms by (intro nth_equalityI) (auto simp: wl_item_def)
qed

lemma blank_pentry: "geometry d \<Longrightarrow> 0 < lbas d \<Longrightarrow> i \<le> 3 \<Longrightarrow>
    \<exists>q. mk_pri_pentry True d (Some blank_part) i 0 = Some (wl_item (446 + 16 * i, pentry 0 0 0 0), q, 0)"
proof -
  assume a: "geometry d" "0 < lbas d" "i \<le> 3"
  have "0 < sec d" using geometry_sec(1) [OF a(1)] by simp
  then have "part_len d 0 blank_part = 0"
    by (simp add: part_len_def blank_part_def fill_disk_def sectors_def DIV_ROUND_UP_def)
  then show ?thesis using mk_pri_item [OF a(1), of 0 blank_part i] a
    by (simp add: pri_item_def blank_part_def PC_PART_NORMAL_def)
qed

lemma blank_loop_items:
  assumes "geometry d" "0 < lbas d" "\<forall>i\<in>set is. i \<le> 3"
  shows "blank_loop (\<lambda>_. True) d is wr =
    Some (rev (map (\<lambda>i. wl_item (446 + 16 * i, pentry 0 0 0 0)) is) @ wr)"
  using assms(3)
proof (induction "is" arbitrary: wr)
  case (Cons i "is")
  obtain q where "mk_pri_pentry True d (Some blank_part) i 0 = Some (wl_item (446 + 16 * i, pentry 0 0 0 0), q, 0)"
    using blank_pentry [OF assms(1,2)] Cons.prems by auto
  then show ?case using Cons by (simp add: wlist_add_def)
qed simp

definition empty_ptable :: "nat \<times> u8 list" where
  "empty_ptable = (440, replicate 70 0 @ [0x55, 0xAA])"

lemma config_mbr_items:
  assumes "geometry d" "part_lst d = Some ps" "ps \<noteq> []" "fits d (plan d 0 (unat (skip_lba d)) ps)"
  shows "\<exists>ps'. config_mbr (\<lambda>_. True) d =
      (d\<lparr>part_lst := Some ps'\<rparr>,
       Some (map wl_item (empty_ptable # rev (writes d 0 (unat (skip_lba d)) 0 ps @ blanks_from (length ps))))) \<and>
    map start_lba ps' = map (word_of_nat \<circ> fst) (plan d 0 (unat (skip_lba d)) ps) \<and> map name ps' = map name ps"
proof -
  let ?c = "unat (skip_lba d)"
  have l: "0 < lbas d" using assms(3,4) by (cases ps) (auto simp: fits_def Let_def)
  obtain ps' where ps': "part_loop (\<lambda>_. True) d 0 (skip_lba d) 0 False [] ps =
      (ps', Some (rev (map wl_item (writes d 0 ?c 0 ps))))"
    "map start_lba ps' = map (word_of_nat \<circ> fst) (plan d 0 ?c ps)" "map name ps' = map name ps"
    using part_loop_writes [OF assms(1,4), of False 0 "[]"] by auto
  have "blank_loop (\<lambda>_. True) d [length ps..<4] wr = Some (rev (map wl_item (blanks_from (length ps))) @ wr)" for wr
    using blank_loop_items [OF assms(1) l, of "[length ps..<4]" wr] by (simp add: blanks_from_def comp_def)
  then have "config_mbr (\<lambda>_. True) d =
      (d\<lparr>part_lst := Some ps'\<rparr>,
       Some (map wl_item (empty_ptable # rev (writes d 0 ?c 0 ps @ blanks_from (length ps)))))"
    using ps'(1) assms(2)
    by (simp add: config_mbr_def mk_empty_ptable_def wlist_add_def empty_ptable_def wl_item_def
        PC_NUM_BOOT_RECORD_PARTS_def rev_map)
  then show ?thesis using ps'(2,3) by blast
qed

lemma empty_ptable_sig: "pread (pwrites [empty_ptable] d) 510 2 = [0x55, 0xAA]"
proof -
  have "pread (pwrites [empty_ptable] d) 440 72 = snd empty_ptable"
    using pread_pwrite [of 440 "snd empty_ptable" d] by (simp add: pwrites_def empty_ptable_def)
  then show ?thesis
    using pread_sub [of 70 2 72 "pwrites [empty_ptable] d" 440] by (simp add: empty_ptable_def)
qed

lemma commit_layout:
  fixes k :: disk
  assumes "geometry d" "1 \<le> cur" "fits d (plan d 0 cur ps)"
  defines "its \<equiv> writes d 0 cur 0 ps @ blanks_from (length ps)"
  defines "k' \<equiv> snd (wlist_commit good_device False (map wl_item (empty_ptable # rev its)) k)"
  shows "holds k' its" "boot_sig k' 0" "\<forall>i<440. k' i = k i"
proof -
  have place: "off + length bs \<le> 510 \<or> (512 \<le> off \<and> off < 2 ^ 62)" if "(off, bs) \<in> set its" for off bs
    using that writes_place [OF assms(1-3), of off bs 0] by (auto simp: its_def blanks_from_def)
  have la: "laid 446 its" using laid_writes [OF assms(1,2), of 0 0 ps] by (simp add: its_def)
  have "fst it < 2 ^ 64" if "it \<in> set its" for it
    using place [of "fst it" "snd it"] that by (cases it) auto
  then have k': "k' = pwrites (rev its) (pwrites [empty_ptable] k)"
    unfolding k'_def commit_good by (subst commit_items) (auto simp: empty_ptable_def pwrites_def)
  show "holds k' its"
    unfolding holds_def list_all_iff k' using pwrites_laid [OF la] by blast
  have "pread k' 510 2 = pread (pwrites [empty_ptable] k) 510 2"
    unfolding k'
  proof (rule pread_cong, rule pwrites_outside, safe)
    fix i off bs assume "510 \<le> i" "i < 510 + 2" "(off, bs) \<in> set (rev its)" "off \<le> i" "i < off + length bs"
    then show False using place [of off bs] by simp
  qed
  then show "boot_sig k' 0" by (simp add: boot_sig_def empty_ptable_sig)
  show "\<forall>i<440. k' i = k i"
    unfolding k' by (simp add: pwrites_laid_below [OF la]) (simp add: pwrites_def empty_ptable_def pwrite_def)
qed

lemma mbr_written:
  assumes "geometry d" "1 \<le> unat (skip_lba d)" "part_lst d = Some ps" "ps \<noteq> []"
    "fits d (plan d 0 (unat (skip_lba d)) ps)" "list_all (known_type \<circ> p_type) ps"
  shows "\<exists>d' wl disk'. config_mbr (\<lambda>_. True) d = (d', Some wl) \<and>
    wlist_commit good_device False wl disk = (0, disk') \<and>
    read_table (length ps) disk' (sec d) = numbered (entries d 0 (unat (skip_lba d)) ps) \<and>
    map_option (map start_lba) (part_lst d') = Some (map (word_of_nat \<circ> fst) (plan d 0 (unat (skip_lba d)) ps)) \<and>
    pread disk' 0 440 = pread disk 0 440"
proof -
  let ?c = "unat (skip_lba d)"
  let ?its = "writes d 0 ?c 0 ps @ blanks_from (length ps)"
  define wl where "wl = map wl_item (empty_ptable # rev ?its)"
  define k where "k = snd (wlist_commit good_device False wl disk)"
  obtain ps' where c: "config_mbr (\<lambda>_. True) d = (d\<lparr>part_lst := Some ps'\<rparr>, Some wl)"
    "map start_lba ps' = map (word_of_nat \<circ> fst) (plan d 0 ?c ps)"
    using config_mbr_items [OF assms(1,3,4,5)] unfolding wl_def by auto
  note kk = commit_layout [OF assms(1,2,5), of disk, folded wl_def k_def]
  have "wlist_commit good_device False wl disk = (0, k)" by (simp only: k_def commit_good snd_conv)
  moreover have "read_table (length ps) k (sec d) = numbered (entries d 0 ?c ps)"
    by (rule table_read [OF assms(5,6) kk(2,1)])
  moreover have "pread k 0 440 = pread disk 0 440" by (rule pread_cong) (use kk(3) in simp)
  ultimately show ?thesis using c
    by (intro exI [of _ "d\<lparr>part_lst := Some ps'\<rparr>"] exI [of _ wl] exI [of _ k]) simp
qed

section \<open>Properties\<close>

text \<open>
  C2. Writing and reading back a partition table. For a configuration whose layout fits the disk,
  on sectors of \<open>2 ^ k\<close> bytes from 512 on, building the table succeeds, committing it on a working
  device succeeds, and a reader of PC partition tables then finds exactly the configured
  partitions, primary and logical, each with its type, first sector and length, and numbered as
  the reader numbers them. The first sector is recorded in the configuration and the boot code
  (bytes 0 to 439) is left alone.
\<close>

theorem partition_table_roundtrip:
  assumes "geometry d" "1 \<le> unat (skip_lba d)" "part_lst d = Some ps" "ps \<noteq> []"
    "fits d (plan d 0 (unat (skip_lba d)) ps)" "list_all (known_type \<circ> p_type) ps"
  shows "\<exists>d' wl disk'. config_mbr (\<lambda>_. True) d = (d', Some wl) \<and>
    wlist_commit good_device False wl disk = (0, disk') \<and>
    read_table (length ps) disk' (sec d) = numbered (entries d 0 (unat (skip_lba d)) ps) \<and>
    map_option (map start_lba) (part_lst d') = Some (map (word_of_nat \<circ> fst) (plan d 0 (unat (skip_lba d)) ps)) \<and>
    pread disk' 0 440 = pread disk 0 440"
  using assms by (rule mbr_written)

definition example_part :: "string \<Rightarrow> u8 \<Rightarrow> u32 \<Rightarrow> part_info" where
  "example_part nm fl kb = \<lparr>name = nm, flags = fl, p_type = PC_PART_TYPE_LINUX, len_kb = kb, start_lba = 0\<rparr>"

definition example_parts :: "part_info list" where
  "example_parts = [example_part ''boot'' 1 1024, example_part ''recovery'' 0 1024,
     example_part ''system'' 0 2048, example_part ''cache'' 0 100, example_part ''data'' 0 fill_disk]"

definition example_disk :: disk_info where
  "example_disk = \<lparr>device = ''/dev/mmcblk0'', scheme = 1, sect_size = 512, skip_lba = 64, num_lba = 20000,
     part_lst = Some example_parts\<rparr>"

lemma example_geometry: "geometry example_disk"
  unfolding geometry_def by (rule exI [of _ 9]) (simp add: example_disk_def)

lemma example_plan:
  "plan example_disk 0 (unat (skip_lba example_disk)) example_parts =
     [(64, 2048), (2112, 2048), (4160, 4096), (8257, 200), (8458, 11542)]"
  by (simp add: example_disk_def example_parts_def example_part_def logical_def part_len_def fill_disk_def
      sectors_def DIV_ROUND_UP_def Let_def)

theorem partition_table_roundtrip_witness:
  "\<exists>d' wl disk'. config_mbr (\<lambda>_. True) example_disk = (d', Some wl) \<and>
    wlist_commit good_device False wl (\<lambda>_. 7) = (0, disk') \<and>
    read_table 5 disk' 512 =
      [(1, 0x83, 64, 2048), (2, 0x83, 2112, 2048), (3, 0x83, 4160, 4096), (5, 0x83, 8257, 200),
       (6, 0x83, 8458, 11542)]"
proof -
  have p: "part_lst example_disk = Some example_parts" by (simp add: example_disk_def)
  have fi: "fits example_disk (plan example_disk 0 (unat (skip_lba example_disk)) example_parts)"
    unfolding fits_def example_plan by (simp add: example_disk_def)
  have ty: "list_all (known_type \<circ> p_type) example_parts" and ne: "example_parts \<noteq> []"
    by (simp_all add: example_parts_def example_part_def known_type_def)
  have "numbered (entries example_disk 0 (unat (skip_lba example_disk)) example_parts) =
      [(1, 0x83, 64, 2048), (2, 0x83, 2112, 2048), (3, 0x83, 4160, 4096), (5, 0x83, 8257, 200),
       (6, 0x83, 8458, 11542)]"
    unfolding entries_def example_plan
    by (simp add: example_parts_def example_part_def PC_PART_TYPE_LINUX_def numbered_def upt_rec)
  moreover have "length example_parts = 5" "sec example_disk = 512"
    by (simp_all add: example_parts_def example_disk_def)
  moreover have "1 \<le> unat (skip_lba example_disk)" by (simp add: example_disk_def)
  ultimately show ?thesis
    using partition_table_roundtrip [OF example_geometry _ p ne fi ty, of "\<lambda>_. 7"] by auto
qed

lemma part_number_distinct:
  assumes "distinct (map name ps)" "i < length ps"
  shows "part_number (name (ps ! i)) n ps = Some (n + i)"
  using assms
proof (induction ps arbitrary: i n)
  case (Cons p ps)
  then show ?case by (cases i) auto
qed simp

lemma nth_numbered:
  assumes "i < length es"
  shows "numbered es ! i = (if length es > 4 \<and> i \<ge> 3 then i + 2 else i + 1, es ! i)"
  using assms by (auto simp: numbered_def nth_append min_def simp del: upt_Suc)

lemma length_numbered [simp]: "length (numbered es) = length es"
  by (auto simp: numbered_def min_def)

text \<open>
  C30. The device node of a partition. With the table committed as in the previous property, the
  node that \<^verbatim>\<open>find_mbr_part\<close> names for the \<open>i\<close>-th of distinctly named partitions is the disk's node
  followed by the number under which a reader of the table finds that partition (with a \<^verbatim>\<open>p\<close> between
  when the disk's name ends in a digit).
\<close>

theorem partition_node:
  assumes "geometry d" "1 \<le> unat (skip_lba d)" "part_lst d = Some ps"
    "fits d (plan d 0 (unat (skip_lba d)) ps)" "list_all (known_type \<circ> p_type) ps"
    "distinct (map name ps)" "i < length ps"
    "config_mbr (\<lambda>_. True) d = (d', Some wl)" "wlist_commit good_device False wl disk = (r, disk')"
    "find_mbr_part True d' (name (ps ! i)) = Some dev"
  shows "\<exists>num. dev = device d @ (if isdigit (last (device d)) then ''p'' else []) @ show_nat num \<and>
    (num, entries d 0 (unat (skip_lba d)) ps ! i) \<in> set (read_table (length ps) disk' (sec d))"
proof -
  let ?c = "unat (skip_lba d)"
  let ?its = "writes d 0 ?c 0 ps @ blanks_from (length ps)"
  have ne: "ps \<noteq> []" using assms(7) by auto
  obtain ps' where c: "d' = d\<lparr>part_lst := Some ps'\<rparr>" "wl = map wl_item (empty_ptable # rev ?its)"
    "map name ps' = map name ps"
    using config_mbr_items [OF assms(1,3) ne assms(4)] assms(8) by auto
  have disk': "disk' = snd (wlist_commit good_device False (map wl_item (empty_ptable # rev ?its)) disk)"
    using assms(9) c(2) by simp
  have t: "read_table (length ps) disk' (sec d) = numbered (entries d 0 ?c ps)"
    unfolding disk' using commit_layout(1,2) [OF assms(1,2,4), of disk] by (intro table_read [OF assms(4,5)])
  have len: "length ps' = length ps" using c(3) by (rule map_eq_imp_length_eq)
  moreover have "name (ps' ! i) = name (ps ! i)" using c(3) assms(7) len by (metis nth_map)
  ultimately have num: "part_number (name (ps ! i)) 1 ps' = Some (1 + i)"
    using part_number_distinct [of ps' i 1] assms(6,7) c(3) by simp
  let ?n = "if length ps > 4 \<and> i \<ge> 3 then i + 2 else i + 1"
  have "dev = device d @ (if isdigit (last (device d)) then ''p'' else []) @ show_nat ?n"
    using assms(10) num len
    by (auto simp: find_mbr_part_def c(1) PC_NUM_BOOT_RECORD_PARTS_def Let_def split: if_splits)
  moreover have "(?n, entries d 0 ?c ps ! i) \<in> set (numbered (entries d 0 ?c ps))"
    using nth_numbered [of i "entries d 0 ?c ps"] assms(7) nth_mem [of i "numbered (entries d 0 ?c ps)"] by simp
  ultimately show ?thesis using t by auto
qed

theorem partition_node_witness:
  "\<exists>d' wl r disk' num. config_mbr (\<lambda>_. True) example_disk = (d', Some wl) \<and>
    wlist_commit good_device False wl (\<lambda>_. 7) = (r, disk') \<and>
    find_mbr_part True d' ''cache'' = Some (''/dev/mmcblk0p'' @ show_nat num) \<and>
    (num, 0x83, 8257, 200) \<in> set (read_table 5 disk' 512)"
proof -
  have p: "part_lst example_disk = Some example_parts" by (simp add: example_disk_def)
  have fi: "fits example_disk (plan example_disk 0 (unat (skip_lba example_disk)) example_parts)"
    unfolding fits_def example_plan by (simp add: example_disk_def)
  have ty: "list_all (known_type \<circ> p_type) example_parts" "example_parts \<noteq> []"
    "distinct (map name example_parts)" "3 < length example_parts" "name (example_parts ! 3) = ''cache''"
    by (simp_all add: example_parts_def example_part_def known_type_def)
  obtain ps' wl where c: "config_mbr (\<lambda>_. True) example_disk = (example_disk\<lparr>part_lst := Some ps'\<rparr>, Some wl)"
    "map name ps' = map name example_parts"
    using config_mbr_items [OF example_geometry p ty(2) fi] by auto
  obtain r k where k: "wlist_commit good_device False wl (\<lambda>_. 7) = (r, k)" by fastforce
  have l5: "length ps' = 5" using map_eq_imp_length_eq [OF c(2)] by (simp add: example_parts_def)
  have "name (ps' ! 3) = ''cache''"
    using arg_cong [OF c(2), of "\<lambda>l. l ! 3"] l5 ty(4,5) by simp
  then have "part_number ''cache'' 1 ps' = Some 4"
    using part_number_distinct [of ps' 3 1] c(2) ty(3) l5 by simp
  then have f: "find_mbr_part True (example_disk\<lparr>part_lst := Some ps'\<rparr>) ''cache'' = Some (''/dev/mmcblk0p'' @ show_nat 5)"
    using l5
    by (simp add: find_mbr_part_def example_disk_def isdigit_def PC_NUM_BOOT_RECORD_PARTS_def MAX_NAME_LEN_def
        show_nat_def show_base.simps)
  have "entries example_disk 0 (unat (skip_lba example_disk)) example_parts ! 3 = (0x83, 8257, 200)"
    unfolding entries_def example_plan
    by (simp add: example_parts_def example_part_def PC_PART_TYPE_LINUX_def)
  moreover have "device example_disk = ''/dev/mmcblk0''" "sec example_disk = 512" "length example_parts = 5"
    "1 \<le> unat (skip_lba example_disk)"
    by (simp_all add: example_disk_def example_parts_def)
  ultimately show ?thesis
    using partition_node [OF example_geometry _ p fi ty(1,3,4) c(1) k] f c(1) k ty(5)
    by (auto simp: isdigit_def)
qed

text \<open>
  C31. The test for the end of the disk counts \<open>len_kb div sect_size * 1024\<close> sectors, so it misses any
  partition of fewer kilobytes than a sector has bytes: the table is built although the partition
  ends after the disk.
\<close>

theorem space_check_misses:
  assumes "geometry d" "part_lst d = Some [p]" "skip_lba d < num_lba d" "unat (len_kb p) < sec d"
    "unat (skip_lba d) + sectors (sec d) (unat (len_kb p)) > lbas d"
  shows "snd (config_mbr (\<lambda>_. True) d) \<noteq> None"
proof -
  have "len_kb p div sect_size d = 0" using assms(4) by (simp add: word_arith_nat_div)
  then have ns: "\<not> no_space d False (skip_lba d) p" using assms(3) by (auto simp: no_space_def Let_def)
  obtain it q l where "mk_pri_pentry True d (Some p) 0 (skip_lba d) = Some (it, Some q, l)"
    by (simp add: mk_pri_pentry_def PC_NUM_BOOT_RECORD_PARTS_def Let_def)
  then have "part_loop (\<lambda>_. True) d 0 (skip_lba d) 0 False [] [p] = ([q], Some [it])"
    using ns by (simp add: wlist_add_def PC_NUM_BOOT_RECORD_PARTS_def)
  moreover have "0 < lbas d" using assms(3) by (simp add: word_less_nat_alt)
  then have "blank_loop (\<lambda>_. True) d [1..<4] [it] \<noteq> None"
    using blank_loop_items [OF assms(1), of "[1..<4]" "[it]"] by simp
  ultimately show ?thesis using assms(2)
    by (auto simp: config_mbr_def PC_NUM_BOOT_RECORD_PARTS_def mk_empty_ptable_def)
qed

theorem space_check_misses_witness:
  "snd (config_mbr (\<lambda>_. True) (example_disk\<lparr>num_lba := 100, part_lst := Some [example_part ''data'' 0 500]\<rparr>)) \<noteq> None"
proof (rule space_check_misses [where p = "example_part ''data'' 0 500"])
  show "geometry (example_disk\<lparr>num_lba := 100, part_lst := Some [example_part ''data'' 0 500]\<rparr>)"
    using example_geometry by (simp add: geometry_def)
qed (simp_all add: example_disk_def example_part_def sectors_def DIV_ROUND_UP_def)

end
