(* ===== verification/Diskconfig.thy ===== *)
theory Diskconfig
  imports Config_Tree Mbr_Table
begin

text \<open>
  The disk configuration of \<^verbatim>\<open>libdiskconfig/diskconfig.c\<close> and \<^verbatim>\<open>libdiskconfig/diskutils.c\<close>: loading a layout
  from a configuration file, checking it against the device, writing the partition table, and
  copying a raw image to a device.
\<close>

section \<open>Loading a layout\<close>

text \<open>
  \<open>None\<close> is the return value 1, otherwise \<^verbatim>\<open>*plen\<close>. The text is cut to the 63 characters that fit
  \<^verbatim>\<open>tmp\<close>; the shifts act on a 32-bit \<^verbatim>\<open>multiple\<close>, the product on 64 bits.
\<close>

definition parse_len :: "string \<Rightarrow> u64 option" where
  "parse_len str =
     (let tmp = take 63 str
      in if tmp = [] then None
         else
           let c = last tmp;
               (tmp, multiple) =
                 (if c = CHR ''M'' \<or> c = CHR ''m'' then (butlast tmp, push_bit 10 (push_bit 10 (1 :: u32)))
                  else if c = CHR ''K'' \<or> c = CHR ''k'' then (butlast tmp, push_bit 10 1)
                  else (tmp, 1));
               len = word_of_nat (strtoul 64 0 tmp) :: u64
           in if len = 0 then None
              else if len = - 1 then (if multiple > 1 then None else Some len)
              else
                let multiple = (if multiple > 1024 then drop_bit 10 multiple else multiple);
                    len = len * ucast multiple
                in if len > 0xffffffff then None else Some len)"

definition MAX_NUM_PARTS :: nat where "MAX_NUM_PARTS = 16"

text \<open>
  The loop over the children of the \<^verbatim>\<open>partitions\<close> node. The array has 16 elements and the loop does not
  test for its end: \<open>Overrun\<close> is a write behind it.
\<close>

datatype 'a load_result = Loaded 'a | LoadFailed | Overrun

fun load_partitions :: "cnode list \<Rightarrow> part_info list \<Rightarrow> part_info list load_result" where
  "load_partitions [] done = Loaded done"
| "load_partitions (partnode # rest) done =
     (if length done \<ge> MAX_NUM_PARTS then Overrun
      else
        let fl = (if config_bool partnode ''active'' False then PART_ACTIVE_FLAG else 0)
        in case config_str partnode ''type'' None of
             None \<Rightarrow> LoadFailed
           | Some t \<Rightarrow>
               if t \<noteq> ''linux'' \<and> t \<noteq> ''fat32'' then LoadFailed
               else
                 let ty = (if t = ''linux'' then PC_PART_TYPE_LINUX else PC_PART_TYPE_FAT32);
                     len = (case config_str partnode ''len'' None of
                              None \<Rightarrow> Some 0
                            | Some s \<Rightarrow> map_option ucast (parse_len s))
                 in case len of
                      None \<Rightarrow> LoadFailed
                    | Some kb \<Rightarrow>
                        load_partitions rest
                          (done @ [\<lparr>name = cn_name partnode, flags = fl, p_type = ty, len_kb = kb, start_lba = 0\<rparr>]))"

definition PART_SCHEME_MBR :: u8 where "PART_SCHEME_MBR = 1"

definition child_of :: "cnode \<Rightarrow> string \<Rightarrow> cnode option" where
  "child_of root nm = map_option (\<lambda>i. cn_children root ! i) (config_find root nm)"

text \<open>The fields of the \<^verbatim>\<open>device\<close> section, in the order of the code; every failure frees the result.\<close>

definition load_device :: "cnode \<Rightarrow> string option \<Rightarrow> disk_info load_result" where
  "load_device devroot path_override =
     (case config_str devroot ''path'' path_override of
        None \<Rightarrow> LoadFailed
      | Some path \<Rightarrow>
          if config_str devroot ''scheme'' None \<noteq> Some ''mbr'' then LoadFailed
          else
            let ss = word_of_int (strtol 32 0 (the (config_str devroot ''sector_size'' (Some ''512'')))) :: u32
            in if ss = 0 then LoadFailed
               else case config_str devroot ''start_lba'' None of
                      None \<Rightarrow> LoadFailed
                    | Some sk \<Rightarrow>
                        let skip = word_of_int (strtol 32 0 sk) :: u32
                        in if skip = 0 then LoadFailed
                           else case config_str devroot ''num_lba'' None of
                                  None \<Rightarrow> LoadFailed
                                | Some nl \<Rightarrow>
                                    (case child_of devroot ''partitions'' of
                                       None \<Rightarrow> LoadFailed
                                     | Some partnode \<Rightarrow>
                                         (case load_partitions (cn_children partnode) [] of
                                            Loaded ps \<Rightarrow>
                                              Loaded \<lparr>device = path, scheme = PART_SCHEME_MBR, sect_size = ss,
                                                skip_lba = skip, num_lba = word_of_nat (strtoul 32 0 nl),
                                                part_lst = Some ps\<rparr>
                                          | LoadFailed \<Rightarrow> LoadFailed
                                          | Overrun \<Rightarrow> Overrun)))"

definition load_diskconfig :: "bool \<Rightarrow> bool \<Rightarrow> load_answers \<Rightarrow> string option \<Rightarrow> disk_info load_result" where
  "load_diskconfig malloc_info malloc_parts fa path_override =
     (if \<not> malloc_info then LoadFailed
      else if \<not> malloc_parts then LoadFailed
      else
        let root = the (config_load_file fa (config_node (Some []) (Some [])))
        in if cn_children root = [] then LoadFailed
           else case child_of root ''device'' of
                  None \<Rightarrow> LoadFailed
                | Some devroot \<Rightarrow> load_device devroot path_override)"

section \<open>Checking a layout\<close>

text \<open>
  What the system answers about the device: the descriptor, \<^verbatim>\<open>fstat\<close>, the kind of file, the two
  \<^verbatim>\<open>ioctl\<close> calls (\<open>None\<close> for an error), and \<^verbatim>\<open>st_size\<close>, which has 32 bits on this build.
\<close>

datatype file_kind = Blk | Reg | OtherKind

record dev_answers =
  da_fd :: int
  da_fstat :: bool
  da_kind :: file_kind
  da_ssz :: "u32 option"
  da_size64 :: "u64 option"
  da_st_size :: u32

datatype fd_event = FOpen int | FClose int

text \<open>
  The sum of the sizes, with the 32-bit products of the code. \<open>None\<close> is the jump to \<^verbatim>\<open>fail\<close>. The branch
  for a length of 0 stands behind the test for another length than -1 and is never reached.
\<close>

fun sum_parts :: "u64 \<Rightarrow> part_info list \<Rightarrow> u64 option" where
  "sum_parts sz [] = Some sz"
| "sum_parts sz (p # ps) =
     (let sz' = (if len_kb p \<noteq> fill_disk then Some (sz + ucast (len_kb p * 1024))
                 else if ps \<noteq> [] then None else Some sz)
      in case sz' of
           None \<Rightarrow> None
         | Some s \<Rightarrow>
             if p_type p \<noteq> PC_PART_TYPE_LINUX \<and> p_type p \<noteq> PC_PART_TYPE_FAT32 then None else sum_parts s ps)"

definition sdiv32 :: "u32 \<Rightarrow> u32 \<Rightarrow> u32" where
  "sdiv32 a b = word_of_int (sgn (sint a) * sgn (sint b) * (\<bar>sint a\<bar> div \<bar>sint b\<bar>))"

text \<open>The size of the disk: the number of sectors, filled in if it was 0, and the bytes.\<close>

definition disk_extent :: "dev_answers \<Rightarrow> disk_info \<Rightarrow> (u32 \<times> u64) option" where
  "disk_extent da dinfo =
     (case da_kind da of
        Blk \<Rightarrow>
          (case da_ssz da of
             None \<Rightarrow> None
           | Some sect_sz \<Rightarrow>
               if sect_sz = 0 \<or> sect_sz \<noteq> sect_size dinfo then None
               else if num_lba dinfo = 0
               then (case da_size64 da of
                       None \<Rightarrow> None
                     | Some disk_size \<Rightarrow> Some (ucast (disk_size div signed (sect_size dinfo)), disk_size))
               else Some (num_lba dinfo, ucast (num_lba dinfo) * signed (sect_size dinfo)))
      | Reg \<Rightarrow>
          if sect_size dinfo = 0 then None
          else if num_lba dinfo \<noteq> 0
          then Some (num_lba dinfo, ucast (num_lba dinfo) * signed (sect_size dinfo))
          else Some (sdiv32 (da_st_size da) (sect_size dinfo), signed (da_st_size da))
      | OtherKind \<Rightarrow> None)"

text \<open>The result is the descriptor or -1, the updated configuration and the descriptor events.\<close>

definition validate :: "dev_answers \<Rightarrow> disk_info option \<Rightarrow> int \<times> disk_info option \<times> fd_event list" where
  "validate da di =
     (case di of
        None \<Rightarrow> (-1, di, [])
      | Some dinfo \<Rightarrow>
          if da_fd da < 0 then (-1, di, [])
          else
            let failed = (\<lambda>d. (-1, Some d, [FOpen (da_fd da), FClose (da_fd da)]))
            in if \<not> da_fstat da then failed dinfo
               else case disk_extent da dinfo of
                      None \<Rightarrow> failed dinfo
                    | Some (n, disk_size) \<Rightarrow>
                        let d = dinfo\<lparr>num_lba := n\<rparr>;
                            parts = (case part_lst d of None \<Rightarrow> [] | Some ps \<Rightarrow> ps)
                        in case sum_parts (ucast (skip_lba d * sect_size d)) parts of
                             None \<Rightarrow> failed d
                           | Some total_size \<Rightarrow>
                               if da_kind da = Blk \<and> total_size > disk_size then failed d
                               else (da_fd da, Some d, [FOpen (da_fd da)]))"

section \<open>Writing a layout\<close>

text \<open>
  The result is the return value, \<^verbatim>\<open>*fd\<close>, \<^verbatim>\<open>*lst\<close>, the configuration and the descriptor events. A table
  that cannot be built leaves the descriptor open.
\<close>

definition validate_and_config ::
    "(nat \<Rightarrow> bool) \<Rightarrow> dev_answers \<Rightarrow> disk_info option \<Rightarrow>
     int \<times> int \<times> write_list list option \<times> disk_info option \<times> fd_event list" where
  "validate_and_config alloc da di =
     (let (fd, di', ev) = validate da di
      in if fd < 0 then (1, fd, None, di', ev)
         else
           let d = the di'
           in if scheme d = PART_SCHEME_MBR
              then let (d', lst) = config_mbr alloc d
                   in (if lst = None then 1 else 0, fd, lst, Some d', ev)
              else (1, fd, None, di', ev @ [FClose fd]))"

definition process_disk_config ::
    "(nat \<Rightarrow> bool) \<Rightarrow> dev_answers \<Rightarrow> disk_info option \<Rightarrow> int \<times> disk_info option \<times> fd_event list" where
  "process_disk_config alloc da di =
     (let (r, fd, lst, di', ev) = validate_and_config alloc da di
      in if r \<noteq> 0 then (1, di', ev) else (0, di', ev @ [FClose fd]))"

record sync_answers =
  sa_fstat :: bool
  sa_blk :: bool
  sa_reread :: int

definition sync_ptable :: "sync_answers \<Rightarrow> int" where
  "sync_ptable sa = (if \<not> sa_fstat sa then -1 else if sa_blk sa \<and> sa_reread sa < 0 then -1 else 0)"

definition apply_disk_config ::
    "(nat \<Rightarrow> bool) \<Rightarrow> dev_answers \<Rightarrow> (nat \<Rightarrow> write_list \<Rightarrow> bool \<times> nat option) \<Rightarrow> sync_answers \<Rightarrow> bool \<Rightarrow>
     disk_info option \<Rightarrow> disk \<Rightarrow> int \<times> disk_info option \<times> disk \<times> fd_event list" where
  "apply_disk_config alloc da io sa test di disk =
     (let (r, fd, lst, di', ev) = validate_and_config alloc da di
      in if r \<noteq> 0 then (1, di', disk, ev @ [FClose fd])
         else
           let (rv, disk') = wlist_commit io test (the lst) disk;
               rv' = (if rv \<ge> 0 then (if test then 0 else sync_ptable sa) else rv)
           in (rv', di', disk', ev @ [FClose fd]))"

definition find_part :: "disk_info \<Rightarrow> string \<Rightarrow> part_info option" where
  "find_part dinfo nm = find (\<lambda>p. name p = nm) (case part_lst dinfo of None \<Rightarrow> [] | Some ps \<Rightarrow> ps)"

definition find_part_device :: "bool \<Rightarrow> disk_info \<Rightarrow> string \<Rightarrow> string option" where
  "find_part_device malloc dinfo nm =
     (if scheme dinfo = PART_SCHEME_MBR then find_mbr_part malloc dinfo nm else None)"

section \<open>Raw images\<close>

text \<open>
  Results of \<^verbatim>\<open>read\<close> and \<^verbatim>\<open>write\<close>: an error, with \<^verbatim>\<open>EINTR\<close> or another code, or what was transferred. A
  loop that uses up the results of the system waits for the next one: \<open>None\<close>.
\<close>

datatype rd = RdErr bool | Rd "u8 list"
datatype wr = WrErr bool | Wr nat

text \<open>
  The inner loop hands \<^verbatim>\<open>buffer\<close> to \<^verbatim>\<open>write\<close> on every turn, from its first byte; \<open>n\<close> is \<^verbatim>\<open>nr_bytes\<close>.
\<close>

fun write_out :: "wr list \<Rightarrow> u8 list \<Rightarrow> nat \<Rightarrow> nat \<Rightarrow> disk \<Rightarrow> (bool \<times> nat \<times> disk \<times> wr list) option" where
  "write_out ws buffer n off d =
     (if n = 0 then Some (True, off, d, ws)
      else case ws of
             [] \<Rightarrow> None
           | WrErr eintr # ws' \<Rightarrow> if eintr then write_out ws' buffer n off d else Some (False, off, d, ws')
           | Wr k # ws' \<Rightarrow>
               let k = min k n
               in write_out ws' buffer (n - k) (off + k) (pwrite off (take k buffer) d))"

fun copy_loop :: "bool \<Rightarrow> rd list \<Rightarrow> wr list \<Rightarrow> nat \<Rightarrow> disk \<Rightarrow> (bool \<times> disk) option" where
  "copy_loop test [] ws off d = None"
| "copy_loop test (RdErr eintr # rs) ws off d = (if eintr then copy_loop test rs ws off d else Some (False, d))"
| "copy_loop test (Rd bs # rs) ws off d =
     (let buf = take 2048 bs
      in if buf = [] then Some (True, d)
         else if test then copy_loop test rs ws off d
         else case write_out ws buf (length buf) off d of
                None \<Rightarrow> None
              | Some (ok, off', d', ws') \<Rightarrow> if ok then copy_loop test rs ws' off' d' else Some (False, d'))"

definition write_raw_image ::
    "bool \<Rightarrow> bool \<Rightarrow> bool \<Rightarrow> bool \<Rightarrow> rd list \<Rightarrow> wr list \<Rightarrow> nat \<Rightarrow> disk \<Rightarrow> (int \<times> disk) option" where
  "write_raw_image src_ok dst_ok seek_ok test rs ws off d =
     (if \<not> src_ok then Some (1, d)
      else if \<not> test \<and> \<not> dst_ok then Some (1, d)
      else if \<not> test \<and> \<not> seek_ok then Some (1, d)
      else map_option (\<lambda>(ok, d'). (if ok then 0 else 1, d')) (copy_loop test rs ws off d))"

end
