(* ===== verification/Diskconfig_Props.thy ===== *)
theory Diskconfig_Props
  imports Diskconfig
begin

text \<open>
  Properties of the disk configuration: a written configuration file is loaded as the layout it
  describes, applying it leaves that layout on the device, and what goes wrong on the paths that the
  code does not handle.
\<close>

section \<open>Numbers of a configuration file\<close>

lemma show_nat_ne: "show_nat n \<noteq> []"
  by (simp add: show_nat_def show_base_ne)

lemma show_nat_head: "0 < n \<Longrightarrow> hd (show_nat n) \<noteq> CHR ''0''"
proof (induction n rule: less_induct)
  case (less n)
  show ?case
  proof (cases "n < 10")
    case True
    then have "show_nat n = [digit_char n]" by (simp add: show_nat_def show_base.simps)
    moreover have "digit_char n \<noteq> CHR ''0''"
      using True less.prems digit_value_digit_char [of n] digit_value_zero by auto
    ultimately show ?thesis by simp
  next
    case False
    then have "show_nat n = show_nat (n div 10) @ [digit_char (n mod 10)]"
      by (simp add: show_nat_def show_base.simps [of 10 n])
    then show ?thesis using less.IH [of "n div 10"] False show_nat_ne [of "n div 10"] by simp
  qed
qed

lemma show_nat_text:
  "dropWhile isspace (show_nat n) = show_nat n" "skip_sign (show_nat n) = (False, show_nat n)"
proof -
  obtain c cs where s: "show_nat n = c # cs" using show_nat_ne by (cases "show_nat n") auto
  then have "\<exists>d<10. digit_value c = Some d" using show_nat_digits [of c n] by simp
  from decimal_digit_plain [OF this]
  show "dropWhile isspace (show_nat n) = show_nat n" "skip_sign (show_nat n) = (False, show_nat n)"
    unfolding s by simp_all
qed

lemma skip_prefix_any:
  assumes "0 < n"
  shows "skip_prefix 0 (show_nat n) = (10, show_nat n)"
proof -
  obtain c cs where s: "show_nat n = c # cs" using show_nat_ne by (cases "show_nat n") auto
  then have c: "c \<noteq> CHR ''0''" using show_nat_head [OF assms] by simp
  have "skip_prefix 0 (c # cs) = (10, c # cs)"
    using c by (cases "(0 :: nat, c # cs)" rule: skip_prefix.cases) auto
  then show ?thesis by (simp only: s)
qed

lemma digits_any_base:
  "(case skip_prefix 0 (show_nat n) of (b, s) \<Rightarrow> digits_value b 0 s) = n"
proof (cases "n = 0")
  case True
  have "show_nat 0 = ''0''" by code_simp
  then show ?thesis using True digit_value_zero by simp
next
  case False
  then show ?thesis by (simp add: skip_prefix_any digits_value_show_nat)
qed

lemma strtoul_show_nat: "n < 2 ^ w \<Longrightarrow> strtoul w 0 (show_nat n) = n"
  using digits_any_base [of n] by (simp add: strtoul_def show_nat_text split: prod.splits)

lemma strtol_show_nat:
  assumes "n < 2 ^ (w - 1)"
  shows "strtol w 0 (show_nat n) = int n"
proof -
  define P :: int where "P = 2 ^ (w - 1)"
  have p: "int n < P" using assms by (metis P_def of_nat_less_iff of_nat_numeral of_nat_power)
  have "0 < P" by (simp add: P_def)
  then have q: "\<not> P - 1 < int n" "\<not> int n < - P" using p by auto
  obtain b s where bs: "skip_prefix 0 (show_nat n) = (b, s)" by fastforce
  then have "digits_value b 0 s = n" using digits_any_base [of n] by simp
  then show ?thesis
    unfolding strtol_def show_nat_text prod.case bs P_def [symmetric] Let_def using q by simp
qed

lemma show_nat_last: "last (show_nat n) \<notin> {CHR ''M'', CHR ''m'', CHR ''K'', CHR ''k''}"
proof -
  have "\<exists>d<10. digit_value (last (show_nat n)) = Some d"
    using show_nat_digits [OF last_in_set [OF show_nat_ne]] .
  then show ?thesis by (auto simp: digit_value_def)
qed

lemma show_base_length10: "n < 10 ^ Suc k \<Longrightarrow> length (show_nat n) \<le> Suc k"
proof (induction k arbitrary: n)
  case 0
  then show ?case by (simp add: show_nat_def show_base.simps)
next
  case (Suc k)
  show ?case
  proof (cases "n < 10")
    case True
    then show ?thesis by (simp add: show_nat_def show_base.simps)
  next
    case False
    have "n div 10 < 10 ^ Suc k" using Suc.prems by (intro less_mult_imp_div_less) (simp add: mult.commute)
    from Suc.IH [OF this] False show ?thesis by (simp add: show_nat_def show_base.simps [of 10 n])
  qed
qed

lemma parse_len_number:
  assumes "0 < n" "n < 2 ^ 32"
  shows "parse_len (show_nat n) = Some (word_of_nat n)"
proof -
  have "length (show_nat n) \<le> 10" using show_base_length10 [of n 9] assms(2) by simp
  then have t: "take 63 (show_nat n) = show_nat n" by simp
  have u: "unat (word_of_nat n :: u64) = n" using assms(2) by (simp add: unsigned_of_nat take_bit_nat_eq_self)
  have st: "strtoul 64 0 (show_nat n) = n" using assms(2) by (intro strtoul_show_nat) simp
  have "(word_of_nat n :: u64) \<noteq> 0" using u assms(1) by auto
  moreover have "(word_of_nat n :: u64) \<noteq> - 1"
  proof
    assume "(word_of_nat n :: u64) = - 1"
    then have "unat (- 1 :: u64) = n" using u by simp
    moreover have "unat (- 1 :: u64) = 2 ^ 64 - 1" by (simp add: unsigned_minus_1_eq_mask mask_eq_exp_minus_1)
    ultimately show False using assms(2) by simp
  qed
  moreover have "\<not> (word_of_nat n :: u64) > 0xffffffff" using u assms(2) by (simp add: word_less_nat_alt)
  ultimately show ?thesis
    using show_nat_last [of n] show_nat_ne [of n] by (simp add: parse_len_def t Let_def st)
qed

lemma parse_len_fill: "parse_len ''-1'' = Some (- 1)"
proof -
  have "strtoul 64 0 ''-1'' = 2 ^ 64 - 1"
    by (simp add: strtoul_def isspace_def digit_value_def)
  then show ?thesis by (simp add: parse_len_def)
qed


section \<open>A written configuration\<close>

definition part_node :: "part_info \<Rightarrow> cnode" where
  "part_node p =
     CNode (name p) []
       ([CNode ''type'' (if p_type p = PC_PART_TYPE_LINUX then ''linux'' else ''fat32'') []]
        @ (if len_kb p = 0 then []
           else [CNode ''len'' (if len_kb p = fill_disk then ''-1'' else show_nat (unat (len_kb p))) []])
        @ (if flags p = 0 then [] else [CNode ''active'' ''yes'' []]))"

definition disk_node :: "disk_info \<Rightarrow> cnode" where
  "disk_node d =
     CNode ''device'' []
       [CNode ''path'' (device d) [], CNode ''scheme'' ''mbr'' [],
        CNode ''sector_size'' (show_nat (unat (sect_size d))) [],
        CNode ''start_lba'' (show_nat (unat (skip_lba d))) [],
        CNode ''num_lba'' (show_nat (unat (num_lba d))) [],
        CNode ''partitions'' [] (map part_node (the (part_lst d)))]"

definition part_ok :: "part_info \<Rightarrow> bool" where
  "part_ok p \<longleftrightarrow> name_ok (name p) \<and> known_type (p_type p) \<and> (flags p = 0 \<or> flags p = PART_ACTIVE_FLAG) \<and>
     start_lba p = 0"

definition layout_ok :: "disk_info \<Rightarrow> bool" where
  "layout_ok d \<longleftrightarrow>
     value_ok (device d) \<and> scheme d = PART_SCHEME_MBR \<and>
     0 < unat (sect_size d) \<and> unat (sect_size d) < 2 ^ 31 \<and>
     0 < unat (skip_lba d) \<and> unat (skip_lba d) < 2 ^ 31 \<and>
     part_lst d \<noteq> None \<and> list_all part_ok (the (part_lst d)) \<and> distinct (map name (the (part_lst d))) \<and>
     length (the (part_lst d)) \<le> MAX_NUM_PARTS"

definition file_with :: "string \<Rightarrow> load_answers" where
  "file_with bs = \<lparr>la_open = True, la_size = int (length bs), la_rewind = 0, la_malloc = True, la_read = Some bs\<rparr>"

lemma value_ok_number: "value_ok (show_nat n)"
proof -
  have d: "\<not> isspace c \<and> c \<noteq> CHR ''#'' \<and> \<not> is_punct c \<and> c \<noteq> newline \<and> c \<noteq> NUL" if "c \<in> set (show_nat n)" for c
    using show_nat_digits [OF that] by (auto simp: digit_value_def isspace_def is_punct_def)
  show ?thesis
    using d [OF hd_in_set [OF show_nat_ne]] d [OF last_in_set [OF show_nat_ne]] show_nat_ne d
    by (auto simp: value_ok_def list_all_iff)
qed

lemma node_ok_leaf: "name_ok nm \<Longrightarrow> value_ok v \<Longrightarrow> node_ok (CNode nm v [])"
  by (auto simp: value_ok_def)

lemma keyword_names:
  "name_ok ''type''" "name_ok ''len''" "name_ok ''active''" "name_ok ''path''" "name_ok ''scheme''"
  "name_ok ''sector_size''" "name_ok ''start_lba''" "name_ok ''num_lba''" "name_ok ''partitions''" "name_ok ''device''"
  by (simp_all add: name_ok_def isspace_def is_punct_def)

lemma keyword_values: "value_ok ''linux''" "value_ok ''fat32''" "value_ok ''yes''" "value_ok ''mbr''" "value_ok ''-1''"
  by (simp_all add: value_ok_def isspace_def is_punct_def)

lemma part_node_ok: "part_ok p \<Longrightarrow> node_ok (part_node p)"
  by (simp add: part_node_def part_ok_def node_ok_leaf keyword_names keyword_values value_ok_number
      del: node_ok.simps) (simp add: node_ok_leaf keyword_names keyword_values value_ok_number)

lemma disk_node_ok: "layout_ok d \<Longrightarrow> node_ok (disk_node d)"
proof -
  assume a: "layout_ok d"
  let ?ps = "the (part_lst d)"
  have "list_all node_ok (map part_node ?ps)" using a part_node_ok by (auto simp: layout_ok_def list_all_iff)
  moreover have "distinct (map cn_name (map part_node ?ps))"
    using a by (simp add: layout_ok_def part_node_def comp_def)
  ultimately have "node_ok (CNode ''partitions'' [] (map part_node ?ps))" by (simp add: keyword_names)
  moreover have "value_ok (device d)" using a by (simp add: layout_ok_def)
  ultimately show ?thesis unfolding disk_node_def
    by (subst node_ok.simps)
       (simp add: node_ok_leaf keyword_names keyword_values value_ok_number del: node_ok.simps)
qed

lemma find_leaf: "config_find (CNode nm v cs) k = last_index k 0 cs None"
  by (simp add: config_find_def)

lemma load_partition_nodes:
  assumes "list_all part_ok ps" "length done + length ps \<le> MAX_NUM_PARTS"
  shows "load_partitions (map part_node ps) done = Loaded (done @ ps)"
  using assms
proof (induction ps arbitrary: "done")
  case Nil
  then show ?case by simp
next
  case (Cons p ps)
  have p: "part_ok p" using Cons.prems by simp
  have t: "config_str (part_node p) ''type'' None = Some (if p_type p = PC_PART_TYPE_LINUX then ''linux'' else ''fat32'')"
    by (simp add: part_node_def config_str_def find_leaf)
  have a: "config_bool (part_node p) ''active'' False \<longleftrightarrow> flags p \<noteq> 0"
    by (simp add: part_node_def config_bool_def find_leaf)
  have ty: "(if p_type p = PC_PART_TYPE_LINUX then PC_PART_TYPE_LINUX else PC_PART_TYPE_FAT32) = p_type p"
    using p by (auto simp: part_ok_def known_type_def)
  have l: "(case config_str (part_node p) ''len'' None of None \<Rightarrow> Some 0 | Some s \<Rightarrow> map_option ucast (parse_len s)) =
      Some (len_kb p)"
  proof -
    consider "len_kb p = 0" | "len_kb p = fill_disk" "len_kb p \<noteq> 0" | "len_kb p \<noteq> 0" "len_kb p \<noteq> fill_disk" by blast
    then show ?thesis
    proof cases
      case 1
      then show ?thesis by (simp add: part_node_def config_str_def find_leaf)
    next
      case 2
      have "(ucast (- 1 :: u64) :: u32) = - 1" by (rule bit_eqI) (simp add: bit_simps)
      then show ?thesis using 2 by (simp add: part_node_def config_str_def find_leaf parse_len_fill fill_disk_def)
    next
      case 3
      have "parse_len (show_nat (unat (len_kb p))) = Some (word_of_nat (unat (len_kb p)))"
        using 3 unsigned_less [of "len_kb p", where ?'a = nat]
        by (intro parse_len_number) (simp_all add: unat_gt_0)
      moreover have "(ucast (ucast x :: u64) :: u32) = x" for x :: u32
        by (rule bit_eqI) (auto simp: bit_simps dest: bit_imp_le_length)
      ultimately show ?thesis using 3 by (simp add: part_node_def config_str_def find_leaf)
    qed
  qed
  have r: "\<lparr>name = cn_name (part_node p), flags = (if flags p \<noteq> 0 then PART_ACTIVE_FLAG else 0), p_type = p_type p,
      len_kb = len_kb p, start_lba = 0\<rparr> = p"
    using p by (cases p) (auto simp: part_ok_def part_node_def)
  have "load_partitions (map part_node (p # ps)) done = load_partitions (map part_node ps) (done @ [p])"
    using Cons.prems(2) r ty unfolding list.map load_partitions.simps Let_def t a l option.case
    by (cases "flags p = 0"; cases "p_type p = PC_PART_TYPE_LINUX") simp_all
  then show ?case using Cons.IH [of "done @ [p]"] Cons.prems by simp
qed

lemma load_disk_node:
  assumes "layout_ok d"
  shows "load_device (disk_node d) over = Loaded d"
proof -
  obtain ps where ps: "part_lst d = Some ps" using assms by (auto simp: layout_ok_def)
  have c: "config_str (disk_node d) ''path'' over = Some (device d)"
    "config_str (disk_node d) ''scheme'' None = Some ''mbr''"
    "config_str (disk_node d) ''sector_size'' (Some ''512'') = Some (show_nat (unat (sect_size d)))"
    "config_str (disk_node d) ''start_lba'' None = Some (show_nat (unat (skip_lba d)))"
    "config_str (disk_node d) ''num_lba'' None = Some (show_nat (unat (num_lba d)))"
    "child_of (disk_node d) ''partitions'' = Some (CNode ''partitions'' [] (map part_node ps))"
    by (simp_all add: disk_node_def config_str_def child_of_def find_leaf ps)
  have n: "strtol 32 0 (show_nat (unat (sect_size d))) = int (unat (sect_size d))"
    "strtol 32 0 (show_nat (unat (skip_lba d))) = int (unat (skip_lba d))"
    using assms by (simp_all add: layout_ok_def strtol_show_nat)
  have m: "strtoul 32 0 (show_nat (unat (num_lba d))) = unat (num_lba d)"
    using unsigned_less [of "num_lba d", where ?'a = nat] by (intro strtoul_show_nat) simp
  have p: "load_partitions (map part_node ps) [] = Loaded ps"
    using load_partition_nodes [of ps "[]"] assms ps by (simp add: layout_ok_def)
  have z: "sect_size d \<noteq> 0" "skip_lba d \<noteq> 0" using assms by (auto simp: layout_ok_def)
  have "\<lparr>device = device d, scheme = PART_SCHEME_MBR, sect_size = sect_size d, skip_lba = skip_lba d,
      num_lba = num_lba d, part_lst = Some ps\<rparr> = d"
    using assms ps by (cases d) (simp add: layout_ok_def)
  then show ?thesis
    unfolding load_device_def c option.case option.sel n m Let_def
    using z p by simp
qed

lemma load_printed:
  assumes "layout_ok d"
  shows "load_diskconfig True True (file_with (print_node (disk_node d))) over = Loaded d"
proof -
  have "config_load (config_node None None) (Some (concat (map print_node [disk_node d]) @ [NUL])) =
      Some (CNode [] [] [disk_node d])"
    using disk_node_ok [OF assms] by (intro tree_read_back) simp_all
  then have "config_load_file (file_with (print_node (disk_node d))) (config_node (Some []) (Some [])) =
      Some (CNode [] [] [disk_node d])"
    by (simp add: config_load_file_def load_file_def file_with_def config_node_def)
  moreover have "cn_name (disk_node d) = ''device''" by (simp add: disk_node_def)
  ultimately show ?thesis
    using load_disk_node [OF assms] by (simp add: load_diskconfig_def child_of_def find_leaf)
qed


section \<open>Checking and writing it\<close>

lemma unat_mult_le: "unat (a * b :: u32) \<le> unat a * unat b"
  by (simp add: unat_word_ariths)

lemma sectors_enough: "0 < ss \<Longrightarrow> kb * 1024 \<le> sectors ss kb * ss"
  using ALIGN_ge [of ss "kb * 1024"] by (simp add: ALIGN_def sectors_def mult.commute)

lemma unat_add_small: "unat a + unat b < 2 ^ 64 \<Longrightarrow> unat (a + b :: u64) = unat a + unat b"
  by (simp add: unat_word_ariths)

lemma sum_parts_fits:
  assumes "geometry d" "fits d (plan d cnt cur ps)" "list_all (known_type \<circ> p_type) ps" "unat z \<le> cur * sec d" "cur \<le> lbas d"
  shows "\<exists>z'. sum_parts z ps = Some z' \<and> unat z' \<le> lbas d * sec d"
  using assms(2-)
proof (induction ps arbitrary: cnt cur z)
  case Nil
  then show ?case by (auto intro: order_trans mult_le_mono1)
next
  case (Cons p ps)
  let ?s = "if logical cnt ps then cur + 1 else cur"
  let ?e = "?s + part_len d ?s p"
  have f: "?s < lbas d" "?e \<le> lbas d" "fits d (plan d (Suc cnt) ?e ps)"
    using Cons.prems(1) by (auto simp: fits_def Let_def)
  have t: "p_type p = PC_PART_TYPE_LINUX \<or> p_type p = PC_PART_TYPE_FAT32" using Cons.prems(2) by (simp add: known_type_def)
  have big: "lbas d * sec d < 2 ^ 64"
  proof -
    have "lbas d * sec d \<le> 2 ^ 32 * 2 ^ 30" using lbas_less [of d] geometry_sec(2) [OF assms(1)] by (intro mult_le_mono) auto
    then show ?thesis by simp
  qed
  show ?case
  proof (cases "len_kb p = fill_disk")
    case True
    have "ps = []"
    proof (rule ccontr)
      assume "ps \<noteq> []"
      then obtain q qs where "ps = q # qs" by (cases ps) auto
      moreover have "?e = lbas d" using True f(1) by (simp add: part_len_def)
      ultimately show False using f(3) by (auto simp: fits_def Let_def split: if_splits)
    qed
    then show ?thesis using True t Cons.prems(3,4) by (auto intro: order_trans mult_le_mono1)
  next
    case False
    let ?x = "len_kb p * 1024"
    have "unat ?x \<le> unat (len_kb p) * 1024" using unat_mult_le [of "len_kb p" 1024] by simp
    also have "\<dots> \<le> part_len d ?s p * sec d"
      using sectors_enough [of "sec d"] geometry_sec(1) [OF assms(1)] False by (simp add: part_len_def)
    finally have "unat z + unat ?x \<le> cur * sec d + part_len d ?s p * sec d" using Cons.prems(3) by simp
    also have "\<dots> = (cur + part_len d ?s p) * sec d" by (simp add: add_mult_distrib)
    also have "\<dots> \<le> ?e * sec d" by (intro mult_le_mono1) simp
    finally have u: "unat z + unat ?x \<le> ?e * sec d" .
    also have "\<dots> \<le> lbas d * sec d" using f(2) by (intro mult_le_mono1)
    finally have "unat z + unat ?x < 2 ^ 64" using big by simp
    then have "unat (z + ucast ?x) = unat z + unat ?x" using unat_add_small [of z "ucast ?x"] by (simp add: unat_ucast64)
    then have "unat (z + ucast ?x) \<le> ?e * sec d" using u by simp
    then obtain z' where "sum_parts (z + ucast ?x) ps = Some z'" "unat z' \<le> lbas d * sec d"
      using Cons.IH [of "Suc cnt" ?e "z + ucast ?x"] f Cons.prems(2) by auto
    then show ?thesis using False t by auto
  qed
qed

definition block_device :: "disk_info \<Rightarrow> dev_answers" where
  "block_device d = \<lparr>da_fd = 3, da_fstat = True, da_kind = Blk, da_ssz = Some (sect_size d), da_size64 = None, da_st_size = 0\<rparr>"

lemma validate_fits:
  assumes "geometry d" "part_lst d = Some ps" "ps \<noteq> []" "fits d (plan d 0 (unat (skip_lba d)) ps)"
    "list_all (known_type \<circ> p_type) ps"
  shows "validate (block_device d) (Some d) = (3, Some d, [FOpen 3])"
proof -
  let ?c = "unat (skip_lba d)"
  have c: "?c \<le> lbas d" using assms(3,4) by (cases ps) (auto simp: fits_def Let_def split: if_splits)
  have nz: "num_lba d \<noteq> 0" using assms(3,4) by (cases ps) (auto simp: fits_def Let_def)
  have sz: "sect_size d \<noteq> 0" using geometry_sec(1) [OF assms(1)] by auto
  have "(signed (sect_size d) :: u64) = ucast (sect_size d)"
    using geometry_sec(2) [OF assms(1)] by (intro signed_u32_pos) simp
  then have ext: "disk_extent (block_device d) d = Some (num_lba d, ucast (num_lba d) * ucast (sect_size d))"
    using nz sz by (simp add: disk_extent_def block_device_def)
  have "lbas d * sec d \<le> 2 ^ 32 * 2 ^ 30"
    using lbas_less [of d] geometry_sec(2) [OF assms(1)] by (intro mult_le_mono) auto
  then have ds: "unat (ucast (num_lba d) * ucast (sect_size d) :: u64) = lbas d * sec d"
    by (simp add: unat_word_ariths unat_ucast64)
  have "unat (ucast (skip_lba d * sect_size d) :: u64) \<le> ?c * sec d"
    using unat_mult_le [of "skip_lba d" "sect_size d"] by (simp add: unat_ucast64)
  from sum_parts_fits [OF assms(1,4,5) this c] obtain z'
    where z: "sum_parts (ucast (skip_lba d * sect_size d)) ps = Some z'" "unat z' \<le> lbas d * sec d" by blast
  then have "\<not> z' > ucast (num_lba d) * ucast (sect_size d)" using ds by (simp add: word_less_nat_alt)
  moreover have "d\<lparr>num_lba := num_lba d\<rparr> = d" by simp
  ultimately show ?thesis using ext z(1) assms(2) by (simp add: validate_def block_device_def [of d])
qed


section \<open>Properties\<close>

definition synced :: sync_answers where
  "synced = \<lparr>sa_fstat = True, sa_blk = True, sa_reread = 0\<rparr>"

text \<open>
  C4. From configuration file to partition table. A layout written as a configuration file is loaded
  as that layout; applying it to a block device of matching sector size on which the layout fits
  returns 0, closes the descriptor it opened, and leaves a partition table in which a reader finds
  exactly the partitions of the file.
\<close>

theorem disk_provisioned:
  assumes "layout_ok d" "geometry d" "part_lst d = Some ps" "ps \<noteq> []" "fits d (plan d 0 (unat (skip_lba d)) ps)"
  shows "load_diskconfig True True (file_with (print_node (disk_node d))) None = Loaded d \<and>
    (\<exists>d' disk'. apply_disk_config (\<lambda>_. True) (block_device d) good_device synced False (Some d) disk =
        (0, d', disk', [FOpen 3, FClose 3]) \<and>
      read_table (length ps) disk' (sec d) = numbered (entries d 0 (unat (skip_lba d)) ps))"
proof
  show "load_diskconfig True True (file_with (print_node (disk_node d))) None = Loaded d"
    by (rule load_printed [OF assms(1)])
  have ty: "list_all (known_type \<circ> p_type) ps"
    using assms(1,3) by (auto simp: layout_ok_def part_ok_def list_all_iff)
  have sk: "1 \<le> unat (skip_lba d)" and mbr: "scheme d = PART_SCHEME_MBR" using assms(1) by (auto simp: layout_ok_def)
  obtain d' wl disk' where w: "config_mbr (\<lambda>_. True) d = (d', Some wl)"
    "wlist_commit good_device False wl disk = (0, disk')"
    "read_table (length ps) disk' (sec d) = numbered (entries d 0 (unat (skip_lba d)) ps)"
    using mbr_written [OF assms(2) sk assms(3-5) ty, of disk] by blast
  have "validate_and_config (\<lambda>_. True) (block_device d) (Some d) = (0, 3, Some wl, Some d', [FOpen 3])"
    using validate_fits [OF assms(2-5) ty] w(1) mbr by (simp add: validate_and_config_def)
  then show "\<exists>d' disk'. apply_disk_config (\<lambda>_. True) (block_device d) good_device synced False (Some d) disk =
      (0, d', disk', [FOpen 3, FClose 3]) \<and>
    read_table (length ps) disk' (sec d) = numbered (entries d 0 (unat (skip_lba d)) ps)"
    using w(2,3) by (simp add: apply_disk_config_def sync_ptable_def synced_def)
qed

theorem disk_provisioned_witness:
  "load_diskconfig True True (file_with (print_node (disk_node example_disk))) None = Loaded example_disk \<and>
    (\<exists>d' disk'. apply_disk_config (\<lambda>_. True) (block_device example_disk) good_device synced False (Some example_disk) (\<lambda>_. 7) =
        (0, d', disk', [FOpen 3, FClose 3]) \<and>
      read_table 5 disk' 512 = numbered (entries example_disk 0 64 example_parts))"
proof -
  have "layout_ok example_disk"
    by (simp add: layout_ok_def example_disk_def example_parts_def example_part_def part_ok_def known_type_def
        PART_SCHEME_MBR_def PART_ACTIVE_FLAG_def MAX_NUM_PARTS_def value_ok_def name_ok_def isspace_def is_punct_def)
  moreover have "part_lst example_disk = Some example_parts" by (simp add: example_disk_def)
  moreover have "fits example_disk (plan example_disk 0 (unat (skip_lba example_disk)) example_parts)"
    unfolding fits_def example_plan by (simp add: example_disk_def)
  moreover have "example_parts \<noteq> []" "length example_parts = 5" "sec example_disk = 512" "unat (skip_lba example_disk) = 64"
    by (simp_all add: example_parts_def example_disk_def)
  ultimately show ?thesis
    using disk_provisioned [OF _ example_geometry, of example_parts "\<lambda>_. 7"] by simp
qed

text \<open>
  The suffix \<^verbatim>\<open>K\<close> of a length means the same as \<^verbatim>\<open>M\<close>: the conversion to kilobytes only divides a
  multiple that is larger than 1024.
\<close>

theorem parse_len_kilobytes:
  assumes "length s < 63"
  shows "parse_len (s @ ''K'') = parse_len (s @ ''M'')"
proof -
  have "push_bit 10 (1 :: u32) = 1024" "push_bit 10 (1024 :: u32) = 1048576" "drop_bit 10 (1048576 :: u32) = 1024"
    by (simp_all add: push_bit_eq_mult drop_bit_eq_div)
  then show ?thesis using assms by (simp add: parse_len_def Let_def)
qed

theorem parse_len_kilobytes_witness: "parse_len ''16K'' = parse_len ''16M'' \<and> parse_len ''16M'' = Some 16384"
proof -
  have "strtoul 64 0 ''16'' = 16" by (simp add: strtoul_def isspace_def digit_value_def)
  then have "parse_len ''16M'' = Some 16384"
    by (simp add: parse_len_def push_bit_eq_mult drop_bit_eq_div)
  then show ?thesis using parse_len_kilobytes [of "''16''"] by simp
qed

text \<open>
  When a valid configuration cannot be laid out, \<^verbatim>\<open>process_disk_config\<close> returns 1 with the device
  still open: the events are the opening alone.
\<close>

theorem process_leaks_descriptor:
  assumes "validate da (Some d) = (fd, Some d1, [FOpen fd])" "0 \<le> fd" "scheme d1 = PART_SCHEME_MBR"
    "config_mbr alloc d1 = (d2, None)"
  shows "process_disk_config alloc da (Some d) = (1, Some d2, [FOpen fd])"
  using assms by (simp add: process_disk_config_def validate_and_config_def)

theorem process_leaks_descriptor_witness:
  "process_disk_config (\<lambda>_. False) (block_device example_disk) (Some example_disk) = (1, Some example_disk, [FOpen 3])"
proof -
  have p: "part_lst example_disk = Some example_parts" by (simp add: example_disk_def)
  have "validate (block_device example_disk) (Some example_disk) = (3, Some example_disk, [FOpen 3])"
    using p by (intro validate_fits [OF example_geometry p])
      (simp_all add: fits_def example_plan, simp_all add: example_parts_def example_disk_def example_part_def known_type_def)
  moreover have "config_mbr (\<lambda>_. False) example_disk = (example_disk, None)"
    by (simp add: config_mbr_def example_disk_def example_parts_def mk_pri_pentry_def Let_def)
  ultimately show ?thesis
    using process_leaks_descriptor [of "block_device example_disk" example_disk 3 example_disk "\<lambda>_. False" example_disk]
    by (simp add: example_disk_def PART_SCHEME_MBR_def)
qed


lemma pwrite_append: "pwrite (off + length a) b (pwrite off a d) = pwrite off (a @ b) d"
  by (rule ext) (auto simp: pwrite_def nth_append)

lemma write_out_full:
  assumes "bs \<noteq> []"
  shows "write_out (Wr (length bs) # ws) bs (length bs) off d = Some (True, off + length bs, pwrite off bs d, ws)"
  using assms by (simp add: write_out.simps [of ws])

declare write_out.simps [simp del]

text \<open>
  C33. Copying a raw image: when the device takes each block whole, the device holds the image at
  the offset, block after block, and nothing else has changed.
\<close>

theorem raw_image_copied:
  assumes "list_all (\<lambda>b. b \<noteq> [] \<and> length b \<le> 2048) blocks"
  shows "write_raw_image True True True False (map Rd blocks @ [Rd []]) (map (\<lambda>b. Wr (length b)) blocks) off d =
    Some (0, pwrite off (concat blocks) d)"
proof -
  have "copy_loop False (map Rd blocks @ [Rd []]) (map (\<lambda>b. Wr (length b)) blocks) off d =
      Some (True, pwrite off (concat blocks) d)"
    using assms
  proof (induction blocks arbitrary: off d)
    case Nil
    have "pwrite off [] d = d" by (rule ext) (auto simp: pwrite_def)
    then show ?case by simp
  next
    case (Cons b bs)
    then show ?case by (simp add: write_out_full pwrite_append)
  qed
  then show ?thesis by (simp add: write_raw_image_def)
qed

theorem raw_image_copied_witness:
  "write_raw_image True True True False [Rd [1, 2, 3], Rd [4], Rd []] [Wr 3, Wr 1] 1024 (\<lambda>_. 0) =
    Some (0, pwrite 1024 [1, 2, 3, 4] (\<lambda>_. 0))"
  using raw_image_copied [of "[[1, 2, 3], [4]]" 1024 "\<lambda>_. 0"] by (simp add: numeral_3_eq_3)

text \<open>
  C34. A short write corrupts the image: the rest of the block is written from the start of the
  buffer again, and success is reported.
\<close>

theorem raw_image_short_write:
  assumes "0 < k" "k < length bs" "length bs \<le> 2048"
  shows "write_raw_image True True True False [Rd bs, Rd []] [Wr k, Wr (length bs - k)] off d =
    Some (0, pwrite off (take k bs @ take (length bs - k) bs) d)"
proof -
  have "bs \<noteq> []" using assms by auto
  then have "write_out [Wr k, Wr (length bs - k)] bs (length bs) off d =
      Some (True, off + length bs, pwrite off (take k bs @ take (length bs - k) bs) d, [])"
    using assms pwrite_append [of off "take k bs" "take (length bs - k) bs" d]
    by (simp add: write_out.simps min_def)
  then show ?thesis using assms(3) \<open>bs \<noteq> []\<close> by (simp add: write_raw_image_def)
qed

theorem raw_image_short_write_witness:
  "write_raw_image True True True False [Rd [1, 2, 3], Rd []] [Wr 1, Wr 2] 0 (\<lambda>_. 0) =
    Some (0, pwrite 0 [1, 1, 2] (\<lambda>_. 0))"
  using raw_image_short_write [of 1 "[1, 2, 3]" 0 "\<lambda>_. 0"] by (simp add: numeral_2_eq_2 numeral_3_eq_3)

end
