(* ===== verification/Hashmap.thy ===== *)
theory Hashmap
  imports Prelude
begin

text \<open>
  The chained hash table of \<^verbatim>\<open>libcutils/hashmap.c\<close>. It holds tboot's configuration
  (\<^verbatim>\<open>tboot_config\<close>) and the tables of flash and oem commands. A key is an opaque value of type
  \<open>'k\<close>, compared by address with \<open>=\<close> and by content with the map's \<open>equals\<close> callback; a value is a
  pointer, \<open>None\<close> for NULL. Allocation results are arguments: \<open>True\<close> where \<^verbatim>\<open>malloc\<close> or
  \<^verbatim>\<open>calloc\<close> succeeds.
\<close>

section \<open>Data\<close>

record ('k, 'v) hm_entry =
  ent_key :: 'k
  ent_hash :: u32
  ent_value :: "'v option"

record ('k, 'v) hashmap =
  buckets :: "('k, 'v) hm_entry list list"
  bucketCount :: nat
  hm_hash :: "'k \<Rightarrow> u32"
  hm_equals :: "'k \<Rightarrow> 'k \<Rightarrow> bool"
  hm_locked :: bool
  hm_size :: nat

section \<open>Operations\<close>

text \<open>\<^verbatim>\<open>calloc\<close> refuses a product that does not fit \<^verbatim>\<open>size_t\<close>; a pointer takes 4 bytes.\<close>

definition calloc_fits :: "nat \<Rightarrow> bool" where
  "calloc_fits n \<longleftrightarrow> n * 4 < 2 ^ 32"

text \<open>The doubling loop of \<^verbatim>\<open>hashmapCreate\<close>; \<open>None\<close> when it never ends.\<close>

partial_function (option) double_buckets :: "u32 \<Rightarrow> u32 \<Rightarrow> u32 option" where
  "double_buckets minimumBucketCount n =
     (if n \<le> minimumBucketCount then double_buckets minimumBucketCount (push_bit 1 n) else Some n)"

definition hashmapCreate ::
    "bool \<Rightarrow> bool \<Rightarrow> u32 \<Rightarrow> ('k \<Rightarrow> u32) \<Rightarrow> ('k \<Rightarrow> 'k \<Rightarrow> bool) \<Rightarrow> ('k, 'v) hashmap option option" where
  "hashmapCreate malloc_ok calloc_ok initialCapacity hash equals =
     (if \<not> malloc_ok then Some None
      else case double_buckets (initialCapacity * 4 div 3) 1 of
             None \<Rightarrow> None
           | Some n \<Rightarrow>
               if \<not> calloc_ok \<or> \<not> calloc_fits (unat n) then Some None
               else Some (Some \<lparr>buckets = replicate (unat n) [], bucketCount = unat n,
                                hm_hash = hash, hm_equals = equals, hm_locked = False, hm_size = 0\<rparr>))"

text \<open>The secondary hash; \<^verbatim>\<open>int\<close> arithmetic wraps at 32 bits.\<close>

definition hashKey :: "('k, 'v) hashmap \<Rightarrow> 'k \<Rightarrow> u32" where
  "hashKey m key =
     (let h0 = hm_hash m key;
          h1 = h0 + NOT (push_bit 9 h0);
          h2 = h1 XOR drop_bit 14 h1;
          h3 = h2 + push_bit 4 h2
      in h3 XOR drop_bit 10 h3)"

definition hashmapSize :: "('k, 'v) hashmap \<Rightarrow> nat" where
  "hashmapSize m = hm_size m"

definition calculateIndex :: "nat \<Rightarrow> u32 \<Rightarrow> nat" where
  "calculateIndex n hash = unat (hash AND (word_of_nat n - 1))"

text \<open>One turn of the loop that moves an entry to the front of its new bucket.\<close>

definition move_entry :: "nat \<Rightarrow> ('k, 'v) hm_entry \<Rightarrow> ('k, 'v) hm_entry list list
    \<Rightarrow> ('k, 'v) hm_entry list list" where
  "move_entry n e nb = (let i = calculateIndex n (ent_hash e) in nb[i := e # nb ! i])"

definition expandIfNecessary :: "bool \<Rightarrow> ('k, 'v) hashmap \<Rightarrow> ('k, 'v) hashmap" where
  "expandIfNecessary calloc_ok m =
     (if hm_size m > (bucketCount m * 3) mod 2 ^ 32 div 4 then
        let n = (bucketCount m * 2) mod 2 ^ 32
        in if \<not> calloc_ok \<or> \<not> calloc_fits n then m
           else m\<lparr>buckets := fold (move_entry n) (concat (buckets m)) (replicate n []),
                    bucketCount := n\<rparr>
      else m)"

text \<open>\<open>None\<close>: the caller blocks, since another thread holds the lock.\<close>

definition hashmapLock :: "('k, 'v) hashmap \<Rightarrow> ('k, 'v) hashmap option" where
  "hashmapLock m = (if hm_locked m then None else Some (m\<lparr>hm_locked := True\<rparr>))"

definition hashmapUnlock :: "('k, 'v) hashmap \<Rightarrow> ('k, 'v) hashmap" where
  "hashmapUnlock m = m\<lparr>hm_locked := False\<rparr>"

text \<open>The entries handed to \<^verbatim>\<open>free\<close>, in order.\<close>

definition hashmapFree :: "('k, 'v) hashmap \<Rightarrow> ('k, 'v) hm_entry list" where
  "hashmapFree m = concat (buckets m)"

text \<open>A byte of type \<^verbatim>\<open>char\<close> is signed on this target and is sign-extended to \<^verbatim>\<open>int\<close>.\<close>

definition sext_char :: "char \<Rightarrow> u32" where
  "sext_char c = signed (word_of_nat (of_char c) :: u8)"

definition hashmapHash :: "string \<Rightarrow> u32" where
  "hashmapHash data = foldl (\<lambda>h c. h * 31 + sext_char c) (word_of_nat (length data)) data"

definition createEntry :: "bool \<Rightarrow> 'k \<Rightarrow> u32 \<Rightarrow> 'v option \<Rightarrow> ('k, 'v) hm_entry option" where
  "createEntry malloc_ok key hash value =
     (if malloc_ok then Some \<lparr>ent_key = key, ent_hash = hash, ent_value = value\<rparr> else None)"

definition equalKeys :: "'k \<Rightarrow> u32 \<Rightarrow> 'k \<Rightarrow> u32 \<Rightarrow> ('k \<Rightarrow> 'k \<Rightarrow> bool) \<Rightarrow> bool" where
  "equalKeys keyA hashA keyB hashB equals =
     (if keyA = keyB then True else if hashA \<noteq> hashB then False else equals keyA keyB)"

text \<open>The walk along one chain: the first entry whose key equals the searched one.\<close>

definition match :: "('k, 'v) hashmap \<Rightarrow> 'k \<Rightarrow> ('k, 'v) hm_entry \<Rightarrow> bool" where
  "match m key e = equalKeys (ent_key e) (ent_hash e) key (hashKey m key) (hm_equals m)"

definition chain_of :: "('k, 'v) hashmap \<Rightarrow> 'k \<Rightarrow> ('k, 'v) hm_entry list" where
  "chain_of m key = buckets m ! calculateIndex (bucketCount m) (hashKey m key)"

definition set_chain :: "('k, 'v) hashmap \<Rightarrow> 'k \<Rightarrow> ('k, 'v) hm_entry list \<Rightarrow> ('k, 'v) hashmap" where
  "set_chain m key es =
     m\<lparr>buckets := (buckets m)[calculateIndex (bucketCount m) (hashKey m key) := es]\<rparr>"

fun replace_first :: "('e \<Rightarrow> bool) \<Rightarrow> ('e \<Rightarrow> 'e) \<Rightarrow> 'e list \<Rightarrow> 'e list" where
  "replace_first P f [] = []"
| "replace_first P f (e # es) = (if P e then f e # es else e # replace_first P f es)"

fun remove_first :: "('e \<Rightarrow> bool) \<Rightarrow> 'e list \<Rightarrow> 'e list" where
  "remove_first P [] = []"
| "remove_first P (e # es) = (if P e then es else e # remove_first P es)"

text \<open>The map and the returned pointer (the old value, or NULL for a new key and for ENOMEM).\<close>

definition hashmapPut :: "bool \<Rightarrow> bool \<Rightarrow> ('k, 'v) hashmap \<Rightarrow> 'k \<Rightarrow> 'v option
    \<Rightarrow> ('k, 'v) hashmap \<times> 'v option" where
  "hashmapPut malloc_ok calloc_ok m key value =
     (let hash = hashKey m key; chain = chain_of m key
      in case find (match m key) chain of
           None \<Rightarrow>
             (case createEntry malloc_ok key hash value of
                None \<Rightarrow> (m, None)
              | Some e \<Rightarrow>
                  (expandIfNecessary calloc_ok
                     ((set_chain m key (chain @ [e]))\<lparr>hm_size := hm_size m + 1\<rparr>), None))
         | Some e \<Rightarrow>
             (set_chain m key (replace_first (match m key) (ent_value_update (\<lambda>_. value)) chain),
              ent_value e))"

definition hashmapGet :: "('k, 'v) hashmap \<Rightarrow> 'k \<Rightarrow> 'v option" where
  "hashmapGet m key =
     (case find (match m key) (chain_of m key) of None \<Rightarrow> None | Some e \<Rightarrow> ent_value e)"

definition hashmapContainsKey :: "('k, 'v) hashmap \<Rightarrow> 'k \<Rightarrow> bool" where
  "hashmapContainsKey m key = (find (match m key) (chain_of m key) \<noteq> None)"

text \<open>\<open>initialValue\<close> is the caller's callback, already applied to its context.\<close>

definition hashmapMemoize :: "bool \<Rightarrow> bool \<Rightarrow> ('k, 'v) hashmap \<Rightarrow> 'k \<Rightarrow> ('k \<Rightarrow> 'v option)
    \<Rightarrow> ('k, 'v) hashmap \<times> 'v option" where
  "hashmapMemoize malloc_ok calloc_ok m key initialValue =
     (let hash = hashKey m key; chain = chain_of m key
      in case find (match m key) chain of
           None \<Rightarrow>
             (case createEntry malloc_ok key hash None of
                None \<Rightarrow> (m, None)
              | Some e \<Rightarrow>
                  (expandIfNecessary calloc_ok
                     ((set_chain m key (chain @ [e\<lparr>ent_value := initialValue key\<rparr>]))
                        \<lparr>hm_size := hm_size m + 1\<rparr>), initialValue key))
         | Some e \<Rightarrow> (m, ent_value e))"

definition hashmapRemove :: "('k, 'v) hashmap \<Rightarrow> 'k \<Rightarrow> ('k, 'v) hashmap \<times> 'v option" where
  "hashmapRemove m key =
     (case find (match m key) (chain_of m key) of
        None \<Rightarrow> (m, None)
      | Some e \<Rightarrow>
          ((set_chain m key (remove_first (match m key) (chain_of m key)))
             \<lparr>hm_size := hm_size m - 1\<rparr>, ent_value e))"

text \<open>The callback returns whether to go on, and threads a context \<open>'c\<close>.\<close>

fun for_each_entry :: "('k \<Rightarrow> 'v option \<Rightarrow> 'c \<Rightarrow> bool \<times> 'c) \<Rightarrow> ('k, 'v) hm_entry list \<Rightarrow> 'c \<Rightarrow> 'c" where
  "for_each_entry callback [] context = context"
| "for_each_entry callback (e # es) context =
     (case callback (ent_key e) (ent_value e) context of
        (go, context') \<Rightarrow> if \<not> go then context' else for_each_entry callback es context')"

definition hashmapForEach ::
    "('k, 'v) hashmap \<Rightarrow> ('k \<Rightarrow> 'v option \<Rightarrow> 'c \<Rightarrow> bool \<times> 'c) \<Rightarrow> 'c \<Rightarrow> 'c" where
  "hashmapForEach m callback context = for_each_entry callback (concat (buckets m)) context"

definition hashmapCurrentCapacity :: "('k, 'v) hashmap \<Rightarrow> nat" where
  "hashmapCurrentCapacity m = (bucketCount m * 3) mod 2 ^ 32 div 4"

definition hashmapCountCollisions :: "('k, 'v) hashmap \<Rightarrow> nat" where
  "hashmapCountCollisions m = (\<Sum>es\<leftarrow>buckets m. length es - 1)"

definition hashmapIntHash :: "u32 \<Rightarrow> u32" where
  "hashmapIntHash key = key"

definition hashmapIntEquals :: "u32 \<Rightarrow> u32 \<Rightarrow> bool" where
  "hashmapIntEquals keyA keyB = (keyA = keyB)"

definition strcompare :: "string \<Rightarrow> string \<Rightarrow> bool" where
  "strcompare keyA keyB = (keyA = keyB)"

definition strhash :: "string \<Rightarrow> u32" where
  "strhash key = hashmapHash key"


section \<open>Invariant\<close>

definition hm_unique :: "('k \<Rightarrow> 'k \<Rightarrow> bool) \<Rightarrow> ('k, 'v) hm_entry list \<Rightarrow> bool" where
  "hm_unique equals es = sorted_wrt (\<lambda>a b. \<not> equals (ent_key a) (ent_key b)) es"

text \<open>
  The bucket count is a power of two that fits the allocation, every entry carries the hash of its
  key and sits in the bucket of that hash, no key occurs twice, and the size counts the entries.
\<close>

definition hm_inv :: "('k, 'v) hashmap \<Rightarrow> bool" where
  "hm_inv m \<longleftrightarrow>
     (\<exists>k < 30. bucketCount m = 2 ^ k) \<and> length (buckets m) = bucketCount m \<and>
     (\<forall>i < bucketCount m. \<forall>e \<in> set (buckets m ! i).
        ent_hash e = hashKey m (ent_key e) \<and> calculateIndex (bucketCount m) (ent_hash e) = i) \<and>
     (\<forall>i < bucketCount m. hm_unique (hm_equals m) (buckets m ! i)) \<and>
     hm_size m = length (concat (buckets m))"

text \<open>What the map means: absent, present with NULL, or present with a value.\<close>

definition hm_lookup :: "('k, 'v) hashmap \<Rightarrow> 'k \<Rightarrow> 'v option option" where
  "hm_lookup m key = map_option ent_value (find (match m key) (chain_of m key))"

definition hm_for :: "('k \<Rightarrow> u32) \<Rightarrow> ('k \<Rightarrow> 'k \<Rightarrow> bool) \<Rightarrow> ('k, 'v) hashmap \<Rightarrow> bool" where
  "hm_for hash equals m \<longleftrightarrow> hm_hash m = hash \<and> hm_equals m = equals \<and> hm_inv m"

lemma hm_invI:
  assumes "k < 30" "bucketCount m = 2 ^ k" "length (buckets m) = bucketCount m"
    and "\<And>i e. i < bucketCount m \<Longrightarrow> e \<in> set (buckets m ! i) \<Longrightarrow>
      ent_hash e = hashKey m (ent_key e) \<and> calculateIndex (bucketCount m) (ent_hash e) = i"
    and "\<And>i. i < bucketCount m \<Longrightarrow> hm_unique (hm_equals m) (buckets m ! i)"
    and "hm_size m = length (concat (buckets m))"
  shows "hm_inv m"
  unfolding hm_inv_def using assms by blast

lemma hm_inv_pow2D: "hm_inv m \<Longrightarrow> \<exists>k < 30. bucketCount m = 2 ^ k"
  unfolding hm_inv_def by blast

lemma hm_inv_entryD:
  "hm_inv m \<Longrightarrow> i < bucketCount m \<Longrightarrow> e \<in> set (buckets m ! i) \<Longrightarrow>
     ent_hash e = hashKey m (ent_key e) \<and> calculateIndex (bucketCount m) (ent_hash e) = i"
  unfolding hm_inv_def by blast

lemma hm_inv_uniqueD: "hm_inv m \<Longrightarrow> i < bucketCount m \<Longrightarrow> hm_unique (hm_equals m) (buckets m ! i)"
  unfolding hm_inv_def by blast

lemma hm_inv_lengthD: "hm_inv m \<Longrightarrow> length (buckets m) = bucketCount m"
  unfolding hm_inv_def by blast

lemma hm_inv_sizeD: "hm_inv m \<Longrightarrow> hm_size m = length (concat (buckets m))"
  unfolding hm_inv_def by blast

section \<open>Index arithmetic\<close>

lemma calculateIndex_pow2:
  assumes "k < 32"
  shows "calculateIndex (2 ^ k) h = unat (take_bit k h)"
proof -
  have "(word_of_nat (2 ^ k) :: u32) - 1 = mask k"
    by (simp add: mask_eq_exp_minus_1)
  then show ?thesis
    by (simp add: calculateIndex_def take_bit_eq_mask)
qed

lemma calculateIndex_less:
  assumes "k < 32"
  shows "calculateIndex (2 ^ k) h < 2 ^ k"
  using assms by (simp add: calculateIndex_pow2 unsigned_take_bit_eq)

lemma hm_inv_index:
  assumes "hm_inv m"
  shows "calculateIndex (bucketCount m) h < bucketCount m"
proof -
  from assms obtain k where "k < 30" "bucketCount m = 2 ^ k"
    unfolding hm_inv_def by blast
  then show ?thesis using calculateIndex_less [of k h] by simp
qed

section \<open>Creation\<close>

lemma double_buckets_pow2:
  assumes "k \<le> 31" "mn < 2 ^ 31"
  shows "\<exists>j \<le> 31. k \<le> j \<and> double_buckets mn (2 ^ k) = Some (2 ^ j) \<and> mn < (2 ^ j :: u32)"
  using assms(1)
proof (induction "31 - k" arbitrary: k)
  case 0
  then have "k = 31" by simp
  with assms(2) have "\<not> (2 ^ k :: u32) \<le> mn" by simp
  then have "double_buckets mn (2 ^ k) = Some (2 ^ k)"
    by (subst double_buckets.simps) simp
  with \<open>k = 31\<close> assms(2) show ?case
    by (intro exI [of _ 31]) simp
next
  case (Suc d)
  show ?case
  proof (cases "(2 ^ k :: u32) \<le> mn")
    case True
    have k: "Suc k \<le> 31" "d = 31 - Suc k" using Suc by auto
    have dbl: "push_bit 1 (2 ^ k :: u32) = 2 ^ Suc k"
      by (simp add: push_bit_eq_mult)
    from Suc(1) [OF k(2) k(1)] obtain j where
      "j \<le> 31" "Suc k \<le> j" "double_buckets mn (2 ^ Suc k) = Some (2 ^ j)" "mn < (2 ^ j :: u32)"
      by blast
    then have "double_buckets mn (2 ^ k) = Some (2 ^ j)"
      using True dbl by (subst double_buckets.simps) (simp add: mult.commute)
    with \<open>j \<le> 31\<close> \<open>Suc k \<le> j\<close> \<open>mn < 2 ^ j\<close> show ?thesis
      by (intro exI [of _ j]) simp
  next
    case False
    then have "double_buckets mn (2 ^ k) = Some (2 ^ k)"
      by (subst double_buckets.simps) simp
    with Suc(3) False show ?thesis
      by (intro exI [of _ k]) (simp add: not_le)
  qed
qed

lemma min_buckets_less: "(c * 4 div 3 :: u32) < 2 ^ 31"
proof -
  have "unat (c * 4 div 3) = unat (c * 4) div 3"
    by (simp add: unat_div)
  moreover have "unat (c * 4) < 2 ^ 32"
    using unsigned_less [of "c * 4"] by simp
  ultimately have "unat (c * 4 div 3) < 2 ^ 31" by simp
  then show ?thesis
    by (simp add: word_less_nat_alt)
qed


lemma hashmapCreate_total:
  "\<exists>r. hashmapCreate malloc_ok calloc_ok c hash equals = Some r \<and>
     (\<forall>m. r = Some m \<longrightarrow> hm_for hash equals m \<and> unat (c * 4 div 3) < bucketCount m \<and>
        (\<forall>key. hm_lookup m key = None))"
proof -
  obtain j where j: "j \<le> 31" "double_buckets (c * 4 div 3) 1 = Some (2 ^ j)"
      "c * 4 div 3 < (2 ^ j :: u32)"
    using double_buckets_pow2 [of 0 "c * 4 div 3"] min_buckets_less [of c] by auto
  have u: "unat (2 ^ j :: u32) = 2 ^ j"
    using j(1) by (simp add: unat_u32_pow2)
  have lt: "unat (c * 4 div 3) < 2 ^ j"
    using j(3) u by (simp add: word_less_nat_alt)
  have "j < 30" if "calloc_fits (2 ^ j)"
  proof (rule ccontr)
    assume "\<not> j < 30"
    then have "(2::nat) ^ 30 \<le> 2 ^ j" by (intro power_increasing) auto
    with that show False by (simp add: calloc_fits_def)
  qed
  then show ?thesis
    using j(2) u lt
    by (auto simp: hashmapCreate_def hm_for_def hm_inv_def hm_unique_def hm_lookup_def chain_of_def
        calculateIndex_less)
qed

section \<open>Chains\<close>

lemma find_append: "find P (xs @ ys) = (case find P xs of None \<Rightarrow> find P ys | Some x \<Rightarrow> Some x)"
  by (induction xs) auto

lemma length_replace_first [simp]: "length (replace_first P f es) = length es"
  by (induction es) auto

lemma set_replace_first:
  "e \<in> set (replace_first P f es) \<Longrightarrow> e \<in> set es \<or> (\<exists>x \<in> set es. P x \<and> e = f x)"
  by (induction es) (auto split: if_splits)

lemma set_remove_first: "e \<in> set (remove_first P es) \<Longrightarrow> e \<in> set es"
  by (induction es) (auto split: if_splits)

lemma length_remove_first:
  "find P es = Some e \<Longrightarrow> Suc (length (remove_first P es)) = length es"
  by (induction es) (auto split: if_splits)

lemma map_key_replace_first:
  "map ent_key (replace_first P (ent_value_update (\<lambda>_. v)) es) = map ent_key es"
  by (induction es) auto

lemma hm_unique_map:
  "hm_unique equals es = sorted_wrt (\<lambda>a b. \<not> equals a b) (map ent_key es)"
  by (simp add: hm_unique_def sorted_wrt_map)

lemma hm_unique_replace_first:
  "hm_unique equals (replace_first P (ent_value_update (\<lambda>_. v)) es) = hm_unique equals es"
  by (simp add: hm_unique_map map_key_replace_first)

lemma hm_unique_remove_first: "hm_unique equals es \<Longrightarrow> hm_unique equals (remove_first P es)"
  by (induction es) (auto simp: hm_unique_def dest: set_remove_first)

lemma find_replace_first_same:
  "(\<And>e. P (f e) = P e) \<Longrightarrow> find P (replace_first P f es) = map_option f (find P es)"
  by (induction es) auto

lemma find_replace_first_disjoint:
  "(\<And>e. Q (f e) = Q e) \<Longrightarrow> (\<And>e. e \<in> set es \<Longrightarrow> P e \<Longrightarrow> \<not> Q e) \<Longrightarrow>
     find Q (replace_first P f es) = find Q es"
  by (induction es) auto

lemma find_remove_first_disjoint:
  "(\<And>e. e \<in> set es \<Longrightarrow> P e \<Longrightarrow> \<not> Q e) \<Longrightarrow> find Q (remove_first P es) = find Q es"
  by (induction es) auto

lemma replace_first_cong_on:
  "(\<And>e. e \<in> set es \<Longrightarrow> P e = Q e) \<Longrightarrow> replace_first P f es = replace_first Q f es"
  by (induction es) auto

lemma find_cong_on:
  "(\<And>e. e \<in> set es \<Longrightarrow> P e = Q e) \<Longrightarrow> find P es = find Q es"
  by (induction es) auto

lemma concat_list_update_length:
  "i < length bs \<Longrightarrow>
     length (concat (bs[i := es])) + length (bs ! i) = length (concat bs) + length es"
proof (induction bs arbitrary: i)
  case Nil
  then show ?case by simp
next
  case (Cons b bs)
  then show ?case by (cases i) auto
qed


section \<open>Updating one chain\<close>

lemma hashKey_cong: "hm_hash m' = hm_hash m \<Longrightarrow> hashKey m' key = hashKey m key"
  by (simp add: hashKey_def Let_def)

lemma set_chain_fields [simp, frame_simps]:
  "bucketCount (set_chain m key es) = bucketCount m"
  "hm_hash (set_chain m key es) = hm_hash m"
  "hm_equals (set_chain m key es) = hm_equals m"
  "hm_size (set_chain m key es) = hm_size m"
  "hm_locked (set_chain m key es) = hm_locked m"
  "length (buckets (set_chain m key es)) = length (buckets m)"
  by (simp_all add: set_chain_def)

lemma hashKey_set_chain [simp]:
  "hashKey (set_chain m key es) k = hashKey m k"
  "hashKey (m\<lparr>hm_size := n\<rparr>) k = hashKey m k"
  "hashKey (m\<lparr>buckets := bs\<rparr>) k = hashKey m k"
  "hashKey (m\<lparr>bucketCount := c\<rparr>) k = hashKey m k"
  by (simp_all add: hashKey_def set_chain_def)

lemma match_set_chain [simp]:
  "match (set_chain m key es) k = match m k"
  "match (m\<lparr>hm_size := n\<rparr>) k = match m k"
  by (simp_all add: fun_eq_iff match_def)

lemma match_update_value [simp]: "match m k (ent_value_update f e) = match m k e"
  by (simp add: match_def)

lemma chain_of_size [simp]: "chain_of (m\<lparr>hm_size := n\<rparr>) k = chain_of m k"
  by (simp add: chain_of_def)

lemma chain_of_index:
  "calculateIndex (bucketCount m) (hashKey m k) = calculateIndex (bucketCount m) (hashKey m key) \<Longrightarrow>
     chain_of m k = chain_of m key"
  by (simp add: chain_of_def)

lemma chain_of_set_chain:
  assumes "hm_inv m"
  shows "chain_of (set_chain m key es) k =
    (if calculateIndex (bucketCount m) (hashKey m k) = calculateIndex (bucketCount m) (hashKey m key)
     then es else chain_of m k)"
proof -
  have "calculateIndex (bucketCount m) (hashKey m key) < length (buckets m)"
    using assms by (simp add: hm_inv_index hm_inv_lengthD)
  then show ?thesis by (simp add: chain_of_def set_chain_def nth_list_update)
qed

lemma hm_inv_chainD:
  assumes "hm_inv m" "e \<in> set (chain_of m key)"
  shows "ent_hash e = hashKey m (ent_key e)"
    and "calculateIndex (bucketCount m) (ent_hash e) = calculateIndex (bucketCount m) (hashKey m key)"
  using hm_inv_entryD [OF assms(1) hm_inv_index [OF assms(1)] assms(2) [unfolded chain_of_def]]
  by blast+

lemma hm_inv_set_chain:
  assumes inv: "hm_inv m"
    and ok: "\<And>e. e \<in> set es \<Longrightarrow> ent_hash e = hashKey m (ent_key e) \<and>
      calculateIndex (bucketCount m) (ent_hash e) = calculateIndex (bucketCount m) (hashKey m key)"
    and uniq: "hm_unique (hm_equals m) es"
    and size: "n + length (chain_of m key) = hm_size m + length es"
  shows "hm_inv ((set_chain m key es)\<lparr>hm_size := n\<rparr>)"
proof -
  let ?i = "calculateIndex (bucketCount m) (hashKey m key)"
  have i: "?i < bucketCount m" and len: "length (buckets m) = bucketCount m"
    using inv by (simp_all add: hm_inv_index hm_inv_lengthD)
  have n: "n = length (concat ((buckets m)[?i := es]))"
    using concat_list_update_length [of ?i "buckets m" es] i len size hm_inv_sizeD [OF inv]
    by (simp add: chain_of_def)
  have ent: "ent_hash e = hashKey m (ent_key e) \<and> calculateIndex (bucketCount m) (ent_hash e) = j"
    if "j < bucketCount m" "e \<in> set ((buckets m)[?i := es] ! j)" for j e
  proof (cases "j = ?i")
    case True
    with that(2) i len have "e \<in> set es" by simp
    with ok True show ?thesis by blast
  next
    case False
    with that(2) have "e \<in> set (buckets m ! j)" by simp
    with hm_inv_entryD [OF inv that(1)] show ?thesis by blast
  qed
  have un: "hm_unique (hm_equals m) ((buckets m)[?i := es] ! j)" if "j < bucketCount m" for j
    using that uniq hm_inv_uniqueD [OF inv, of j] i len by (cases "j = ?i") simp_all
  obtain k where k: "k < 30" "bucketCount m = 2 ^ k"
    using hm_inv_pow2D [OF inv] by blast
  let ?m = "(set_chain m key es)\<lparr>hm_size := n\<rparr>"
  have b: "buckets ?m = (buckets m)[?i := es]" by (simp add: set_chain_def)
  have c: "bucketCount ?m = bucketCount m" "hm_equals ?m = hm_equals m" "hm_size ?m = n" by simp_all
  have h: "hashKey ?m x = hashKey m x" for x by simp
  show ?thesis
    by (rule hm_invI [OF k(1)]; unfold b c h) (use k(2) len in simp, use len in simp, erule (1) ent,
        erule un, rule n)
qed

section \<open>Growing the table\<close>

lemma length_fold_move [simp]: "length (fold (move_entry n) es nb) = length nb"
  by (induction es arbitrary: nb) (auto simp: move_entry_def Let_def)

lemma nth_fold_move:
  assumes "j < length nb"
  shows "fold (move_entry n) es nb ! j =
    rev (filter (\<lambda>e. calculateIndex n (ent_hash e) = j) es) @ nb ! j"
  using assms by (induction es arbitrary: nb) (auto simp: move_entry_def Let_def nth_list_update)

lemma length_concat_fold_move:
  assumes "\<And>e. e \<in> set es \<Longrightarrow> calculateIndex n (ent_hash e) < length nb"
  shows "length (concat (fold (move_entry n) es nb)) = length es + length (concat nb)"
  using assms
proof (induction es arbitrary: nb)
  case Nil
  then show ?case by simp
next
  case (Cons e es)
  let ?i = "calculateIndex n (ent_hash e)"
  have "length (concat (nb[?i := e # nb ! ?i])) = Suc (length (concat nb))"
    using concat_list_update_length [of ?i nb "e # nb ! ?i"] Cons.prems by simp
  with Cons show ?case by (simp add: move_entry_def Let_def)
qed

lemma in_concat_nth: "e \<in> set (concat bs) \<longleftrightarrow> (\<exists>i < length bs. e \<in> set (bs ! i))"
  unfolding set_concat by (metis UN_iff in_set_conv_nth)

lemma sorted_wrt_filter: "sorted_wrt R xs \<Longrightarrow> sorted_wrt R (filter P xs)"
  by (induction xs) auto

lemma sorted_wrt_concat:
  assumes "\<And>i. i < length bs \<Longrightarrow> sorted_wrt R (bs ! i)"
    and "\<And>i j a b. i < j \<Longrightarrow> j < length bs \<Longrightarrow> a \<in> set (bs ! i) \<Longrightarrow> b \<in> set (bs ! j) \<Longrightarrow> R a b"
  shows "sorted_wrt R (concat bs)"
  using assms
proof (induction bs)
  case Nil
  then show ?case by simp
next
  case (Cons b bs)
  have "sorted_wrt R (bs ! i)" if "i < length bs" for i
    using Cons.prems(1) [of "Suc i"] that by simp
  moreover have "R x y" if "i < j" "j < length bs" "x \<in> set (bs ! i)" "y \<in> set (bs ! j)" for i j x y
    using Cons.prems(2) [of "Suc i" "Suc j"] that by simp
  ultimately have "sorted_wrt R (concat bs)" by (rule Cons.IH)
  moreover have "R x y" if "x \<in> set b" "y \<in> set (concat bs)" for x y
  proof -
    from that(2) obtain j where "j < length bs" "y \<in> set (bs ! j)"
      unfolding in_concat_nth by blast
    with that(1) Cons.prems(2) [of 0 "Suc j" x y] show ?thesis by simp
  qed
  moreover have "sorted_wrt R b" using Cons.prems(1) [of 0] by simp
  ultimately show ?case by (simp add: sorted_wrt_append)
qed


section \<open>What a map promises its clients\<close>

text \<open>
  The contract of the two callbacks: \<open>equals\<close> is an equivalence and equal keys have equal hashes.
  Under it the table is a map from keys to values.
\<close>

locale key_contract =
  fixes hash :: "'k \<Rightarrow> u32" and equals :: "'k \<Rightarrow> 'k \<Rightarrow> bool"
  assumes equals_refl: "equals a a"
    and equals_sym: "equals a b \<Longrightarrow> equals b a"
    and equals_trans: "equals a b \<Longrightarrow> equals b c \<Longrightarrow> equals a c"
    and hash_equals: "equals a b \<Longrightarrow> hash a = hash b"
begin

lemma hashKey_equals: "hm_for hash equals m \<Longrightarrow> equals a b \<Longrightarrow> hashKey m a = hashKey m b"
  using hash_equals [of a b] by (simp add: hm_for_def hashKey_def)

lemma match_iff:
  assumes "hm_for hash equals m" "ent_hash e = hashKey m (ent_key e)"
  shows "match m key e \<longleftrightarrow> equals (ent_key e) key"
proof -
  have eq: "hm_equals m = equals" using assms(1) by (simp add: hm_for_def)
  show ?thesis
    using hashKey_equals [OF assms(1), of "ent_key e" key] assms(2) equals_refl
    by (auto simp: match_def equalKeys_def eq)
qed

lemma chain_match_iff:
  assumes "hm_for hash equals m" "e \<in> set (chain_of m k)"
  shows "match m key e \<longleftrightarrow> equals (ent_key e) key"
  using match_iff [OF assms(1)] hm_inv_chainD(1) [of m e k] assms by (simp add: hm_for_def)

lemma find_unique:
  assumes "hm_unique equals es" "e \<in> set es" "equals (ent_key e) key"
  shows "find (\<lambda>x. equals (ent_key x) key) es = Some e"
  using assms
proof (induction es)
  case Nil
  then show ?case by simp
next
  case (Cons x xs)
  show ?case
  proof (cases "e = x")
    case True
    with Cons.prems show ?thesis by simp
  next
    case False
    with Cons.prems have "e \<in> set xs" "hm_unique equals xs" "\<not> equals (ent_key x) (ent_key e)"
      by (auto simp: hm_unique_def)
    moreover from this(3) Cons.prems(3) have "\<not> equals (ent_key x) key"
      using equals_sym equals_trans by blast
    ultimately show ?thesis using Cons by simp
  qed
qed

lemma lookup_iff:
  assumes m: "hm_for hash equals m"
  shows "hm_lookup m key = Some v \<longleftrightarrow>
    (\<exists>e \<in> set (concat (buckets m)). equals (ent_key e) key \<and> ent_value e = v)"
    (is "?L \<longleftrightarrow> ?R")
proof -
  have inv: "hm_inv m" and eq: "hm_equals m = equals" using m by (simp_all add: hm_for_def)
  let ?i = "calculateIndex (bucketCount m) (hashKey m key)"
  have i: "?i < length (buckets m)" using inv by (simp add: hm_inv_index hm_inv_lengthD)
  have fnd: "find (match m key) (chain_of m key) = find (\<lambda>x. equals (ent_key x) key) (chain_of m key)"
    by (rule find_cong_on) (rule chain_match_iff [OF m])
  show ?thesis
  proof
    assume ?L
    then obtain e where "find (\<lambda>x. equals (ent_key x) key) (chain_of m key) = Some e" "ent_value e = v"
      by (auto simp: hm_lookup_def fnd)
    moreover from this(1) have "e \<in> set (chain_of m key)" "equals (ent_key e) key"
      by (auto simp: find_Some_iff)
    moreover from this(1) i have "e \<in> set (concat (buckets m))"
      unfolding in_concat_nth chain_of_def by blast
    ultimately show ?R by blast
  next
    assume ?R
    then obtain e where e: "e \<in> set (concat (buckets m))" "equals (ent_key e) key" "ent_value e = v"
      by blast
    then obtain j where j: "j < bucketCount m" "e \<in> set (buckets m ! j)"
      unfolding in_concat_nth hm_inv_lengthD [OF inv] by blast
    then have "calculateIndex (bucketCount m) (ent_hash e) = j" "ent_hash e = hashKey m (ent_key e)"
      using hm_inv_entryD [OF inv] by blast+
    with hashKey_equals [OF m e(2)] have "j = ?i" by simp
    with j(2) have "e \<in> set (chain_of m key)" by (simp add: chain_of_def)
    moreover have "hm_unique equals (chain_of m key)"
      using hm_inv_uniqueD [OF inv hm_inv_index [OF inv]] by (simp add: chain_of_def eq)
    ultimately show ?L
      using find_unique [OF _ _ e(2)] e(3) by (simp add: hm_lookup_def fnd)
  qed
qed

lemma lookup_cong_entries:
  assumes "hm_for hash equals m" "hm_for hash equals m'"
    and "set (concat (buckets m')) = set (concat (buckets m))"
  shows "hm_lookup m' key = hm_lookup m key"
proof -
  have "hm_lookup m' key = Some v \<longleftrightarrow> hm_lookup m key = Some v" for v
    unfolding lookup_iff [OF assms(1)] lookup_iff [OF assms(2)] assms(3) ..
  then show ?thesis by (metis not_None_eq)
qed

lemma entries_unique:
  assumes "hm_for hash equals m"
  shows "hm_unique equals (concat (buckets m))"
proof -
  have inv: "hm_inv m" and eq: "hm_equals m = equals" using assms by (simp_all add: hm_for_def)
  show ?thesis
    unfolding hm_unique_def
  proof (rule sorted_wrt_concat)
    fix i assume "i < length (buckets m)"
    then show "sorted_wrt (\<lambda>a b. \<not> equals (ent_key a) (ent_key b)) (buckets m ! i)"
      using hm_inv_uniqueD [OF inv, of i] by (simp add: hm_inv_lengthD [OF inv] eq hm_unique_def)
  next
    fix i j a b
    assume ij: "i < j" "j < length (buckets m)" "a \<in> set (buckets m ! i)" "b \<in> set (buckets m ! j)"
    then have "calculateIndex (bucketCount m) (hashKey m (ent_key a)) = i"
      "calculateIndex (bucketCount m) (hashKey m (ent_key b)) = j"
      using hm_inv_entryD [OF inv, of i a] hm_inv_entryD [OF inv, of j b] hm_inv_lengthD [OF inv]
      by auto
    with ij(1) show "\<not> equals (ent_key a) (ent_key b)"
      using hashKey_equals [OF assms, of "ent_key a" "ent_key b"] by auto
  qed
qed


lemma expandIfNecessary_ok:
  assumes m: "hm_for hash equals m"
  shows "hm_for hash equals (expandIfNecessary calloc_ok m)"
    and "hm_lookup (expandIfNecessary calloc_ok m) key = hm_lookup m key"
proof -
  let ?n = "(bucketCount m * 2) mod 2 ^ 32"
  let ?m = "m\<lparr>buckets := fold (move_entry ?n) (concat (buckets m)) (replicate ?n []), bucketCount := ?n\<rparr>"
  have inv: "hm_inv m" and hs: "hm_hash m = hash" and eq: "hm_equals m = equals"
    using m by (simp_all add: hm_for_def)
  have good: "hm_for hash equals ?m \<and> set (concat (buckets ?m)) = set (concat (buckets m))"
    if fits: "calloc_fits ?n"
  proof -
    obtain k where k: "k < 30" "bucketCount m = 2 ^ k" using hm_inv_pow2D [OF inv] by blast
    have "(2::nat) ^ Suc k \<le> 2 ^ 30" using k(1) by (intro power_increasing) auto
    then have n: "?n = 2 ^ Suc k" using k(2) by simp
    have k': "Suc k < 30"
    proof (rule ccontr)
      assume "\<not> Suc k < 30"
      then have "(2::nat) ^ 30 \<le> 2 ^ Suc k" by (intro power_increasing) auto
      with fits show False unfolding n by (simp add: calloc_fits_def)
    qed
    have idx: "calculateIndex ?n h < ?n" for h
      unfolding n using k' by (intro calculateIndex_less) simp
    let ?es = "concat (buckets m)"
    let ?nb = "fold (move_entry ?n) ?es (replicate ?n [])"
    have nth: "?nb ! j = rev (filter (\<lambda>e. calculateIndex ?n (ent_hash e) = j) ?es)" if "j < ?n" for j
      using nth_fold_move [of j "replicate ?n []" ?n ?es] that by simp
    have hash: "ent_hash e = hashKey m (ent_key e)" if "e \<in> set ?es" for e
      using that hm_inv_entryD [OF inv] unfolding in_concat_nth hm_inv_lengthD [OF inv] by blast
    have sym: "sorted_wrt (\<lambda>a b. \<not> equals (ent_key b) (ent_key a)) ?es"
      using entries_unique [OF m] sorted_wrt_mono_rel [of ?es
          "\<lambda>a b. \<not> equals (ent_key a) (ent_key b)" "\<lambda>a b. \<not> equals (ent_key b) (ent_key a)"] equals_sym
      by (auto simp: hm_unique_def)
    have set: "set (concat ?nb) = set ?es"
    proof (rule set_eqI)
      fix e
      have "e \<in> set (concat ?nb) \<longleftrightarrow> (\<exists>j < ?n. e \<in> set (?nb ! j))"
        unfolding in_concat_nth by simp
      also have "\<dots> \<longleftrightarrow> (\<exists>j < ?n. e \<in> set ?es \<and> calculateIndex ?n (ent_hash e) = j)"
        by (intro ex_cong1 conj_cong refl) (simp only: nth set_rev set_filter mem_Collect_eq)
      also have "\<dots> \<longleftrightarrow> e \<in> set ?es" using idx by blast
      finally show "e \<in> set (concat ?nb) \<longleftrightarrow> e \<in> set ?es" .
    qed
    have "hm_inv ?m"
    proof (rule hm_invI [OF k'])
      show "bucketCount ?m = 2 ^ Suc k" using n by simp
      show "length (buckets ?m) = bucketCount ?m" by simp
      show "hm_size ?m = length (concat (buckets ?m))"
        using length_concat_fold_move [of ?es ?n "replicate ?n []"] idx hm_inv_sizeD [OF inv] by simp
    next
      fix i e assume i: "i < bucketCount ?m" "e \<in> set (buckets ?m ! i)"
      then have "e \<in> set ?es" "calculateIndex ?n (ent_hash e) = i" using nth [of i] by simp_all
      with hash show "ent_hash e = hashKey ?m (ent_key e) \<and>
          calculateIndex (bucketCount ?m) (ent_hash e) = i" by simp
    next
      fix i assume "i < bucketCount ?m"
      then show "hm_unique (hm_equals ?m) (buckets ?m ! i)"
        using nth [of i] sorted_wrt_filter [OF sym] by (simp add: hm_unique_def sorted_wrt_rev eq)
    qed
    with set hs eq show ?thesis by (simp add: hm_for_def)
  qed
  show "hm_for hash equals (expandIfNecessary calloc_ok m)"
    using good m by (simp add: expandIfNecessary_def Let_def)
  show "hm_lookup (expandIfNecessary calloc_ok m) key = hm_lookup m key"
    using good lookup_cong_entries [OF m] by (simp add: expandIfNecessary_def Let_def)
qed


lemma chain_unique: "hm_for hash equals m \<Longrightarrow> hm_unique equals (chain_of m key)"
  using hm_inv_uniqueD [of m] hm_inv_index [of m] by (simp add: hm_for_def chain_of_def)

lemma not_found:
  assumes "hm_for hash equals m" "find (match m key) (chain_of m key) = None" "e \<in> set (chain_of m key)"
  shows "\<not> equals (ent_key e) key"
  using assms chain_match_iff [OF assms(1) assms(3)] by (auto simp: find_None_iff)

text \<open>Appending a new entry, as \<open>hashmapPut\<close> and \<open>hashmapMemoize\<close> do before they grow the table.\<close>

lemma append_entry:
  fixes m :: "('k, 'v) hashmap" and v :: "'v option" and key :: 'k
  assumes m: "hm_for hash equals m" and new: "find (match m key) (chain_of m key) = None"
  defines "m' \<equiv> (set_chain m key (chain_of m key @
      [\<lparr>ent_key = key, ent_hash = hashKey m key, ent_value = v\<rparr>]))\<lparr>hm_size := hm_size m + 1\<rparr>"
  shows "hm_for hash equals m'"
    and "hm_lookup m' k = (if equals key k then Some v else hm_lookup m k)"
proof -
  let ?e = "\<lparr>ent_key = key, ent_hash = hashKey m key, ent_value = v\<rparr>"
  have inv: "hm_inv m" and eq: "hm_equals m = equals" using m by (simp_all add: hm_for_def)
  have "hm_inv m'"
    unfolding m'_def
  proof (rule hm_inv_set_chain [OF inv])
    fix e assume "e \<in> set (chain_of m key @ [?e])"
    then show "ent_hash e = hashKey m (ent_key e) \<and> calculateIndex (bucketCount m) (ent_hash e) =
        calculateIndex (bucketCount m) (hashKey m key)"
      using hm_inv_chainD [OF inv, of e key] by auto
  next
    show "hm_unique (hm_equals m) (chain_of m key @ [?e])"
      using chain_unique [OF m, of key] not_found [OF m new]
      by (auto simp: hm_unique_def sorted_wrt_append eq)
  qed simp
  then show "hm_for hash equals m'"
    using m by (simp add: hm_for_def m'_def)
  have "match m k ?e \<longleftrightarrow> equals key k" using match_iff [OF m, of ?e k] by simp
  moreover have "hashKey m k = hashKey m key" if "equals key k"
    using hashKey_equals [OF m that] by simp
  moreover have "find (match m k) (chain_of m key) = None" if "equals key k"
  proof -
    have "\<not> match m k e" if "e \<in> set (chain_of m key)" for e
      using that not_found [OF m new that] chain_match_iff [OF m that, of k] \<open>equals key k\<close>
        equals_sym equals_trans by blast
    then show ?thesis by (simp add: find_None_iff)
  qed
  ultimately show "hm_lookup m' k = (if equals key k then Some v else hm_lookup m k)"
    using chain_of_index [of m k key]
    by (auto simp: hm_lookup_def m'_def chain_of_set_chain [OF inv] find_append split: option.splits)
qed


lemma put_found:
  fixes m :: "('k, 'v) hashmap" and v :: "'v option" and key :: 'k
  assumes m: "hm_for hash equals m" and found: "find (match m key) (chain_of m key) = Some e"
  defines "m' \<equiv> set_chain m key (replace_first (match m key) (ent_value_update (\<lambda>_. v)) (chain_of m key))"
  shows "hm_for hash equals m'"
    and "hm_lookup m' k = (if equals key k then Some v else hm_lookup m k)"
proof -
  have inv: "hm_inv m" and eq: "hm_equals m = equals" using m by (simp_all add: hm_for_def)
  have "hm_inv (m'\<lparr>hm_size := hm_size m\<rparr>)"
    unfolding m'_def
  proof (rule hm_inv_set_chain [OF inv])
    fix x assume "x \<in> set (replace_first (match m key) (ent_value_update (\<lambda>_. v)) (chain_of m key))"
    then obtain y where "y \<in> set (chain_of m key)" "ent_key x = ent_key y" "ent_hash x = ent_hash y"
      using set_replace_first by fastforce
    then show "ent_hash x = hashKey m (ent_key x) \<and> calculateIndex (bucketCount m) (ent_hash x) =
        calculateIndex (bucketCount m) (hashKey m key)"
      using hm_inv_chainD [OF inv, of y key] by auto
  next
    show "hm_unique (hm_equals m)
        (replace_first (match m key) (ent_value_update (\<lambda>_. v)) (chain_of m key))"
      using chain_unique [OF m, of key] by (simp add: hm_unique_replace_first eq)
  qed simp
  moreover have "m'\<lparr>hm_size := hm_size m\<rparr> = m'" by (simp add: m'_def set_chain_def)
  ultimately have "hm_inv m'" by simp
  then show "hm_for hash equals m'"
    using m by (simp add: hm_for_def m'_def)
  show "hm_lookup m' k = (if equals key k then Some v else hm_lookup m k)"
  proof (cases "equals key k")
    case True
    then have same: "hashKey m k = hashKey m key" using hashKey_equals [OF m True] by simp
    have eqm: "match m key x = match m k x" if "x \<in> set (chain_of m key)" for x
      using chain_match_iff [OF m that] True equals_sym equals_trans by blast
    have "replace_first (match m key) (ent_value_update (\<lambda>_. v)) (chain_of m key) =
        replace_first (match m k) (ent_value_update (\<lambda>_. v)) (chain_of m key)"
      by (rule replace_first_cong_on) (rule eqm)
    then have "find (match m k)
        (replace_first (match m key) (ent_value_update (\<lambda>_. v)) (chain_of m key)) =
        map_option (ent_value_update (\<lambda>_. v)) (find (match m k) (chain_of m key))"
      by (simp add: find_replace_first_same)
    also have "find (match m k) (chain_of m key) = Some e"
      using found find_cong_on [of "chain_of m key" "match m key" "match m k", OF eqm] by simp
    finally have "find (match m k)
        (replace_first (match m key) (ent_value_update (\<lambda>_. v)) (chain_of m key)) =
        Some (e\<lparr>ent_value := v\<rparr>)" by simp
    then show ?thesis
      using same True by (simp add: hm_lookup_def m'_def chain_of_set_chain [OF inv])
  next
    case False
    have "\<not> match m k x" if "x \<in> set (chain_of m key)" "match m key x" for x
      using chain_match_iff [OF m that(1)] that(2) False equals_sym equals_trans by blast
    then have "find (match m k) (replace_first (match m key) (ent_value_update (\<lambda>_. v)) (chain_of m key))
        = find (match m k) (chain_of m key)"
      by (intro find_replace_first_disjoint) simp_all
    then show ?thesis
      using False chain_of_index [of m k key]
      by (auto simp: hm_lookup_def m'_def chain_of_set_chain [OF inv])
  qed
qed

lemma put_ok:
  assumes m: "hm_for hash equals m"
  shows "hm_for hash equals (fst (hashmapPut True calloc_ok m key v)) \<and>
    hm_lookup (fst (hashmapPut True calloc_ok m key v)) k =
      (if equals key k then Some v else hm_lookup m k)"
proof (cases "find (match m key) (chain_of m key)")
  case None
  show ?thesis
    using expandIfNecessary_ok [OF append_entry(1) [OF m None], of calloc_ok v]
      append_entry(2) [OF m None, of v k]
    by (simp add: hashmapPut_def createEntry_def Let_def None)
next
  case (Some e)
  then show ?thesis
    using put_found [OF m Some, of v] by (simp add: hashmapPut_def Let_def)
qed

lemma put_nomem:
  assumes "hm_for hash equals m"
  shows "hm_for hash equals (fst (hashmapPut False calloc_ok m key v))"
    and "hm_lookup m key = None \<Longrightarrow> hashmapPut False calloc_ok m key v = (m, None)"
  using put_found [OF assms, of key _ v] assms
  by (auto simp: hashmapPut_def createEntry_def Let_def hm_lookup_def split: option.splits)

lemma put_inv: "hm_for hash equals m \<Longrightarrow> hm_for hash equals (fst (hashmapPut malloc_ok calloc_ok m key v))"
  by (cases malloc_ok; simp) (blast dest: put_ok, blast intro: put_nomem(1))

lemma put_old:
  "snd (hashmapPut malloc_ok calloc_ok m key v) = Option.bind (hm_lookup m key) id"
  by (auto simp: hashmapPut_def createEntry_def Let_def hm_lookup_def split: option.splits)


lemma get_lookup: "hashmapGet m key = Option.bind (hm_lookup m key) id"
  by (auto simp: hashmapGet_def hm_lookup_def split: option.splits)

lemma contains_lookup: "hashmapContainsKey m key \<longleftrightarrow> hm_lookup m key \<noteq> None"
  by (auto simp: hashmapContainsKey_def hm_lookup_def)

lemma memoize_ok:
  assumes m: "hm_for hash equals m"
  shows "hm_for hash equals (fst (hashmapMemoize True calloc_ok m key init)) \<and>
    hm_lookup (fst (hashmapMemoize True calloc_ok m key init)) k =
      (if hm_lookup m key = None \<and> equals key k then Some (init key) else hm_lookup m k)"
proof (cases "find (match m key) (chain_of m key)")
  case None
  then have "hm_lookup m key = None" by (simp add: hm_lookup_def)
  with expandIfNecessary_ok [OF append_entry(1) [OF m None], of calloc_ok "init key"]
    append_entry(2) [OF m None, of "init key" k]
  show ?thesis
    by (simp add: hashmapMemoize_def createEntry_def Let_def None)
next
  case (Some e)
  then have "hm_lookup m key = Some (ent_value e)" by (simp add: hm_lookup_def)
  with m show ?thesis by (simp add: hashmapMemoize_def Let_def Some)
qed

lemma memoize_value:
  "snd (hashmapMemoize True calloc_ok m key init) =
     (case hm_lookup m key of None \<Rightarrow> init key | Some v \<Rightarrow> v)"
  by (simp add: hashmapMemoize_def createEntry_def Let_def hm_lookup_def split: option.splits)

lemma find_remove_unique:
  assumes "hm_unique equals es" "\<And>e. e \<in> set es \<Longrightarrow> P e = equals (ent_key e) key"
  shows "find P (remove_first P es) = None"
  using assms
proof (induction es)
  case Nil
  then show ?case by simp
next
  case (Cons x xs)
  have "\<not> equals (ent_key e) key" if "equals (ent_key x) key" "e \<in> set xs" for e
  proof -
    have "\<not> equals (ent_key x) (ent_key e)" using Cons.prems(1) that(2) by (simp add: hm_unique_def)
    with that(1) show ?thesis using equals_sym equals_trans by blast
  qed
  moreover have "find P (remove_first P xs) = None"
    using Cons by (simp add: hm_unique_def)
  ultimately show ?case
    using Cons.prems(2) by (simp add: find_None_iff)
qed

lemma remove_ok:
  assumes m: "hm_for hash equals m"
  shows "hm_for hash equals (fst (hashmapRemove m key)) \<and>
    hm_lookup (fst (hashmapRemove m key)) k = (if equals key k then None else hm_lookup m k) \<and>
    snd (hashmapRemove m key) = Option.bind (hm_lookup m key) id"
proof (cases "find (match m key) (chain_of m key)")
  case None
  have "hm_lookup m k = None" if "equals key k"
  proof -
    have "chain_of m k = chain_of m key"
      using hashKey_equals [OF m that] by (simp add: chain_of_def)
    moreover have "\<not> match m k e" if "e \<in> set (chain_of m key)" for e
      using not_found [OF m None that] chain_match_iff [OF m that, of k] \<open>equals key k\<close>
        equals_sym equals_trans by blast
    ultimately show ?thesis by (simp add: hm_lookup_def find_None_iff)
  qed
  with None m show ?thesis by (simp add: hashmapRemove_def hm_lookup_def)
next
  case (Some e)
  let ?es = "remove_first (match m key) (chain_of m key)"
  let ?m = "(set_chain m key ?es)\<lparr>hm_size := hm_size m - 1\<rparr>"
  have inv: "hm_inv m" and eq: "hm_equals m = equals" using m by (simp_all add: hm_for_def)
  have pos: "hm_size m > 0"
  proof -
    have "e \<in> set (concat (buckets m))"
      using Some hm_inv_index [OF inv] hm_inv_lengthD [OF inv]
      unfolding in_concat_nth chain_of_def by (metis find_Some_iff nth_mem)
    then show ?thesis using hm_inv_sizeD [OF inv] by (metis length_pos_if_in_set)
  qed
  have "hm_inv ?m"
  proof (rule hm_inv_set_chain [OF inv])
    fix x assume "x \<in> set ?es"
    then have "x \<in> set (chain_of m key)" by (rule set_remove_first)
    then show "ent_hash x = hashKey m (ent_key x) \<and> calculateIndex (bucketCount m) (ent_hash x) =
        calculateIndex (bucketCount m) (hashKey m key)"
      using hm_inv_chainD [OF inv, of x key] by blast
  next
    show "hm_unique (hm_equals m) ?es"
      using chain_unique [OF m, of key] by (simp add: hm_unique_remove_first eq)
  next
    show "hm_size m - 1 + length (chain_of m key) = hm_size m + length ?es"
      using length_remove_first [OF Some] pos by simp
  qed
  then have "hm_for hash equals ?m" using m by (simp add: hm_for_def)
  moreover have "hm_lookup ?m k = (if equals key k then None else hm_lookup m k)"
  proof (cases "equals key k")
    case True
    have mk: "match m k x = match m key x" if "x \<in> set (chain_of m key)" for x
      using chain_match_iff [OF m that] True equals_sym equals_trans by blast
    have "find (match m k) ?es = find (match m key) ?es"
      by (rule find_cong_on) (rule mk [OF set_remove_first])
    also have "\<dots> = None"
      by (rule find_remove_unique [OF chain_unique [OF m]]) (rule chain_match_iff [OF m])
    finally show ?thesis
      using True hashKey_equals [OF m True]
      by (simp add: hm_lookup_def chain_of_set_chain [OF inv])
  next
    case False
    have "\<not> match m k x" if "x \<in> set (chain_of m key)" "match m key x" for x
      using chain_match_iff [OF m that(1)] that(2) False equals_sym equals_trans by blast
    then have "find (match m k) ?es = find (match m k) (chain_of m key)"
      by (intro find_remove_first_disjoint) blast
    with False show ?thesis
      using chain_of_index [of m k key]
      by (auto simp: hm_lookup_def chain_of_set_chain [OF inv])
  qed
  ultimately show ?thesis
    by (simp add: hashmapRemove_def Some hm_lookup_def [of m key])
qed

end


section \<open>String keys\<close>

text \<open>
  tboot creates every map with \<open>strhash\<close> and \<open>strcompare\<close>, which satisfy the contract. A key is a C
  string, so address equality, the shortcut of \<open>equalKeys\<close>, implies content equality.
\<close>

interpretation str_keys: key_contract strhash strcompare
  by unfold_locales (auto simp: strcompare_def)

interpretation int_keys: key_contract hashmapIntHash hashmapIntEquals
  by unfold_locales (auto simp: hashmapIntEquals_def)

text \<open>What a component that keeps a table of strings relies on.\<close>

locale string_table =
  fixes look :: "'t \<Rightarrow> string \<Rightarrow> 'v option option"
    and put :: "'t \<Rightarrow> string \<Rightarrow> 'v option \<Rightarrow> 't"
    and ok :: "'t \<Rightarrow> bool"
  assumes ok_put: "ok t \<Longrightarrow> ok (put t k v)"
    and look_put: "ok t \<Longrightarrow> look (put t k v) k' = (if k = k' then Some v else look t k')"
begin

lemma ok_puts: "ok t \<Longrightarrow> ok (fold (\<lambda>(k, v) t. put t k v) kvs t)"
  by (induction kvs arbitrary: t) (auto intro: ok_put)

lemma look_puts:
  "ok t \<Longrightarrow> distinct (map fst kvs) \<Longrightarrow>
     look (fold (\<lambda>(k, v) t. put t k v) kvs t) k =
       (case map_of kvs k of None \<Rightarrow> look t k | Some v \<Rightarrow> Some v)"
proof (induction kvs arbitrary: t)
  case Nil
  then show ?case by simp
next
  case (Cons kv kvs)
  obtain a b where kv: "kv = (a, b)" by (cases kv)
  have "map_of kvs a = None" using Cons.prems(2) kv by (auto simp: map_of_eq_None_iff)
  with Cons kv show ?case
    by (auto simp: look_put ok_put split: option.splits)
qed

end

interpretation str_map: string_table hm_lookup "\<lambda>m k v. fst (hashmapPut True calloc_ok m k v)"
    "hm_for strhash strcompare"
proof unfold_locales
  fix t :: "(string, 'v) hashmap" and k k' :: string and v :: "'v option"
  assume t: "hm_for strhash strcompare t"
  show "hm_for strhash strcompare (fst (hashmapPut True calloc_ok t k v))"
    using str_keys.put_ok [OF t] by blast
  show "hm_lookup (fst (hashmapPut True calloc_ok t k v)) k' =
      (if k = k' then Some v else hm_lookup t k')"
    using str_keys.put_ok [OF t, of calloc_ok k v k'] by (simp add: strcompare_def)
qed

text \<open>An empty table of two buckets.\<close>

definition hm_example :: "(string, 'v) hashmap" where
  "hm_example = \<lparr>buckets = [[], []], bucketCount = 2, hm_hash = strhash, hm_equals = strcompare,
     hm_locked = False, hm_size = 0\<rparr>"

lemma hm_example_ok: "hm_for strhash strcompare hm_example"
  unfolding hm_for_def
proof (intro conjI)
  show "hm_inv hm_example"
    by (rule hm_invI [of 1]) (auto simp: hm_example_def hm_unique_def less_2_cases_iff)
qed (simp_all add: hm_example_def)

lemma hm_example_empty: "hm_lookup (hm_example :: (string, 'v) hashmap) = (\<lambda>k. None)"
proof
  fix k
  have "calculateIndex 2 (hashKey (hm_example :: (string, 'v) hashmap) k) < 2"
    using calculateIndex_less [of 1 "hashKey (hm_example :: (string, 'v) hashmap) k"] by simp
  then show "hm_lookup (hm_example :: (string, 'v) hashmap) k = None"
    by (auto simp: hm_lookup_def chain_of_def hm_example_def less_2_cases_iff)
qed

section \<open>Properties\<close>

text \<open>
  The operations of a client and what they return. A put carries the results of its two allocations.
\<close>

datatype 'v hm_op =
    OpPut bool bool string "'v option"
  | OpGet string
  | OpContains string
  | OpMemoize bool string "'v option"
  | OpRemove string

datatype 'v hm_result = Old "'v option" | Found bool

fun hm_step :: "(string, 'v) hashmap \<Rightarrow> 'v hm_op \<Rightarrow> (string, 'v) hashmap \<times> 'v hm_result" where
  "hm_step m (OpPut mok cok k v) = apsnd Old (hashmapPut mok cok m k v)"
| "hm_step m (OpGet k) = (m, Old (hashmapGet m k))"
| "hm_step m (OpContains k) = (m, Found (hashmapContainsKey m k))"
| "hm_step m (OpMemoize cok k v) = apsnd Old (hashmapMemoize True cok m k (\<lambda>_. v))"
| "hm_step m (OpRemove k) = apsnd Old (hashmapRemove m k)"

fun abs_step :: "(string \<Rightarrow> 'v option option) \<Rightarrow> 'v hm_op
    \<Rightarrow> (string \<Rightarrow> 'v option option) \<times> 'v hm_result" where
  "abs_step f (OpPut mok cok k v) =
     (if mok \<or> f k \<noteq> None then f(k := Some v) else f, Old (Option.bind (f k) id))"
| "abs_step f (OpGet k) = (f, Old (Option.bind (f k) id))"
| "abs_step f (OpContains k) = (f, Found (f k \<noteq> None))"
| "abs_step f (OpMemoize cok k v) =
     (case f k of None \<Rightarrow> (f(k := Some v), Old v) | Some w \<Rightarrow> (f, Old w))"
| "abs_step f (OpRemove k) = (f(k := None), Old (Option.bind (f k) id))"

fun hm_run :: "(string, 'v) hashmap \<Rightarrow> 'v hm_op list \<Rightarrow> (string, 'v) hashmap \<times> 'v hm_result list" where
  "hm_run m [] = (m, [])"
| "hm_run m (x # xs) =
     (case hm_step m x of (m', r) \<Rightarrow> apsnd (Cons r) (hm_run m' xs))"

fun abs_run :: "(string \<Rightarrow> 'v option option) \<Rightarrow> 'v hm_op list
    \<Rightarrow> (string \<Rightarrow> 'v option option) \<times> 'v hm_result list" where
  "abs_run f [] = (f, [])"
| "abs_run f (x # xs) =
     (case abs_step f x of (f', r) \<Rightarrow> apsnd (Cons r) (abs_run f' xs))"

lemma put_nomem_lookup:
  assumes "hm_for strhash strcompare m"
  shows "hm_lookup (fst (hashmapPut False cok m k v)) =
    (if hm_lookup m k \<noteq> None then (hm_lookup m)(k := Some v) else hm_lookup m)"
proof (cases "find (match m k) (chain_of m k)")
  case None
  then show ?thesis by (simp add: hashmapPut_def createEntry_def Let_def hm_lookup_def)
next
  case (Some e)
  then have "fst (hashmapPut False cok m k v) = fst (hashmapPut True cok m k v)"
    by (simp add: hashmapPut_def Let_def)
  moreover have "hm_lookup (fst (hashmapPut True cok m k v)) = (hm_lookup m)(k := Some v)"
    using str_map.look_put [OF assms, of cok k v] by (intro ext) simp
  moreover have "hm_lookup m k \<noteq> None" using Some by (simp add: hm_lookup_def)
  ultimately show ?thesis by simp
qed

lemma hm_step_refines:
  assumes m: "hm_for strhash strcompare m"
  shows "hm_for strhash strcompare (fst (hm_step m x)) \<and>
    (hm_lookup (fst (hm_step m x)), snd (hm_step m x)) = abs_step (hm_lookup m) x"
proof (cases x)
  case (OpPut mok cok k v)
  have "hm_lookup (fst (hashmapPut True cok m k v)) = (hm_lookup m)(k := Some v)"
    using str_map.look_put [OF m, of cok k v] by (intro ext) simp
  then show ?thesis
    using OpPut str_keys.put_inv [OF m, of mok cok k v] put_nomem_lookup [OF m, of cok k v]
    by (cases mok) (simp_all add: str_keys.put_old)
next
  case (OpMemoize cok k v)
  have "hm_lookup (fst (hashmapMemoize True cok m k (\<lambda>_. v))) =
      (if hm_lookup m k = None then (hm_lookup m)(k := Some v) else hm_lookup m)"
    using str_keys.memoize_ok [OF m, of cok k "\<lambda>_. v"] by (intro ext) (simp add: strcompare_def)
  moreover have "hm_for strhash strcompare (fst (hashmapMemoize True cok m k (\<lambda>_. v)))"
    using str_keys.memoize_ok [OF m] by blast
  ultimately show ?thesis
    using OpMemoize by (simp add: str_keys.memoize_value split: option.splits)
next
  case (OpRemove k)
  have "hm_lookup (fst (hashmapRemove m k)) = (hm_lookup m)(k := None)"
    using str_keys.remove_ok [OF m, of k] by (intro ext) (simp add: strcompare_def)
  then show ?thesis
    using OpRemove str_keys.remove_ok [OF m, of k] by simp
qed (use m in \<open>simp_all add: str_keys.get_lookup str_keys.contains_lookup\<close>)

lemma hm_run_refines:
  "hm_for strhash strcompare m \<Longrightarrow>
     hm_for strhash strcompare (fst (hm_run m xs)) \<and>
     (hm_lookup (fst (hm_run m xs)), snd (hm_run m xs)) = abs_run (hm_lookup m) xs"
proof (induction xs arbitrary: m)
  case Nil
  then show ?case by simp
next
  case (Cons x xs)
  obtain m' r where x: "hm_step m x = (m', r)" by (cases "hm_step m x")
  have m': "hm_for strhash strcompare m'" "abs_step (hm_lookup m) x = (hm_lookup m', r)"
    using hm_step_refines [OF Cons.prems, of x] x by simp_all
  obtain m'' rs where xs: "hm_run m' xs = (m'', rs)" by (cases "hm_run m' xs")
  have "hm_for strhash strcompare m''" "abs_run (hm_lookup m') xs = (hm_lookup m'', rs)"
    using Cons.IH [OF m'(1)] xs by simp_all
  with x xs m'(2) show ?case by simp
qed

text \<open>
  C23. Creating a map always ends, for every requested capacity, although the doubling loop of
  \<open>hashmapCreate\<close> would run forever on a minimum of \<open>2 ^ 31\<close>: the 32-bit product keeps it below that.
  The map is well formed and empty, or the allocation failed.
\<close>

theorem hashmapCreate_ends:
  "\<exists>r :: (string, 'v) hashmap option.
     hashmapCreate malloc_ok calloc_ok capacity strhash strcompare = Some r \<and>
     (case r of
        None \<Rightarrow> True
      | Some m \<Rightarrow> hm_for strhash strcompare m \<and> unat (capacity * 4 div 3) < bucketCount m \<and>
          hm_lookup m = (\<lambda>key. None))"
proof -
  obtain r :: "(string, 'v) hashmap option"
    where r: "hashmapCreate malloc_ok calloc_ok capacity strhash strcompare = Some r"
    and m: "\<And>m. r = Some m \<Longrightarrow> hm_for strhash strcompare m \<and>
      unat (capacity * 4 div 3) < bucketCount m \<and> (\<forall>key. hm_lookup m key = None)"
    using hashmapCreate_total [of malloc_ok calloc_ok capacity strhash strcompare] by blast
  have l: "hm_lookup m = (\<lambda>key. None)" if "r = Some m" for m
    using m [OF that] by (intro ext) blast
  have "case r of None \<Rightarrow> True | Some m \<Rightarrow> hm_for strhash strcompare m \<and>
      unat (capacity * 4 div 3) < bucketCount m \<and> hm_lookup m = (\<lambda>key. None)"
  proof (cases r)
    case (Some a)
    with m [OF Some] l [OF Some] show ?thesis by simp
  qed simp
  with r show ?thesis by blast
qed

text \<open>
  C1. A map with string keys refines a finite map: any sequence of puts, gets, membership tests,
  memoizations and removals, the growth of the table and failing allocations included, leaves a
  well-formed table, and every operation returns what the same operation on the abstract map
  returns.
\<close>

theorem hashmap_refines_map:
  assumes "hm_for strhash strcompare m"
  shows "hm_for strhash strcompare (fst (hm_run m ops)) \<and>
    (hm_lookup (fst (hm_run m ops)), snd (hm_run m ops)) = abs_run (hm_lookup m) ops"
  using assms by (rule hm_run_refines)

theorem hashmap_refines_map_witness:
  "hm_for strhash strcompare (hm_example :: (string, nat) hashmap) \<and>
   snd (hm_run hm_example [OpPut True True ''a'' (Some (1 :: nat)), OpPut False True ''b'' (Some 2),
     OpPut True True ''a'' (Some 3), OpGet ''a'', OpContains ''b'', OpRemove ''a'', OpGet ''a'']) =
     [Old None, Old None, Old (Some 1), Old (Some 3), Found False, Old (Some 3), Old None]"
  using hashmap_refines_map [OF hm_example_ok, of "[OpPut True True ''a'' (Some (1 :: nat)),
      OpPut False True ''b'' (Some 2), OpPut True True ''a'' (Some 3), OpGet ''a'',
      OpContains ''b'', OpRemove ''a'', OpGet ''a'']"] hm_example_ok
  by (simp add: hm_example_empty del: hm_run.simps)

end
