(* ===== verification/Tboot_Config.thy ===== *)
theory Tboot_Config
  imports Hashmap
begin

text \<open>
  The configuration of tboot: the parser of \<^verbatim>\<open>libcutils/config_parser.c\<close> and the table that
  \<^verbatim>\<open>src/tboot.c\<close> fills from it (\<^verbatim>\<open>load_config\<close>, \<^verbatim>\<open>tboot_config_get\<close>, \<^verbatim>\<open>tboot_config_set\<close>).

  The parser reads the file into a block that it never terminates and then treats as a C string. The
  model therefore keeps the bytes of the block together with the bytes that follow it in memory.
\<close>

section \<open>The parser\<close>

record config_parser =
  cp_path :: string
  cp_data :: string
  cp_len :: nat
  cp_delim :: string

text \<open>
  What the system answers while the file is loaded: whether \<^verbatim>\<open>open\<close> succeeds, the size \<^verbatim>\<open>fstat\<close>
  reports, whether the two allocations succeed, the bytes \<^verbatim>\<open>read\<close> delivers (\<open>None\<close> for an error), and
  the memory behind the bytes that were read.
\<close>

record file_answers =
  fa_open :: bool
  fa_size :: "int option"
  fa_malloc_cp :: bool
  fa_malloc_data :: bool
  fa_read :: "string option"
  fa_behind :: string

definition PATH_MAX :: nat where
  "PATH_MAX = 4096"

text \<open>Index of the first \<open>c\<close> at or after \<open>p\<close> in the C string of \<open>mem\<close>.\<close>

definition strchr_from :: "string \<Rightarrow> nat \<Rightarrow> char \<Rightarrow> nat option" where
  "strchr_from mem p c =
     (let s = c_str (drop p mem)
      in if c \<in> set s then Some (p + length (takeWhile (\<lambda>x. x \<noteq> c) s)) else None)"

definition memmove :: "string \<Rightarrow> nat \<Rightarrow> nat \<Rightarrow> nat \<Rightarrow> string" where
  "memmove mem dst src n = take dst mem @ take n (drop src mem) @ drop (dst + n) mem"

text \<open>The loop that removes comments in place; \<open>None\<close> when it never ends.\<close>

partial_function (option) remove_comments :: "nat \<Rightarrow> string \<Rightarrow> nat \<Rightarrow> string option" where
  "remove_comments len mem p =
     (case strchr_from mem p (CHR ''#'') of
        None \<Rightarrow> Some mem
      | Some dst \<Rightarrow>
          (case strchr_from mem dst newline of
             None \<Rightarrow> Some (mem[dst := NUL])
           | Some src \<Rightarrow>
               remove_comments len
                 (memmove mem dst src (min (length (c_str (drop src mem)) + 1) len)) dst))"

text \<open>
  The outcome of \<^verbatim>\<open>config_parser_init\<close>. The \<^verbatim>\<open>err\<close> label frees \<^verbatim>\<open>cp\<close>, which is not yet assigned
  when \<^verbatim>\<open>fstat\<close> fails or the file is empty: these two paths are \<open>BadFree\<close>.
\<close>

datatype 'a init_result = Parser 'a | NoParser | BadFree | Hang

definition config_parser_init :: "string option \<Rightarrow> file_answers \<Rightarrow> config_parser init_result" where
  "config_parser_init fn fa =
     (case fn of
        None \<Rightarrow> NoParser
      | Some name \<Rightarrow>
          if length name = 0 then NoParser
          else if \<not> fa_open fa then NoParser
          else (case fa_size fa of
                  None \<Rightarrow> BadFree
                | Some st_size \<Rightarrow>
                    if st_size \<le> 0 then BadFree
                    else if \<not> fa_malloc_cp fa then NoParser
                    else if \<not> fa_malloc_data fa then NoParser
                    else (case fa_read fa of
                            None \<Rightarrow> NoParser
                          | Some bytes \<Rightarrow>
                              let got = take (nat st_size) bytes
                              in if got = [] then NoParser
                                 else (case remove_comments (length got) (got @ fa_behind fa) 0 of
                                         None \<Rightarrow> Hang
                                       | Some mem \<Rightarrow>
                                           Parser \<lparr>cp_path = take PATH_MAX name, cp_data = mem,
                                             cp_len = length got, cp_delim = ''= '' @ [CHR 0x09]\<rparr>))))"

lemma length_tl_dropWhile: "x \<in> set xs \<Longrightarrow> length (dropWhile P xs) - Suc 0 < length xs"
  using length_dropWhile_le [of P xs] by (cases xs) auto

text \<open>One pass over the lines: the second token of the first line whose first token is \<open>key\<close>.\<close>

function scan_lines :: "string \<Rightarrow> string \<Rightarrow> string \<Rightarrow> string option" where
  "scan_lines delim key line =
     (let l = takeWhile (\<lambda>c. c \<noteq> newline) line;
          rest = dropWhile (\<lambda>c. c \<noteq> newline) line
      in case strtok delim l of
           Some (tok1, saved) \<Rightarrow>
             if tok1 = key then map_option fst (strtok delim saved)
             else if rest = [] then None else scan_lines delim key (tl rest)
         | None \<Rightarrow> if rest = [] then None else scan_lines delim key (tl rest))"
  by pat_completeness auto

termination
  by (relation "measure (\<lambda>(delim, key, line). length line)") (auto intro: length_tl_dropWhile)

declare scan_lines.simps [simp del]

definition config_parser_get :: "config_parser option \<Rightarrow> string \<Rightarrow> string option" where
  "config_parser_get cp key =
     (if length key = 0 then None
      else case cp of
             None \<Rightarrow> None
           | Some c \<Rightarrow> scan_lines (cp_delim c) key (c_str (cp_data c)))"

definition config_parser_setdelim :: "config_parser option \<Rightarrow> string option
    \<Rightarrow> config_parser option \<times> int" where
  "config_parser_setdelim cp delim =
     (case (cp, delim) of
        (Some c, Some d) \<Rightarrow> if length d = 0 then (cp, -1) else (Some (c\<lparr>cp_delim := take 7 d\<rparr>), 0)
      | _ \<Rightarrow> (cp, -1))"

section \<open>The table\<close>

definition tc_keys :: "string list" where
  "tc_keys = [''ui_conf'', ''disk_conf'', ''push_dir'', ''rootfs'', ''enable_nfs'', ''nfsurl'',
     ''disk_force'', ''battery_threshold'', ''lcd_dim_timeout'', ''lcd_off_timeout'',
     ''lcd_dim_brightness'']"

definition tc_values :: "string option list" where
  "tc_values = [None, Some ''/etc/disk_layout.conf'', Some ''/tmp'', Some ''/dev/mmcblk1'',
     Some ''no'', Some ''192.168.100.2:/home/nfs'', Some ''yes'', Some ''10'', Some ''30'',
     Some ''10'', Some ''10'']"

type_synonym config_table = "(string, string) hashmap"

definition tboot_config_get :: "config_table option \<Rightarrow> string \<Rightarrow> string option" where
  "tboot_config_get tboot_config key =
     (case tboot_config of
        None \<Rightarrow> None
      | Some m \<Rightarrow> if \<not> hashmapContainsKey m key then None else hashmapGet m key)"

definition tboot_config_set :: "bool \<Rightarrow> bool \<Rightarrow> config_table option \<Rightarrow> string \<Rightarrow> string option
    \<Rightarrow> config_table option \<times> string option" where
  "tboot_config_set malloc_ok calloc_ok tboot_config key value =
     (case tboot_config of
        None \<Rightarrow> (None, None)
      | Some m \<Rightarrow>
          if key \<notin> set tc_keys then (Some m, None)
          else (case hashmapPut malloc_ok calloc_ok m key value of (m', old) \<Rightarrow> (Some m', old)))"

text \<open>
  \<^verbatim>\<open>load_config\<close> reads the keys in the order of \<open>tc_keys\<close>. The result is the return value and the
  table, or \<open>None\<close> where the parser's own failure path is undefined or the call does not come back.
  \<open>create_ok\<close> and \<open>buckets_ok\<close> are the allocations of the new table, \<open>malloc_ok\<close> and \<open>calloc_ok\<close> those of
  the puts.
\<close>

definition TBOOT_CONFIG :: string where
  "TBOOT_CONFIG = ''/etc/preos/preos.conf''"

definition override :: "bool \<Rightarrow> bool \<Rightarrow> config_parser \<Rightarrow> string \<Rightarrow> config_table option
    \<Rightarrow> config_table option" where
  "override malloc_ok calloc_ok cp key t =
     (case config_parser_get (Some cp) key of
        None \<Rightarrow> t
      | Some value \<Rightarrow> fst (tboot_config_set malloc_ok calloc_ok t key (Some value)))"

definition load_config :: "string option \<Rightarrow> file_answers \<Rightarrow> bool \<Rightarrow> bool \<Rightarrow> bool \<Rightarrow> bool
    \<Rightarrow> (int \<times> config_table option) option" where
  "load_config config fa create_ok buckets_ok malloc_ok calloc_ok =
     (let file = (case config of None \<Rightarrow> TBOOT_CONFIG | Some c \<Rightarrow> if length c = 0 then TBOOT_CONFIG else c)
      in case config_parser_init (Some file) fa of
           NoParser \<Rightarrow> Some (-1, None)
         | BadFree \<Rightarrow> None
         | Hang \<Rightarrow> None
         | Parser cp \<Rightarrow>
             (case hashmapCreate create_ok buckets_ok 12 strhash strcompare of
                None \<Rightarrow> None
              | Some None \<Rightarrow> Some (-1, None)
              | Some (Some m) \<Rightarrow>
                  let defaults = fold (\<lambda>(k, v) t. fst (hashmapPut malloc_ok calloc_ok t k v))
                                   (zip tc_keys tc_values) m
                  in Some (0, fold (override malloc_ok calloc_ok cp) tc_keys (Some defaults))))"

section \<open>Comment removal\<close>

text \<open>What the loop computes: every comment is cut from its \<open>#\<close> up to the end of the line.\<close>

function strip_comments :: "string \<Rightarrow> string" where
  "strip_comments [] = []"
| "strip_comments (c # cs) =
     (if c = CHR ''#'' then strip_comments (dropWhile (\<lambda>c. c \<noteq> newline) cs)
      else c # strip_comments cs)"
  by pat_completeness auto

termination
  by (relation "measure length") (auto simp: le_imp_less_Suc length_dropWhile_le)

lemma strip_comments_before:
  "CHR ''#'' \<notin> set u \<Longrightarrow> strip_comments (u @ v) = u @ strip_comments v"
  by (induction u) auto

lemma c_str_append:
  "NUL \<notin> set u \<Longrightarrow> c_str (u @ v) = u @ c_str v"
  by (induction u) (auto simp: c_str_def)

lemma c_str_NUL [simp]: "c_str (NUL # v) = []"
  by (simp add: c_str_def)

lemma c_str_free: "NUL \<notin> set (c_str mem)"
  by (auto simp: c_str_def dest: set_takeWhileD)

text \<open>Memory that holds a C string: the string, its NUL and what follows.\<close>

lemma c_str_split: "NUL \<in> set mem \<Longrightarrow> \<exists>behind. mem = c_str mem @ NUL # behind"
proof -
  assume "NUL \<in> set mem"
  then have "dropWhile (\<lambda>c. c \<noteq> NUL) mem \<noteq> []" by (auto simp: dropWhile_eq_Nil_conv)
  then obtain y ys where y: "dropWhile (\<lambda>c. c \<noteq> NUL) mem = y # ys" by (cases "dropWhile (\<lambda>c. c \<noteq> NUL) mem") auto
  then have "y = NUL" using hd_dropWhile [of "\<lambda>c. c \<noteq> NUL" mem] by simp
  with y show ?thesis
    using takeWhile_dropWhile_id [of "\<lambda>c. c \<noteq> NUL" mem] unfolding c_str_def
    by (intro exI [of _ ys]) simp
qed

lemma strchr_from_append:
  assumes "NUL \<notin> set s" "length u = p"
  shows "strchr_from (u @ s @ NUL # behind) p c =
    (if c \<in> set s then Some (p + length (takeWhile (\<lambda>x. x \<noteq> c) s)) else None)"
  using assms by (simp add: strchr_from_def c_str_append Let_def)

lemma split_first:
  "c \<in> set s \<Longrightarrow> \<exists>u v. s = u @ c # v \<and> c \<notin> set u"
  by (rule split_list_first) 

text \<open>
  The loop on memory \<open>u @ s @ NUL # behind\<close> with \<open>p\<close> at the start of \<open>s\<close>: it ends and leaves the
  string without comments, provided the text behind a comment never exceeds the recorded length.
\<close>

lemma remove_comments_strip:
  assumes "NUL \<notin> set (u @ s)" "length (u @ s) \<le> len" "length u = p"
  shows "\<exists>junk. remove_comments len (u @ s @ NUL # behind) p =
    Some (u @ strip_comments s @ NUL # junk)"
  using assms
proof (induction "length s" arbitrary: u s p behind rule: less_induct)
  case less
  show ?case
  proof (cases "CHR ''#'' \<in> set s")
    case False
    have "strip_comments s = s" using strip_comments_before [OF False, of "[]"] by simp
    with False less.prems show ?thesis
      by (subst remove_comments.simps) (simp add: strchr_from_append)
  next
    case True
    obtain a b where s: "s = a @ CHR ''#'' # b" and a: "CHR ''#'' \<notin> set a"
      using split_first [OF True] by blast
    let ?mem = "u @ s @ NUL # behind" and ?d = "p + length a"
    have at: "strchr_from ?mem p (CHR ''#'') = Some ?d"
      using less.prems a s by (subst strchr_from_append) (auto simp: takeWhile_append)
    have mem: "?mem = (u @ a) @ (CHR ''#'' # b) @ NUL # behind" by (simp add: s)
    have nl: "strchr_from ?mem ?d newline =
        (if newline \<in> set b then Some (?d + 1 + length (takeWhile (\<lambda>x. x \<noteq> newline) b)) else None)"
      unfolding mem using less.prems s by (subst strchr_from_append) auto
    show ?thesis
    proof (cases "newline \<in> set b")
      case False
      have "dropWhile (\<lambda>c. c \<noteq> newline) b = []" using False by (auto simp: dropWhile_eq_Nil_conv)
      then have "strip_comments (CHR ''#'' # b) = []" by (simp only: strip_comments.simps) simp
      then have "strip_comments s = a" using strip_comments_before [OF a] s by simp
      moreover have "?mem[?d := NUL] = u @ a @ NUL # b @ NUL # behind"
        unfolding mem using less.prems(3) by (simp add: list_update_append)
      ultimately show ?thesis
        using at nl False by (subst remove_comments.simps) simp
    next
      case True
      obtain c e where b: "b = c @ newline # e" and c: "newline \<notin> set c"
        using split_first [OF True] by blast
      let ?s = "?d + 1 + length c"
      have src: "strchr_from ?mem ?d newline = Some ?s" using nl True b c by (simp add: takeWhile_append)
      have behind_src: "drop ?s ?mem = newline # e @ NUL # behind"
        using less.prems(3) by (simp add: s b)
      then have "length (c_str (drop ?s ?mem)) + 1 = length e + 2"
        using less.prems(1) s b by (simp add: c_str_append [of "newline # e", simplified])
      moreover have "length e + 2 \<le> len" using less.prems(2) s b by simp
      ultimately have n: "min (length (c_str (drop ?s ?mem)) + 1) len = length e + 2" by simp
      have "take ?d ?mem = u @ a" using less.prems(3) by (simp add: s)
      moreover have "take (length e + 2) (drop ?s ?mem) = newline # e @ [NUL]"
        unfolding behind_src by simp
      ultimately have "memmove ?mem ?d ?s (length e + 2) =
          (u @ a) @ (newline # e) @ NUL # drop (?d + (length e + 2)) ?mem"
        unfolding memmove_def by simp
      then obtain junk where
          "memmove ?mem ?d ?s (length e + 2) = (u @ a) @ (newline # e) @ NUL # junk" by blast
      moreover have "\<exists>j. remove_comments len ((u @ a) @ (newline # e) @ NUL # junk) ?d =
          Some ((u @ a) @ strip_comments (newline # e) @ NUL # j)"
        by (rule less.hyps) (use less.prems s b in auto)
      moreover have "dropWhile (\<lambda>c. c \<noteq> newline) b = newline # e" using b c by (simp add: dropWhile_append)
      then have "strip_comments s = a @ strip_comments (newline # e)"
        using strip_comments_before [OF a] s by simp
      ultimately show ?thesis
        using at src n by (subst remove_comments.simps) simp
    qed
  qed
qed

section \<open>Files of settings and comments\<close>

datatype conf_line = Setting string string | Comment string

fun render_line :: "conf_line \<Rightarrow> string" where
  "render_line (Setting k v) = k @ '' = '' @ v @ [newline]"
| "render_line (Comment t) = CHR ''#'' # t @ [newline]"

definition render :: "conf_line list \<Rightarrow> string" where
  "render ls = concat (map render_line ls)"

definition clean :: "string \<Rightarrow> bool" where
  "clean w \<longleftrightarrow> w \<noteq> [] \<and> (\<forall>c\<in>set w. c \<notin> {CHR '' '', CHR ''='', CHR 0x09, newline, CHR ''#'', NUL})"

fun line_ok :: "conf_line \<Rightarrow> bool" where
  "line_ok (Setting k v) \<longleftrightarrow> clean k \<and> clean v"
| "line_ok (Comment t) \<longleftrightarrow> newline \<notin> set t \<and> NUL \<notin> set t"

fun settings :: "conf_line list \<Rightarrow> (string \<times> string) list" where
  "settings [] = []"
| "settings (Setting k v # ls) = (k, v) # settings ls"
| "settings (Comment t # ls) = settings ls"

fun stripped_line :: "conf_line \<Rightarrow> string" where
  "stripped_line (Setting k v) = k @ '' = '' @ v @ [newline]"
| "stripped_line (Comment t) = [newline]"

lemma strip_render:
  "\<forall>l\<in>set ls. line_ok l \<Longrightarrow> strip_comments (render ls) = concat (map stripped_line ls)"
proof (induction ls)
  case Nil
  then show ?case by (simp add: render_def)
next
  case (Cons l ls)
  from Cons.prems have l: "line_ok l" and ls: "\<forall>l\<in>set ls. line_ok l" by simp_all
  have IH: "strip_comments (concat (map render_line ls)) = concat (map stripped_line ls)"
    using Cons.IH [OF ls] unfolding render_def .
  show ?case
  proof (cases l)
    case (Setting k v)
    then have "CHR ''#'' \<notin> set (k @ '' = '' @ v @ [newline])"
      using l by (auto simp: clean_def)
    from strip_comments_before [OF this, of "concat (map render_line ls)"] show ?thesis
      using IH Setting by (simp add: render_def)
  next
    case (Comment t)
    then have "dropWhile (\<lambda>c. c \<noteq> newline) (t @ newline # concat (map render_line ls)) =
        newline # concat (map render_line ls)"
      using l by (subst dropWhile_append2) auto
    then show ?thesis using IH Comment by (simp add: render_def)
  qed
qed

abbreviation default_delim :: string where
  "default_delim \<equiv> ''= '' @ [CHR 0x09]"

lemma strtok_word:
  assumes "w \<noteq> []" "\<And>x. x \<in> set w \<Longrightarrow> x \<notin> set D"
  shows "c \<in> set D \<Longrightarrow> strtok D (w @ c # rest) = Some (w, rest)"
    and "strtok D w = Some (w, [])"
proof -
  obtain y ys where w: "w = y # ys" using assms(1) by (cases w) auto
  then have y: "y \<notin> set D" using assms(2) by simp
  have "takeWhile (\<lambda>c. c \<notin> set D) (w @ c # rest) = w" "dropWhile (\<lambda>c. c \<notin> set D) (w @ c # rest) = c # rest"
    if "c \<in> set D"
    using assms(2) that by (simp_all add: takeWhile_append2 dropWhile_append2)
  then show "c \<in> set D \<Longrightarrow> strtok D (w @ c # rest) = Some (w, rest)"
    using w y by (simp add: strtok_def)
  have all: "takeWhile (\<lambda>c. c \<notin> set D) w = w" "dropWhile (\<lambda>c. c \<notin> set D) w = []"
    using assms(2) by (simp_all add: takeWhile_eq_all_conv)
  have "dropWhile (\<lambda>c. c \<in> set D) w = w" using w y by simp
  with all assms(1) show "strtok D w = Some (w, [])"
    by (simp only: strtok_def Let_def if_False list.sel(2))
qed

lemma clean_word:
  assumes "clean w"
  shows "w \<noteq> []" "\<And>x. x \<in> set w \<Longrightarrow> x \<notin> set default_delim"
  using assms by (auto simp: clean_def)

lemma strtok_skip: "c \<in> set delim \<Longrightarrow> strtok delim (c # s) = strtok delim s"
  by (simp add: strtok_def)

lemma take_line: "newline \<notin> set l \<Longrightarrow> takeWhile (\<lambda>c. c \<noteq> newline) (l @ newline # rest) = l"
  by (subst takeWhile_append2) auto

lemma drop_line: "newline \<notin> set l \<Longrightarrow> dropWhile (\<lambda>c. c \<noteq> newline) (l @ newline # rest) = newline # rest"
  by (subst dropWhile_append2) auto

lemma scan_setting:
  assumes "clean k" "clean v"
  shows "scan_lines default_delim key ((k @ '' = '' @ v) @ newline # rest) =
    (if k = key then Some v else scan_lines default_delim key rest)"
proof -
  have nl: "newline \<notin> set (k @ '' = '' @ v)" using assms by (auto simp: clean_def)
  have k: "strtok default_delim (k @ CHR '' '' # ''= '' @ v) = Some (k, ''= '' @ v)"
    by (rule strtok_word(1) [OF clean_word [OF assms(1)]]) simp_all
  have "strtok default_delim (''= '' @ v) = strtok default_delim v"
    by (simp add: strtok_skip)
  then have v: "strtok default_delim (''= '' @ v) = Some (v, [])"
    using strtok_word(2) [OF clean_word [OF assms(2)]] by simp
  show ?thesis
    using k v
    by (subst scan_lines.simps) (simp only: take_line [OF nl] drop_line [OF nl] Let_def, simp)
qed

lemma scan_blank: "scan_lines default_delim key (newline # rest) = scan_lines default_delim key rest"
  by (subst scan_lines.simps) (simp add: strtok_def)

lemma scan_stripped:
  "\<forall>l\<in>set ls. line_ok l \<Longrightarrow>
     scan_lines default_delim key (concat (map stripped_line ls)) = map_of (settings ls) key"
proof (induction ls rule: settings.induct)
  case 1
  then show ?case by (subst scan_lines.simps) (simp add: strtok_def)
next
  case (2 k v ls)
  then show ?case using scan_setting [of k v key "concat (map stripped_line ls)"] by simp
next
  case (3 t ls)
  then show ?case using scan_blank by simp
qed

lemma render_NUL_free: "\<forall>l\<in>set ls. line_ok l \<Longrightarrow> NUL \<notin> set (render ls)"
proof (induction ls)
  case Nil
  then show ?case by (simp add: render_def)
next
  case (Cons l ls)
  then have l: "line_ok l" and ls: "NUL \<notin> set (render ls)" by simp_all
  have "NUL \<notin> set (render_line l)" using l by (cases l) (auto simp: clean_def)
  with ls show ?case by (simp add: render_def)
qed

text \<open>A file that the system delivers in full, with a zero byte behind it in memory.\<close>

definition good_file :: "string \<Rightarrow> file_answers \<Rightarrow> bool" where
  "good_file bytes fa \<longleftrightarrow>
     fa_open fa \<and> fa_size fa = Some (int (length bytes)) \<and> fa_malloc_cp fa \<and> fa_malloc_data fa \<and>
     fa_read fa = Some bytes \<and> fa_behind fa \<noteq> [] \<and> hd (fa_behind fa) = NUL"

lemma config_parser_init_text:
  assumes "good_file bytes fa" "bytes \<noteq> []" "NUL \<notin> set bytes" "name \<noteq> []"
  shows "\<exists>cp. config_parser_init (Some name) fa = Parser cp \<and>
    c_str (cp_data cp) = strip_comments bytes \<and> cp_delim cp = default_delim"
proof -
  obtain j where j: "fa_behind fa = NUL # j"
    using assms(1) by (cases "fa_behind fa") (auto simp: good_file_def)
  have "\<exists>junk. remove_comments (length bytes) ([] @ bytes @ NUL # j) 0 =
      Some ([] @ strip_comments bytes @ NUL # junk)"
    by (rule remove_comments_strip) (use assms in auto)
  then obtain junk where r: "remove_comments (length bytes) (bytes @ NUL # j) 0 =
      Some (strip_comments bytes @ NUL # junk)" by auto
  have "NUL \<notin> set (strip_comments bytes)"
    using assms(3) by (induction bytes rule: strip_comments.induct)
      (auto dest: set_dropWhileD)
  then have "c_str (strip_comments bytes @ NUL # junk) = strip_comments bytes"
    by (simp add: c_str_append)
  then show ?thesis
    using assms r j by (auto simp: config_parser_init_def good_file_def)
qed

section \<open>Lookups in the loaded table\<close>

lemma hashmapCreate_12:
  "\<exists>m :: config_table. hashmapCreate True True 12 strhash strcompare = Some (Some m) \<and>
     hm_for strhash strcompare m \<and> (\<forall>k. hm_lookup m k = None)"
proof -
  have "double_buckets 16 1 = Some 32" by (simp add: double_buckets.simps push_bit_eq_mult)
  then obtain m :: config_table
    where m: "hashmapCreate True True 12 strhash strcompare = Some (Some m)"
    by (simp add: hashmapCreate_def calloc_fits_def)
  then show ?thesis
    using hashmapCreate_total [of True True 12 strhash strcompare, where ?'b = string] by auto
qed

lemma tc_distinct: "distinct tc_keys"
  unfolding tc_keys_def by simp

lemma put_lookup:
  assumes "hm_for strhash strcompare t"
  shows "hm_for strhash strcompare (fst (hashmapPut True calloc_ok t k v))"
    and "hm_lookup (fst (hashmapPut True calloc_ok t k v)) = (hm_lookup t)(k := Some v)"
  using str_map.ok_put [OF assms] str_map.look_put [OF assms, of calloc_ok k v]
  by (auto intro!: ext)

lemma override_lookup:
  assumes "hm_for strhash strcompare t" "key \<in> set tc_keys"
  shows "\<exists>t'. override True calloc_ok cp key (Some t) = Some t' \<and> hm_for strhash strcompare t' \<and>
    hm_lookup t' = (case config_parser_get (Some cp) key of
      None \<Rightarrow> hm_lookup t | Some v \<Rightarrow> (hm_lookup t)(key := Some (Some v)))"
proof (cases "config_parser_get (Some cp) key")
  case None
  then show ?thesis using assms by (simp add: override_def)
next
  case (Some v)
  then show ?thesis
    using assms put_lookup [OF assms(1), of calloc_ok key "Some v"]
    by (simp add: override_def tboot_config_set_def case_prod_beta)
qed

lemma fold_override:
  assumes "hm_for strhash strcompare t" "set keys \<subseteq> set tc_keys" "distinct keys"
  shows "\<exists>t'. fold (override True calloc_ok cp) keys (Some t) = Some t' \<and>
    hm_for strhash strcompare t' \<and>
    (\<forall>k. hm_lookup t' k =
      (case config_parser_get (Some cp) k of
         None \<Rightarrow> hm_lookup t k
       | Some v \<Rightarrow> if k \<in> set keys then Some (Some v) else hm_lookup t k))"
  using assms
proof (induction keys arbitrary: t)
  case Nil
  then show ?case by (auto split: option.splits)
next
  case (Cons x xs)
  obtain t1 where t1: "override True calloc_ok cp x (Some t) = Some t1" "hm_for strhash strcompare t1"
    "hm_lookup t1 = (case config_parser_get (Some cp) x of
      None \<Rightarrow> hm_lookup t | Some v \<Rightarrow> (hm_lookup t)(x := Some (Some v)))"
    using override_lookup [OF Cons.prems(1), of x calloc_ok cp] Cons.prems(2) by auto
  obtain t' where "fold (override True calloc_ok cp) xs (Some t1) = Some t'"
    "hm_for strhash strcompare t'"
    "\<forall>k. hm_lookup t' k =
      (case config_parser_get (Some cp) k of
         None \<Rightarrow> hm_lookup t1 k
       | Some v \<Rightarrow> if k \<in> set xs then Some (Some v) else hm_lookup t1 k)"
    using Cons.IH [OF t1(2)] Cons.prems by auto
  with t1 show ?case
    by (intro exI [of _ t']) (auto split: option.splits)
qed

lemma default_lookup:
  fixes calloc_ok :: bool
  assumes "hm_for strhash strcompare m" "\<And>k. hm_lookup m k = None"
  defines "t \<equiv> fold (\<lambda>(k, v) t. fst (hashmapPut True calloc_ok t k v)) (zip tc_keys tc_values) m"
  shows "hm_for strhash strcompare t" "hm_lookup t k = map_of (zip tc_keys tc_values) k"
proof -
  show "hm_for strhash strcompare t" unfolding t_def by (rule str_map.ok_puts [OF assms(1)])
  have "distinct (map fst (zip tc_keys tc_values))"
    using tc_distinct by (simp add: tc_keys_def tc_values_def)
  then show "hm_lookup t k = map_of (zip tc_keys tc_values) k"
    unfolding t_def using assms(2) by (simp add: str_map.look_puts [OF assms(1)] split: option.splits)
qed

text \<open>The table with every default value.\<close>

definition default_table :: config_table where
  "default_table =
     fold (\<lambda>(k, v) t. fst (hashmapPut True True t k v)) (zip tc_keys tc_values) hm_example"

lemma default_table_get:
  "tboot_config_get (Some default_table) k = Option.bind (map_of (zip tc_keys tc_values) k) id"
  using default_lookup(2) [OF hm_example_ok, where calloc_ok = True and k = k]
  by (simp add: hm_example_empty default_table_def tboot_config_get_def str_keys.get_lookup str_keys.contains_lookup)

section \<open>Properties\<close>


definition example_lines :: "conf_line list" where
  "example_lines = [Comment '' preos'', Setting ''push_dir'' ''/data'', Setting ''battery_threshold'' ''20'']"

definition example_file :: file_answers where
  "example_file = \<lparr>fa_open = True, fa_size = Some (int (length (render example_lines))),
     fa_malloc_cp = True, fa_malloc_data = True, fa_read = Some (render example_lines),
     fa_behind = [NUL]\<rparr>"

lemma example_lines_ok: "\<forall>l\<in>set example_lines. line_ok l"
  by (simp add: example_lines_def clean_def)

lemma example_file_ok: "good_file (render example_lines) example_file"
  by (simp add: good_file_def example_file_def)


text \<open>
  C25. After a successful load every known keyword has the value the file gives it, or else its
  default, and a lookup of any other keyword fails. The growth of the table on the way loses
  nothing.
\<close>

theorem load_config_values:
  assumes "config_parser_init (Some file) fa = Parser cp" "file \<noteq> []"
  shows "\<exists>tc. load_config (Some file) fa True True True calloc_ok = Some (0, tc) \<and>
    (\<forall>key. tboot_config_get tc key =
      (if key \<in> set tc_keys
       then (case config_parser_get (Some cp) key of
               None \<Rightarrow> Option.bind (map_of (zip tc_keys tc_values) key) id
             | Some v \<Rightarrow> Some v)
       else None))"
proof -
  obtain m :: config_table where m: "hashmapCreate True True 12 strhash strcompare = Some (Some m)"
    and ok: "hm_for strhash strcompare m" and empty: "\<And>k. hm_lookup m k = None"
    using hashmapCreate_12 by blast
  define t where "t = fold (\<lambda>(k, v) t. fst (hashmapPut True calloc_ok t k v)) (zip tc_keys tc_values) m"
  obtain t' where t': "fold (override True calloc_ok cp) tc_keys (Some t) = Some t'"
    "\<forall>k. hm_lookup t' k =
      (case config_parser_get (Some cp) k of
         None \<Rightarrow> hm_lookup t k
       | Some v \<Rightarrow> if k \<in> set tc_keys then Some (Some v) else hm_lookup t k)"
    using fold_override [OF default_lookup(1) [OF ok empty], of tc_keys] tc_distinct
    unfolding t_def by blast
  have t: "hm_lookup t k = map_of (zip tc_keys tc_values) k" for k
    unfolding t_def by (rule default_lookup(2) [OF ok empty])
  have none: "map_of (zip tc_keys tc_values) k = None" if "k \<notin> set tc_keys" for k
    using that by (auto simp: map_of_eq_None_iff dest: set_zip_leftD)
  have "load_config (Some file) fa True True True calloc_ok = Some (0, Some t')"
    using assms m t'(1) by (simp add: load_config_def t_def)
  then show ?thesis
    using t'(2) t none
    by (auto simp: tboot_config_get_def str_keys.get_lookup str_keys.contains_lookup
        split: option.splits)
qed

theorem load_config_values_witness:
  "\<exists>tc. load_config (Some ''f'') example_file True True True True = Some (0, tc) \<and>
     tboot_config_get tc ''push_dir'' = Some ''/data'' \<and>
     tboot_config_get tc ''rootfs'' = Some ''/dev/mmcblk1'' \<and>
     tboot_config_get tc ''ui_conf'' = None \<and> tboot_config_get tc ''nonsense'' = None"
proof -
  have "render example_lines \<noteq> []" by (simp add: example_lines_def render_def)
  then obtain cp where cp: "config_parser_init (Some ''f'') example_file = Parser cp"
    "c_str (cp_data cp) = strip_comments (render example_lines)" "cp_delim cp = default_delim"
    using config_parser_init_text [OF example_file_ok _ render_NUL_free [OF example_lines_ok], of "''f''"]
    by auto
  have get: "config_parser_get (Some cp) key = map_of (settings example_lines) key" if "key \<noteq> []" for key
    using cp(2,3) scan_stripped [OF example_lines_ok] strip_render [OF example_lines_ok] that
    by (simp add: config_parser_get_def)
  show ?thesis
    using load_config_values [OF cp(1), of True]
    by (auto simp: get example_lines_def tc_keys_def tc_values_def)
qed

end
