(* ===== verification/Backlight.thy ===== *)
theory Backlight
  imports Tboot_Config "HOL-Library.Signed_Division"
begin

text \<open>
  The backlight state machine of \<^verbatim>\<open>src/backlight_control.c\<close>. A state is the function that the
  global pointer \<^verbatim>\<open>lcd_state\<close> holds. The three sysfs files are part of the state: \<open>None\<close> for a file
  that cannot be opened, otherwise its text (the maximum) or the number last written.
\<close>

section \<open>Model\<close>

datatype lcd_event = LCD_COMMAND | LCD_KEY | LCD_IDLE | LCD_USB_EVENT

datatype lcd_state_t = Lcd_on | Lcd_dim | Lcd_off

record panel =
  max_brightness :: "string option"
  brightness :: "int option"
  fb0_blank :: "int option"

text \<open>\<^verbatim>\<open>fscanf\<close> with \<^verbatim>\<open>%d\<close>: a number, or \<open>None\<close> when no digit follows the optional sign.\<close>

definition scan_int :: "string \<Rightarrow> int option" where
  "scan_int s =
     (case snd (skip_sign (dropWhile isspace s)) of
        [] \<Rightarrow> None
      | c # cs \<Rightarrow> if isdigit c then Some (strtol 32 10 s) else None)"

text \<open>Two's complement reading of an \<^verbatim>\<open>int\<close> result.\<close>

definition wrap32 :: "int \<Rightarrow> int" where
  "wrap32 i = sint (word_of_int i :: u32)"

definition write_fb0_blank :: "int \<Rightarrow> panel \<Rightarrow> panel \<times> int" where
  "write_fb0_blank nu p =
     (case fb0_blank p of None \<Rightarrow> (p, -1) | Some _ \<Rightarrow> (p\<lparr>fb0_blank := Some nu\<rparr>, 0))"

definition set_bl_brightness :: "int \<Rightarrow> panel \<Rightarrow> panel \<times> int" where
  "set_bl_brightness percent p =
     (if percent < 0 \<or> percent > 100 then (p, -1)
      else case max_brightness p of
             None \<Rightarrow> (p, -1)
           | Some txt \<Rightarrow>
               let bri = (case scan_int txt of
                            Some max_bri \<Rightarrow>
                              if max_bri > 0 then wrap32 (max_bri * percent) sdiv 100 else 1
                          | None \<Rightarrow> 1)
               in (case brightness p of
                     None \<Rightarrow> (p, -1)
                   | Some _ \<Rightarrow> (p\<lparr>brightness := Some bri\<rparr>, 0)))"

definition lcd_lighton :: "panel \<Rightarrow> panel \<times> int" where
  "lcd_lighton p = write_fb0_blank 0 (fst (set_bl_brightness 100 p))"

definition lcd_lightoff :: "panel \<Rightarrow> panel \<times> int" where
  "lcd_lightoff p = write_fb0_blank 1 p"

text \<open>
  \<open>dim\<close> is the value of \<^verbatim>\<open>atoi (tboot_config_get (LCD_DIM_BRIGHTNESS_KEY))\<close>.
\<close>

definition lcd_state_on :: "int \<Rightarrow> lcd_event \<Rightarrow> panel \<Rightarrow> panel \<times> lcd_state_t" where
  "lcd_state_on dim ev p =
     (case ev of
        LCD_IDLE \<Rightarrow> (fst (set_bl_brightness dim p), Lcd_dim)
      | _ \<Rightarrow> (p, Lcd_on))"

definition lcd_state_dim :: "lcd_event \<Rightarrow> panel \<Rightarrow> panel \<times> lcd_state_t" where
  "lcd_state_dim ev p =
     (case ev of
        LCD_IDLE \<Rightarrow> (fst (lcd_lightoff p), Lcd_off)
      | LCD_COMMAND \<Rightarrow> (fst (lcd_lighton p), Lcd_on)
      | LCD_KEY \<Rightarrow> (fst (lcd_lighton p), Lcd_on)
      | LCD_USB_EVENT \<Rightarrow> (fst (lcd_lighton p), Lcd_on))"

definition lcd_state_off :: "lcd_event \<Rightarrow> panel \<Rightarrow> panel \<times> lcd_state_t" where
  "lcd_state_off ev p =
     (case ev of
        LCD_COMMAND \<Rightarrow> (fst (lcd_lighton p), Lcd_on)
      | LCD_KEY \<Rightarrow> (fst (lcd_lighton p), Lcd_on)
      | LCD_USB_EVENT \<Rightarrow> (fst (lcd_lighton p), Lcd_on)
      | LCD_IDLE \<Rightarrow> (p, Lcd_off))"

text \<open>The call \<^verbatim>\<open>lcd_state = lcd_state (ev)\<close> through the pointer.\<close>

definition lcd_dispatch :: "int \<Rightarrow> lcd_state_t \<Rightarrow> lcd_event \<Rightarrow> panel \<Rightarrow> panel \<times> lcd_state_t" where
  "lcd_dispatch dim st ev p =
     (case st of
        Lcd_on \<Rightarrow> lcd_state_on dim ev p
      | Lcd_dim \<Rightarrow> lcd_state_dim ev p
      | Lcd_off \<Rightarrow> lcd_state_off ev p)"

section \<open>The documented automaton\<close>

text \<open>The table in the comment of \<^verbatim>\<open>backlight_control.h\<close>, as a relation.\<close>

inductive lcd_table :: "lcd_state_t \<Rightarrow> lcd_event \<Rightarrow> lcd_state_t \<Rightarrow> bool" where
  on_idle: "lcd_table Lcd_on LCD_IDLE Lcd_dim"
| on_stay: "ev \<noteq> LCD_IDLE \<Longrightarrow> lcd_table Lcd_on ev Lcd_on"
| dim_idle: "lcd_table Lcd_dim LCD_IDLE Lcd_off"
| dim_wake: "ev \<noteq> LCD_IDLE \<Longrightarrow> lcd_table Lcd_dim ev Lcd_on"
| off_wake: "ev \<noteq> LCD_IDLE \<Longrightarrow> lcd_table Lcd_off ev Lcd_on"
| off_stay: "lcd_table Lcd_off LCD_IDLE Lcd_off"

lemma lcd_dispatch_table: "lcd_table st ev (snd (lcd_dispatch dim st ev p))"
  by (cases st; cases ev)
     (auto simp: lcd_dispatch_def lcd_state_on_def lcd_state_dim_def lcd_state_off_def
        intro: lcd_table.intros)

section \<open>Panel and state agree\<close>

text \<open>A panel whose three files can be opened and whose maximum is a sensible number.\<close>

definition panel_works :: "int \<Rightarrow> panel \<Rightarrow> bool" where
  "panel_works mx p \<longleftrightarrow> 0 < mx \<and> mx \<le> 20000000 \<and>
     (\<exists>txt. max_brightness p = Some txt \<and> scan_int txt = Some mx) \<and>
     brightness p \<noteq> None \<and> fb0_blank p \<noteq> None"

definition agrees :: "int \<Rightarrow> int \<Rightarrow> lcd_state_t \<Rightarrow> panel \<Rightarrow> bool" where
  "agrees mx dim st p =
     (case st of
        Lcd_on \<Rightarrow> fb0_blank p = Some 0 \<and> brightness p = Some mx
      | Lcd_dim \<Rightarrow> fb0_blank p = Some 0 \<and> brightness p = Some (mx * dim div 100)
      | Lcd_off \<Rightarrow> fb0_blank p = Some 1)"

lemma wrap32_small: "0 \<le> i \<Longrightarrow> i < 2147483648 \<Longrightarrow> wrap32 i = i"
  unfolding wrap32_def sint_word_ariths sint_uint uint_word_of_int
  by (simp add: signed_take_bit_take_bit signed_take_bit_int_eq_self)

lemma sdiv_nonneg: "0 \<le> (a :: int) \<Longrightarrow> 0 < b \<Longrightarrow> a sdiv b = a div b"
  by (simp add: signed_divide_int_def sgn_if)

lemma set_brightness_works:
  assumes "panel_works mx p" "0 \<le> pc" "pc \<le> 100"
  shows "set_bl_brightness pc p = (p\<lparr>brightness := Some (mx * pc div 100)\<rparr>, 0)"
proof -
  have "mx * pc \<le> 20000000 * 100" using assms by (intro mult_mono) (auto simp: panel_works_def)
  then have "wrap32 (mx * pc) sdiv 100 = mx * pc div 100"
    using assms by (simp add: wrap32_small sdiv_nonneg panel_works_def)
  with assms show ?thesis by (auto simp: set_bl_brightness_def panel_works_def)
qed

lemma lcd_dispatch_agrees:
  assumes "panel_works mx p" "agrees mx dim st p" "0 \<le> dim" "dim \<le> 100"
  shows "panel_works mx (fst (lcd_dispatch dim st ev p)) \<and>
    agrees mx dim (snd (lcd_dispatch dim st ev p)) (fst (lcd_dispatch dim st ev p))"
proof -
  obtain b where b: "fb0_blank p = Some b" using assms(1) by (auto simp: panel_works_def)
  have w: "panel_works mx (p\<lparr>brightness := Some x, fb0_blank := Some y\<rparr>)"
    "panel_works mx (p\<lparr>brightness := Some x\<rparr>)" "panel_works mx (p\<lparr>fb0_blank := Some y\<rparr>)" for x y
    using assms(1) by (auto simp: panel_works_def)
  note [simp] = lcd_dispatch_def lcd_state_on_def lcd_state_dim_def lcd_state_off_def
    lcd_lighton_def lcd_lightoff_def write_fb0_blank_def agrees_def b w
    set_brightness_works [OF assms(1) assms(3,4)]
    set_brightness_works [OF assms(1), of 100, simplified]
  show ?thesis
    using assms(1,2) by (cases st; cases ev) simp_all
qed

section \<open>Properties\<close>

text \<open>A run of the machine over a list of events.\<close>

fun lcd_run :: "int \<Rightarrow> lcd_event list \<Rightarrow> lcd_state_t \<times> panel \<Rightarrow> lcd_state_t \<times> panel" where
  "lcd_run dim [] s = s"
| "lcd_run dim (ev # evs) (st, p) =
     (case lcd_dispatch dim st ev p of (p', st') \<Rightarrow> lcd_run dim evs (st', p'))"

text \<open>
  C12. On a panel whose sysfs files work, the panel shows what the backlight state says after any
  sequence of events: fully lit when on, at the configured percentage when dim, blanked when off.
  Every step is the one the table in the header documents; two idle events in a row switch the panel
  off from any state, any other event switches it on.
\<close>

theorem lcd_panel_agrees:
  assumes "panel_works mx p" "agrees mx dim st p" "0 \<le> dim" "dim \<le> 100"
  shows "(case lcd_run dim evs (st, p) of (st', p') \<Rightarrow> agrees mx dim st' p') \<and>
    lcd_table st ev (snd (lcd_dispatch dim st ev p)) \<and>
    fst (lcd_run dim [LCD_IDLE, LCD_IDLE] (st, p)) = Lcd_off \<and>
    (ev \<noteq> LCD_IDLE \<longrightarrow> fst (lcd_run dim [ev] (st, p)) = Lcd_on)"
proof (intro conjI)
  show "case lcd_run dim evs (st, p) of (st', p') \<Rightarrow> agrees mx dim st' p'"
    using assms
  proof (induction evs arbitrary: st p)
    case Nil
    then show ?case by simp
  next
    case (Cons e evs)
    obtain p' st' where d: "lcd_dispatch dim st e p = (p', st')" by (cases "lcd_dispatch dim st e p")
    have "panel_works mx p'" "agrees mx dim st' p'"
      using lcd_dispatch_agrees [OF Cons.prems, of e] d by simp_all
    with Cons.IH [of p' st'] Cons.prems d show ?case by simp
  qed
  note defs = lcd_dispatch_def lcd_state_on_def lcd_state_dim_def lcd_state_off_def
  show "lcd_table st ev (snd (lcd_dispatch dim st ev p))" by (rule lcd_dispatch_table)
  show "fst (lcd_run dim [LCD_IDLE, LCD_IDLE] (st, p)) = Lcd_off"
    by (cases st) (simp_all add: defs)
  show "ev \<noteq> LCD_IDLE \<longrightarrow> fst (lcd_run dim [ev] (st, p)) = Lcd_on"
    by (cases st; cases ev) (simp_all add: defs)
qed

definition example_panel :: panel where
  "example_panel = \<lparr>max_brightness = Some ''100'', brightness = Some 100, fb0_blank = Some 0\<rparr>"

lemma example_panel_works: "panel_works 100 example_panel"
  by (simp add: panel_works_def example_panel_def scan_int_def strtol_def isspace_def isdigit_def
      digit_value_def)

theorem lcd_panel_agrees_witness:
  "panel_works 100 example_panel \<and> agrees 100 10 Lcd_on example_panel \<and>
   (case lcd_run 10 [LCD_IDLE] (Lcd_on, example_panel) of (st, p) \<Rightarrow> agrees 100 10 st p) \<and>
   fst (lcd_run 10 [LCD_KEY] (Lcd_on, example_panel)) = Lcd_on"
proof -
  have a: "agrees 100 10 Lcd_on example_panel" by (simp add: agrees_def example_panel_def)
  show ?thesis
    using lcd_panel_agrees [OF example_panel_works a, of "[LCD_IDLE]" LCD_KEY] example_panel_works a
    by simp
qed

end
