(* ===== verification/Uevent.thy ===== *)
theory Uevent
  imports Tboot_Config
begin

text \<open>
  Kernel events about USB, charger and battery: \<^verbatim>\<open>src/uevent.c\<close>, with the platform number of
  \<^verbatim>\<open>src/platform.c\<close> that selects the device paths.

  Reading a sysfs file is a parameter: \<open>read_sys path\<close> is the text of the file, \<open>None\<close> when it cannot
  be opened or read.
\<close>

section \<open>Platform\<close>

definition PLATFORM_UNKNOWN :: int where "PLATFORM_UNKNOWN = 0"
definition PLATFORM_BLACKBAY :: int where "PLATFORM_BLACKBAY = 1"
definition PLATFORM_REDRIDGE :: int where "PLATFORM_REDRIDGE = 2"
definition PLATFORM_REDHOOKBAY :: int where "PLATFORM_REDHOOKBAY = 3"
definition PLATFORM_MAX :: int where "PLATFORM_MAX = 3"

lemmas platform_defs = PLATFORM_UNKNOWN_def PLATFORM_BLACKBAY_def PLATFORM_REDRIDGE_def
  PLATFORM_REDHOOKBAY_def PLATFORM_MAX_def

text \<open>The new platform number and the return value.\<close>

definition set_current_platform :: "int \<Rightarrow> int \<Rightarrow> int \<times> int" where
  "set_current_platform p plat =
     (if p < PLATFORM_UNKNOWN \<or> p > PLATFORM_MAX then (plat, -1) else (p, 0))"

section \<open>Events\<close>

datatype device_type = TYPE_UNKNOWN | TYPE_USB | TYPE_BATTERY | TYPE_CHARGER

datatype status = STATUS_DISCONNECTED | STATUS_CONNECTED | STATUS_UNKOWN

record device_mapping =
  dm_plat :: int
  dm_type :: device_type
  dm_path :: string
  dm_file :: string

definition mapping :: "int \<Rightarrow> device_type \<Rightarrow> string \<Rightarrow> string \<Rightarrow> device_mapping" where
  "mapping plat ty path file = \<lparr>dm_plat = plat, dm_type = ty, dm_path = path, dm_file = file\<rparr>"

definition uevent_action :: "string list" where
  "uevent_action = [''change'']"

definition uevent_path :: "device_mapping list" where
  "uevent_path =
    [mapping PLATFORM_BLACKBAY TYPE_USB ''/devices/virtual/usb_mode/usb0'' ''state'',
     mapping PLATFORM_BLACKBAY TYPE_BATTERY
       ''/devices/pci0000:00/0000:00:00.4/i2c-1/1-0036/power_supply/max17042_battery'' ''capacity'',
     mapping PLATFORM_BLACKBAY TYPE_CHARGER
       ''/devices/platform/intel_msic/msic_battery/power_supply/msic_charger'' ''online'',
     mapping PLATFORM_BLACKBAY TYPE_USB ''/devices/virtual/usb_mode/usb0'' ''state'',
     mapping PLATFORM_BLACKBAY TYPE_BATTERY
       ''/devices/pci0000:00/0000:00:00.4/i2c-1/1-0036/power_supply/max170xx_battery'' ''capacity'',
     mapping PLATFORM_BLACKBAY TYPE_CHARGER
       ''/devices/ipc/msic_battery/power_supply/msic_charger'' ''online'',
     mapping PLATFORM_REDRIDGE TYPE_USB ''/devices/virtual/usb_mode/usb0'' ''state'',
     mapping PLATFORM_REDRIDGE TYPE_BATTERY
       ''/devices/pci0000:00/0000:00:00.4/i2c-1/1-0036/power_supply/max17042_battery'' ''capacity'',
     mapping PLATFORM_REDRIDGE TYPE_CHARGER
       ''/devices/pci0000:00/0000:00:00.4/i2c-1/1-0006/power_supply/smb347-mains'' ''online'',
     mapping PLATFORM_REDRIDGE TYPE_BATTERY
       ''/devices/pci0000:00/0000:00:00.4/i2c-1/1-0036/power_supply/max170xx_battery'' ''capacity'',
     mapping PLATFORM_REDHOOKBAY TYPE_USB ''/devices/virtual/usb_mode/usb0'' ''state'',
     mapping PLATFORM_REDHOOKBAY TYPE_BATTERY
       ''/devices/pci0000:00/0000:00:00.5/i2c-2/2-0036/power_supply/max17047_battery'' ''capacity'',
     mapping PLATFORM_REDHOOKBAY TYPE_CHARGER
       ''/devices/pci0000:00/0000:00:00.5/i2c-2/2-006b'' ''online'']"

record uevent_status =
  usb_status :: status
  charger_status :: status
  battery_capacity :: int

text \<open>What one reading of a device file does to the status, by the device's type.\<close>

definition update_status :: "device_type \<Rightarrow> string \<Rightarrow> uevent_status \<Rightarrow> uevent_status" where
  "update_status ty buf st =
     (case ty of
        TYPE_USB \<Rightarrow>
          st\<lparr>usb_status := (if starts_with ''CONFIGURED'' buf then STATUS_CONNECTED
                            else if starts_with ''DISCONNECTED'' buf then STATUS_DISCONNECTED
                            else STATUS_UNKOWN)\<rparr>
      | TYPE_CHARGER \<Rightarrow>
          st\<lparr>charger_status := (if atoi buf \<noteq> 0 then STATUS_CONNECTED else STATUS_DISCONNECTED)\<rparr>
      | TYPE_BATTERY \<Rightarrow> st\<lparr>battery_capacity := atoi buf\<rparr>
      | TYPE_UNKNOWN \<Rightarrow> st)"

text \<open>
  \<open>None\<close>: the event has no \<open>@\<close>, and the pointer \<^verbatim>\<open>strchr (uevent, '@') + 1\<close> is invalid. The buffer holds
  at most 15 bytes of the file.
\<close>

definition parse_uevent :: "(string \<Rightarrow> string option) \<Rightarrow> int \<Rightarrow> string \<Rightarrow> uevent_status
    \<Rightarrow> uevent_status option" where
  "parse_uevent read_sys plat uevent st =
     (if find (\<lambda>action. starts_with action uevent) uevent_action = None then Some st
      else case strchr uevent (CHR ''@'') of
             None \<Rightarrow> None
           | Some at \<Rightarrow>
               let p = tl at
               in (case find (\<lambda>dm. dm_plat dm = plat \<and> starts_with (dm_path dm) p) uevent_path of
                     None \<Rightarrow> Some st
                   | Some dm \<Rightarrow>
                       (case read_sys (''/sys'' @ dm_path dm @ ''/'' @ dm_file dm) of
                          None \<Rightarrow> Some st
                        | Some txt \<Rightarrow> Some (update_status (dm_type dm) (c_str (take 15 txt)) st))))"

fun status_init :: "(string \<Rightarrow> string option) \<Rightarrow> int \<Rightarrow> device_mapping list \<Rightarrow> uevent_status
    \<Rightarrow> uevent_status option" where
  "status_init read_sys plat [] st = Some st"
| "status_init read_sys plat (dm # dms) st =
     (if dm_plat dm = plat
      then Option.bind (parse_uevent read_sys plat (''change@'' @ dm_path dm) st)
             (status_init read_sys plat dms)
      else status_init read_sys plat dms st)"

definition uevent_status_init :: "(string \<Rightarrow> string option) \<Rightarrow> int \<Rightarrow> uevent_status
    \<Rightarrow> uevent_status option" where
  "uevent_status_init read_sys plat st = status_init read_sys plat uevent_path st"

text \<open>
  The body of the receive loop on one datagram: too short or without \<^verbatim>\<open>@/\<close> it is ignored, otherwise it
  is parsed and the callback runs. The result says whether the callback is due.
\<close>

definition receive_uevent :: "(string \<Rightarrow> string option) \<Rightarrow> int \<Rightarrow> string \<Rightarrow> uevent_status
    \<Rightarrow> (uevent_status \<times> bool) option" where
  "receive_uevent read_sys plat msg st =
     (if length msg < 4 then Some (st, False)
      else if strstr (c_str msg) ''@/'' = None then Some (st, False)
      else map_option (\<lambda>st'. (st', True)) (parse_uevent read_sys plat (c_str msg) st))"

section \<open>Properties\<close>

lemma starts_with_chars: "starts_with p s \<Longrightarrow> set p \<subseteq> set s"
  by (metis starts_with_def set_take_subset)

lemma strstr_chars: "strstr s p = Some t \<Longrightarrow> set p \<subseteq> set s"
proof (induction s arbitrary: t)
  case Nil
  then show ?case by (auto split: if_splits)
next
  case (Cons x xs)
  show ?case
  proof (cases "starts_with p (x # xs)")
    case True
    then show ?thesis by (rule starts_with_chars)
  next
    case False
    then show ?thesis using Cons by auto
  qed
qed

lemma parse_uevent_defined: "CHR ''@'' \<in> set ev \<Longrightarrow> parse_uevent read_sys plat ev st \<noteq> None"
  using strchr_None_iff [of ev "CHR ''@''"]
  by (auto simp: parse_uevent_def Let_def split: option.splits)

text \<open>
  Whatever path of its platform an event starts with, every entry with a matching path has the same
  type and the same file.
\<close>

definition entries_agree :: bool where
  "entries_agree \<longleftrightarrow>
     (\<forall>a\<in>set uevent_path. \<forall>b\<in>set uevent_path.
        dm_plat a = dm_plat b \<and>
        (starts_with (dm_path a) (dm_path b) \<or> starts_with (dm_path b) (dm_path a)) \<longrightarrow> a = b)"

lemma entries_agree: entries_agree
  by code_simp

lemma starts_with_comparable:
  assumes "starts_with p s" "starts_with q s"
  shows "starts_with p q \<or> starts_with q p"
proof -
  obtain u where "s = p @ u" using assms(1) by (auto simp: starts_with_iff)
  moreover obtain v where "s = q @ v" using assms(2) by (auto simp: starts_with_iff)
  ultimately have "p @ u = q @ v" by simp
  then show ?thesis by (auto simp: append_eq_append_conv2 starts_with_iff)
qed

lemma find_entry:
  assumes "dm \<in> set uevent_path" "starts_with (dm_path dm) p"
  shows "find (\<lambda>d. dm_plat d = dm_plat dm \<and> starts_with (dm_path d) p) uevent_path = Some dm"
proof (cases "find (\<lambda>d. dm_plat d = dm_plat dm \<and> starts_with (dm_path d) p) uevent_path")
  case None
  then show ?thesis using assms by (auto simp: find_None_iff)
next
  case (Some d)
  then have "d \<in> set uevent_path" "dm_plat d = dm_plat dm" "starts_with (dm_path d) p"
    by (auto simp: find_Some_iff)
  then have "d = dm"
    using entries_agree starts_with_comparable [OF _ assms(2)] assms(1)
    unfolding entries_agree_def by blast
  with Some show ?thesis by simp
qed


definition example_status :: uevent_status where
  "example_status =
     \<lparr>usb_status = STATUS_UNKOWN, charger_status = STATUS_CONNECTED, battery_capacity = 3\<rparr>"



end
