(* ===== verification/Tboot_State.thy ===== *)
theory Tboot_State
  imports Backlight Uevent
begin

text \<open>
  The globals of \<^verbatim>\<open>src/tboot.c\<close> that the fastboot server shares with the other threads, and the small
  functions and macros of \<^verbatim>\<open>tboot.c\<close> and \<^verbatim>\<open>tboot.h\<close> on them: the idle alarm, the backlight pointer,
  the countdown flag, the key lock and the battery check. Calls into the screen code are recorded in
  \<open>ui_log\<close>. The field \<open>ub\<close> is set where the C program dereferences an invalid pointer; a state with
  \<open>ub\<close> says nothing about what the program does next.
\<close>

section \<open>State\<close>

datatype ui_call = Textbar int string | Log_info string | Log_warn string | Log_error string

record globals =
  tboot_config :: "config_table option"
  lcd_state :: lcd_state_t
  lcd_panel :: panel
  alarm_left :: nat
  uevents :: uevent_status
  autoboot_enabled :: bool
  power_pressed :: bool
  ignore_keypress :: bool
  action_mutex :: bool
  pipe_broken :: bool
  ui_log :: "ui_call list"
  ub :: bool

section \<open>Screen calls\<close>

definition tboot_ui_textbar :: "int \<Rightarrow> string \<Rightarrow> 'z globals_scheme \<Rightarrow> 'z globals_scheme" where
  "tboot_ui_textbar percent txt s = s\<lparr>ui_log := ui_log s @ [Textbar percent txt]\<rparr>"

text \<open>A percentage above 100 makes the text bar draw a bouncing block.\<close>

definition BAR_BOUNCE :: int where
  "BAR_BOUNCE = 101"

definition tboot_ui_hidebar :: "string \<Rightarrow> 'z globals_scheme \<Rightarrow> 'z globals_scheme" where
  "tboot_ui_hidebar txt = tboot_ui_textbar 0 txt"

definition tboot_ui_bouncebar :: "string \<Rightarrow> 'z globals_scheme \<Rightarrow> 'z globals_scheme" where
  "tboot_ui_bouncebar txt = tboot_ui_textbar BAR_BOUNCE txt"

definition tboot_ui_info :: "string \<Rightarrow> 'z globals_scheme \<Rightarrow> 'z globals_scheme" where
  "tboot_ui_info txt s =
     (let s1 = tboot_ui_hidebar [] s in s1\<lparr>ui_log := ui_log s1 @ [Log_info txt]\<rparr>)"

definition tboot_ui_warn :: "string \<Rightarrow> 'z globals_scheme \<Rightarrow> 'z globals_scheme" where
  "tboot_ui_warn txt s = s\<lparr>ui_log := ui_log s @ [Log_warn txt]\<rparr>"

definition tboot_ui_error :: "string \<Rightarrow> 'z globals_scheme \<Rightarrow> 'z globals_scheme" where
  "tboot_ui_error txt s =
     (let s1 = tboot_ui_hidebar [] s in s1\<lparr>ui_log := ui_log s1 @ [Log_error txt]\<rparr>)"

section \<open>Alarm, backlight, battery\<close>

text \<open>
  \<^verbatim>\<open>atoi (tboot_config_get (key))\<close>: reading through NULL when the key has no value.
\<close>

definition config_atoi :: "string \<Rightarrow> 'z globals_scheme \<Rightarrow> int \<times> 'z globals_scheme" where
  "config_atoi key s =
     (case tboot_config_get (tboot_config s) key of
        None \<Rightarrow> (0, s\<lparr>ub := True\<rparr>)
      | Some v \<Rightarrow> (atoi v, s))"

definition c_alarm :: "int \<Rightarrow> 'z globals_scheme \<Rightarrow> 'z globals_scheme" where
  "c_alarm secs s = s\<lparr>alarm_left := unat (word_of_int secs :: u32)\<rparr>"

definition CLEAR_ALARM :: "'z globals_scheme \<Rightarrow> 'z globals_scheme" where
  "CLEAR_ALARM s = c_alarm 0 s"

definition RESET_ALARM :: "'z globals_scheme \<Rightarrow> 'z globals_scheme" where
  "RESET_ALARM s =
     (case config_atoi ''lcd_dim_timeout'' (c_alarm 0 s) of (secs, s1) \<Rightarrow> c_alarm secs s1)"

text \<open>\<^verbatim>\<open>lcd_state = (lcd_state_t) lcd_state (ev)\<close>.\<close>

definition lcd_signal :: "lcd_event \<Rightarrow> 'z globals_scheme \<Rightarrow> 'z globals_scheme" where
  "lcd_signal ev s =
     (let (dim, s1) = (if lcd_state s = Lcd_on \<and> ev = LCD_IDLE
                       then config_atoi ''lcd_dim_brightness'' s else (0, s));
          (p, st) = lcd_dispatch dim (lcd_state s1) ev (lcd_panel s1)
      in s1\<lparr>lcd_state := st, lcd_panel := p\<rparr>)"

definition lcd_state_init :: "'z globals_scheme \<Rightarrow> 'z globals_scheme" where
  "lcd_state_init s = RESET_ALARM (s\<lparr>lcd_state := Lcd_on\<rparr>)"

definition disable_autoboot :: "'z globals_scheme \<Rightarrow> 'z globals_scheme" where
  "disable_autoboot s = (if autoboot_enabled s then s\<lparr>autoboot_enabled := False\<rparr> else s)"

definition enable_keypress :: "'z globals_scheme \<Rightarrow> 'z globals_scheme" where
  "enable_keypress s = s\<lparr>ignore_keypress := False\<rparr>"

definition disable_keypress :: "'z globals_scheme \<Rightarrow> 'z globals_scheme" where
  "disable_keypress s = s\<lparr>ignore_keypress := True\<rparr>"

definition check_battery :: "'z globals_scheme \<Rightarrow> int \<times> 'z globals_scheme" where
  "check_battery s =
     (case config_atoi ''battery_threshold'' s of
        (bat_threshold, s1) \<Rightarrow>
          if battery_capacity (uevents s1) < bat_threshold then (-1, s1) else (0, s1))"

lemmas ui_defs = tboot_ui_textbar_def tboot_ui_hidebar_def tboot_ui_bouncebar_def tboot_ui_info_def
  tboot_ui_warn_def tboot_ui_error_def

lemmas globals_defs = ui_defs config_atoi_def c_alarm_def CLEAR_ALARM_def RESET_ALARM_def
  lcd_signal_def disable_autoboot_def enable_keypress_def disable_keypress_def check_battery_def

text \<open>
  The functions above only touch these globals: what a later component adds to the record is left
  alone.
\<close>

lemma globals_more [frame_simps]:
  "globals.more (tboot_ui_textbar n t s) = globals.more s"
  "globals.more (tboot_ui_hidebar t s) = globals.more s"
  "globals.more (tboot_ui_bouncebar t s) = globals.more s"
  "globals.more (tboot_ui_info t s) = globals.more s"
  "globals.more (tboot_ui_warn t s) = globals.more s"
  "globals.more (tboot_ui_error t s) = globals.more s"
  "globals.more (CLEAR_ALARM s) = globals.more s"
  "globals.more (RESET_ALARM s) = globals.more s"
  "globals.more (lcd_signal ev s) = globals.more s"
  "globals.more (disable_autoboot s) = globals.more s"
  "globals.more (enable_keypress s) = globals.more s"
  "globals.more (disable_keypress s) = globals.more s"
  "globals.more (snd (config_atoi k s)) = globals.more s"
  "globals.more (snd (check_battery s)) = globals.more s"
  by (simp_all add: globals_defs Let_def split: option.split prod.split)

text \<open>When the configuration was loaded, none of these functions reads through NULL.\<close>

definition config_loaded :: "'z globals_scheme \<Rightarrow> bool" where
  "config_loaded s \<longleftrightarrow>
     (\<forall>k\<in>{''lcd_dim_timeout'', ''lcd_off_timeout'', ''lcd_dim_brightness'', ''battery_threshold''}.
        tboot_config_get (tboot_config s) k \<noteq> None)"

lemma config_atoi_loaded:
  "config_loaded s \<Longrightarrow> k \<in> {''lcd_dim_timeout'', ''lcd_off_timeout'', ''lcd_dim_brightness'', ''battery_threshold''}
     \<Longrightarrow> config_atoi k s = (atoi (the (tboot_config_get (tboot_config s) k)), s)"
  by (auto simp: config_loaded_def config_atoi_def)

section \<open>Idle time\<close>

text \<open>
  The branch of \<^verbatim>\<open>sig_handler\<close> for \<^verbatim>\<open>SIGALRM\<close>, given whether a fastboot command is active. While one is
  active the signal is dropped.
\<close>

definition sig_alarm :: "bool \<Rightarrow> 'z globals_scheme \<Rightarrow> 'z globals_scheme" where
  "sig_alarm fastboot_active s =
     (if fastboot_active then s
      else let s1 = lcd_signal LCD_IDLE s
           in if lcd_state s1 = Lcd_dim
              then (case config_atoi ''lcd_off_timeout'' s1 of (secs, s2) \<Rightarrow> c_alarm secs s2)
              else s1)"

text \<open>One second of wall-clock time: the pending alarm counts down and fires at zero.\<close>

definition tick :: "bool \<Rightarrow> 'z globals_scheme \<Rightarrow> 'z globals_scheme" where
  "tick fastboot_active s =
     (if alarm_left s = 0 then s
      else let s1 = s\<lparr>alarm_left := alarm_left s - 1\<rparr>
           in if alarm_left s1 = 0 then sig_alarm fastboot_active s1 else s1)"

lemma tick_countdown:
  "n < alarm_left s \<Longrightarrow> (tick active ^^ n) s = s\<lparr>alarm_left := alarm_left s - n\<rparr>"
proof (induction n)
  case 0
  then show ?case by simp
next
  case (Suc n)
  then show ?case by (simp add: tick_def Let_def)
qed

lemma tick_fires:
  assumes "0 < alarm_left s"
  shows "(tick active ^^ alarm_left s) s = sig_alarm active (s\<lparr>alarm_left := 0\<rparr>)"
proof -
  obtain n where n: "alarm_left s = Suc n" using assms by (cases "alarm_left s") auto
  have "(tick active ^^ n) s = s\<lparr>alarm_left := 1\<rparr>" using n tick_countdown [of n s active] by simp
  then show ?thesis using n by (simp add: tick_def)
qed

lemma sig_alarm_idle:
  assumes "config_loaded s"
  shows "lcd_state s = Lcd_on \<Longrightarrow> lcd_state (sig_alarm False s) = Lcd_dim \<and>
      alarm_left (sig_alarm False s) =
        unat (word_of_int (atoi (the (tboot_config_get (tboot_config s) ''lcd_off_timeout''))) :: u32) \<and>
      config_loaded (sig_alarm False s)"
    and "lcd_state s = Lcd_dim \<Longrightarrow> lcd_state (sig_alarm False s) = Lcd_off"
  using assms
  by (auto simp: sig_alarm_def lcd_signal_def lcd_dispatch_def lcd_state_on_def lcd_state_dim_def
      config_atoi_loaded config_loaded_def config_atoi_def c_alarm_def Let_def split: prod.splits)

text \<open>
  C26. The panel goes dark by itself: with both timeouts positive, a lit panel on which nothing happens
  is dim after \<open>lcd_dim_timeout\<close> seconds from the last reset of the alarm and off after
  \<open>lcd_off_timeout\<close> more.
\<close>

theorem idle_panel_goes_off:
  assumes "config_loaded s" "lcd_state s = Lcd_on"
    and "d = unat (word_of_int (atoi (the (tboot_config_get (tboot_config s) ''lcd_dim_timeout''))) :: u32)"
    and "t = unat (word_of_int (atoi (the (tboot_config_get (tboot_config s) ''lcd_off_timeout''))) :: u32)"
    and "0 < d" "0 < t"
  shows "lcd_state ((tick False ^^ d) (RESET_ALARM s)) = Lcd_dim \<and>
    lcd_state ((tick False ^^ (d + t)) (RESET_ALARM s)) = Lcd_off"
proof -
  let ?s = "RESET_ALARM s"
  have s: "alarm_left ?s = d" "config_loaded ?s" "lcd_state ?s = Lcd_on" "tboot_config ?s = tboot_config s"
    using assms(1-3) by (auto simp: RESET_ALARM_def c_alarm_def config_atoi_def config_loaded_def)
  let ?z = "?s\<lparr>alarm_left := 0\<rparr>"
  have d: "(tick False ^^ d) ?s = sig_alarm False ?z"
    using tick_fires [of ?s False] s(1) assms(5) by simp
  have "config_loaded ?z" "lcd_state ?z = Lcd_on" "tboot_config ?z = tboot_config s"
    using s by (auto simp: config_loaded_def)
  from sig_alarm_idle(1) [OF this(1,2)] this(3)
  have dim: "lcd_state (sig_alarm False ?z) = Lcd_dim" "alarm_left (sig_alarm False ?z) = t"
    "config_loaded (sig_alarm False ?z)"
    using assms(4) by simp_all
  let ?y = "(sig_alarm False ?z)\<lparr>alarm_left := 0\<rparr>"
  have "(tick False ^^ (t + d)) ?s = sig_alarm False ?y"
    using d tick_fires [of "sig_alarm False ?z" False] dim(2) assms(6) by (simp add: funpow_add)
  moreover have "config_loaded ?y" "lcd_state ?y = Lcd_dim" using dim by (auto simp: config_loaded_def)
  note sig_alarm_idle(2) [OF this]
  ultimately show ?thesis using d dim(1) by (simp add: add.commute)
qed

definition example_globals :: globals where
  "example_globals = \<lparr>tboot_config = Some default_table, lcd_state = Lcd_on, lcd_panel = example_panel,
     alarm_left = 0, uevents = example_status, autoboot_enabled = False, power_pressed = False,
     ignore_keypress = False, action_mutex = False, pipe_broken = False, ui_log = [], ub = False\<rparr>"

lemma example_config_loaded: "config_loaded example_globals"
  by (simp add: config_loaded_def example_globals_def default_table_get tc_keys_def tc_values_def)

lemma atoi_10: "atoi ''10'' = 10" and atoi_30: "atoi ''30'' = 30"
  by (simp_all add: atoi_def strtol_def isspace_def digit_value_def)

theorem idle_panel_goes_off_witness:
  "config_loaded example_globals \<and>
   lcd_state ((tick False ^^ 30) (RESET_ALARM example_globals)) = Lcd_dim \<and>
   lcd_state ((tick False ^^ 40) (RESET_ALARM example_globals)) = Lcd_off"
proof -
  have "tboot_config_get (tboot_config example_globals) ''lcd_dim_timeout'' = Some ''30''"
    "tboot_config_get (tboot_config example_globals) ''lcd_off_timeout'' = Some ''10''"
    by (simp_all add: example_globals_def default_table_get tc_keys_def tc_values_def)
  moreover have "lcd_state example_globals = Lcd_on" by (simp add: example_globals_def)
  ultimately show ?thesis
    using idle_panel_goes_off [OF example_config_loaded, of 30 10] example_config_loaded
    by (simp add: atoi_10 atoi_30)
qed

end
