(* ===== verification/Fastboot.thy ===== *)
theory Fastboot
  imports Tboot_State
begin

text \<open>
  The fastboot server of \<^verbatim>\<open>src/fastboot.c\<close>: the USB transport, acknowledgements, variables, downloads
  and the command loop.

  The host is a list of answers: \<open>usb_in\<close> holds the results of the coming \<^verbatim>\<open>read\<close> calls (\<open>None\<close> for an
  error; the end of the list is an error too), \<open>usb_wr\<close> those of the coming \<^verbatim>\<open>write\<close> calls (a negative
  number for an error; after its end every write is complete). \<open>usb_out\<close> is what went to the host, one
  entry per packet. A handler is a value of type \<open>'h\<close>, run by a function that the loop is given.
\<close>

section \<open>State\<close>

datatype fb_state = STATE_OFFLINE | STATE_COMMAND | STATE_COMPLETE | STATE_ERROR

record 'h fb = globals +
  cmdlist :: "(string \<times> 'h) list"
  varlist :: "(string \<times> string) list"
  download_base :: string
  download_max :: nat
  download_size :: nat
  fastboot_state :: fb_state
  usb_in :: "string option list"
  usb_wr :: "int list"
  usb_out :: "string list"

definition fastboot_register :: "bool \<Rightarrow> string \<Rightarrow> 'h \<Rightarrow> ('h, 'z) fb_scheme \<Rightarrow> ('h, 'z) fb_scheme" where
  "fastboot_register malloc_ok prefix h s =
     (if malloc_ok then s\<lparr>cmdlist := (prefix, h) # cmdlist s\<rparr> else s)"

definition fastboot_publish :: "bool \<Rightarrow> string \<Rightarrow> string \<Rightarrow> ('h, 'z) fb_scheme \<Rightarrow> ('h, 'z) fb_scheme" where
  "fastboot_publish malloc_ok name value s =
     (if malloc_ok then s\<lparr>varlist := (name, value) # varlist s\<rparr> else s)"

definition fastboot_getvar :: "string \<Rightarrow> ('h, 'z) fb_scheme \<Rightarrow> string option" where
  "fastboot_getvar name s = map_option snd (find (\<lambda>(n, v). n = name) (varlist s))"

section \<open>Transport\<close>

text \<open>
  The transfer loop on the answers of \<^verbatim>\<open>read\<close>: whether no call failed, the bytes stored, the answers
  left. A transfer shorter than asked for ends it.
\<close>

fun usb_read_loop :: "nat \<Rightarrow> string option list \<Rightarrow> bool \<times> string \<times> string option list" where
  "usb_read_loop len [] = (len = 0, [], [])"
| "usb_read_loop len (None # rest) = (if len = 0 then (True, [], None # rest) else (False, [], rest))"
| "usb_read_loop len (Some d # rest) =
     (if len = 0 then (True, [], Some d # rest)
      else let xfer = (if len > 4096 then 4096 else len); r = take xfer d
           in if length r \<noteq> xfer then (True, r, rest)
              else case usb_read_loop (len - length r) rest of
                     (ok, got, rest') \<Rightarrow> (ok, r @ got, rest'))"

text \<open>The return value, the bytes stored at the buffer (also when the call fails), the state.\<close>

definition usb_read :: "nat \<Rightarrow> ('h, 'z) fb_scheme \<Rightarrow> int \<times> string \<times> ('h, 'z) fb_scheme" where
  "usb_read len s =
     (if fastboot_state s = STATE_ERROR then (-1, [], s\<lparr>fastboot_state := STATE_ERROR\<rparr>)
      else case usb_read_loop len (usb_in s) of
             (ok, got, rest) \<Rightarrow>
               if ok then (c_int (length got), got, s\<lparr>usb_in := rest\<rparr>)
               else (-1, got, s\<lparr>usb_in := rest, fastboot_state := STATE_ERROR\<rparr>))"

definition roundup :: "nat \<Rightarrow> nat \<Rightarrow> nat" where
  "roundup x y = (x + (y - 1)) div y * y"

lemma usb_read_loop_Some:
  assumes "0 < len"
  shows "usb_read_loop len (Some d # rest) =
    (if length d < min len 4096 then (True, d, rest)
     else case usb_read_loop (len - min len 4096) rest of
            (ok, got, rest') \<Rightarrow> (ok, take (min len 4096) d @ got, rest'))"
proof -
  have x: "(if len > 4096 then 4096 else len) = min len 4096" by simp
  have "usb_read_loop len (Some d # rest) =
      (if length (take (min len 4096) d) \<noteq> min len 4096 then (True, take (min len 4096) d, rest)
       else case usb_read_loop (len - length (take (min len 4096) d)) rest of
              (ok, got, rest') \<Rightarrow> (ok, take (min len 4096) d @ got, rest'))"
    using assms unfolding usb_read_loop.simps Let_def x by simp
  moreover have "length (take n d) \<noteq> n \<longleftrightarrow> length d < n" "length d < n \<Longrightarrow> take n d = d"
    "\<not> length d < n \<Longrightarrow> length (take n d) = n" for n by auto
  ultimately show ?thesis by presburger
qed

declare usb_read_loop.simps(3) [simp del]

lemma usb_read_loop_zero [simp]: "usb_read_loop 0 ans = (True, [], ans)"
  by (cases ans; cases "hd ans") (auto simp: usb_read_loop.simps)

lemma usb_read_loop_props:
  "usb_read_loop len ans = (ok, got, rest) \<Longrightarrow>
     length got \<le> len \<and> length rest \<le> length ans \<and>
     (0 < len \<longrightarrow> ok \<longrightarrow> length rest < length ans)"
proof (induction ans arbitrary: len ok got rest)
  case Nil
  then show ?case by auto
next
  case (Cons a as)
  show ?case
  proof (cases "len = 0 \<or> a = None")
    case True
    then show ?thesis using Cons.prems by (cases "len = 0") auto
  next
    case False
    then obtain d where a: "a = Some d" "0 < len" by auto
    show ?thesis
    proof (cases "length d < min len 4096")
      case True
      then show ?thesis using Cons.prems a by (simp add: usb_read_loop_Some)
    next
      case full: False
      obtain ok' got' rest' where r: "usb_read_loop (len - min len 4096) as = (ok', got', rest')"
        by (cases "usb_read_loop (len - min len 4096) as") auto
      have "length got' \<le> len - min len 4096" "length rest' \<le> length as"
        using Cons.IH [OF r] by simp_all
      moreover have "got = take (min len 4096) d @ got'" "rest = rest'"
        using Cons.prems a full r by (auto simp: usb_read_loop_Some split: if_splits)
      ultimately show ?thesis by (auto simp: min_def split: if_splits)
    qed
  qed
qed

lemma usb_read_props:
  assumes "usb_read len s = (r, d, s1)"
  shows "length d \<le> len" "length (usb_in s1) \<le> length (usb_in s)"
    "0 \<le> r \<Longrightarrow> 0 < len \<Longrightarrow> length (usb_in s1) < length (usb_in s)"
    "0 \<le> r \<Longrightarrow> r = c_int (length d) \<and> s1 = s\<lparr>usb_in := usb_in s1\<rparr> \<and> fastboot_state s \<noteq> STATE_ERROR"
    "s1 = s\<lparr>usb_in := usb_in s1, fastboot_state := fastboot_state s1\<rparr>"
    "r < 0 \<Longrightarrow> len \<le> INT_MAX \<Longrightarrow> fastboot_state s1 = STATE_ERROR"
proof -
  obtain ok got rest where l: "usb_read_loop len (usb_in s) = (ok, got, rest)"
    by (cases "usb_read_loop len (usb_in s)") auto
  note p = usb_read_loop_props [OF l] and d = assms [unfolded usb_read_def l]
  show "length d \<le> len" "length (usb_in s1) \<le> length (usb_in s)"
    "s1 = s\<lparr>usb_in := usb_in s1, fastboot_state := fastboot_state s1\<rparr>"
    using p d by (auto split: if_splits)
  show "0 \<le> r \<Longrightarrow> 0 < len \<Longrightarrow> length (usb_in s1) < length (usb_in s)"
    "0 \<le> r \<Longrightarrow> r = c_int (length d) \<and> s1 = s\<lparr>usb_in := usb_in s1\<rparr> \<and> fastboot_state s \<noteq> STATE_ERROR"
    using p d by (auto split: if_splits)
  have "0 \<le> c_int (length got)" if "len \<le> INT_MAX"
    using p that by (subst c_int_small) auto
  then show "r < 0 \<Longrightarrow> len \<le> INT_MAX \<Longrightarrow> fastboot_state s1 = STATE_ERROR"
    using d by (auto split: if_splits)
qed

lemma textbar_usb_in [simp]: "usb_in (tboot_ui_textbar n t s) = usb_in s"
  by (simp add: tboot_ui_textbar_def)

lemma progress_reads:
  assumes "(int n, d, s1) = usb_read n s" "n = (if slice0 = 0 then len else slice0)"
    "\<not> len < f" "f \<noteq> len"
  shows "length (usb_in s1) < length (usb_in s)"
proof -
  have "0 < n" using assms(2-4) by auto
  then show ?thesis using usb_read_props(3) [OF assms(1) [symmetric]] by simp
qed

text \<open>
  The download loop. \<open>finished\<close> and \<open>slice\<close> are 32-bit; the comparison of the \<^verbatim>\<open>int\<close> result with the
  unsigned \<open>slice\<close> is exact, since a slice is at most \<open>roundup (len div 100) 4096\<close>.
\<close>

function progress_loop :: "nat \<Rightarrow> nat \<Rightarrow> int \<Rightarrow> nat \<Rightarrow> string \<Rightarrow> ('h, 'z) fb_scheme
    \<Rightarrow> int \<times> string \<times> ('h, 'z) fb_scheme" where
  "progress_loop len slice0 percent0 finished0 got s =
     (let slice = (if slice0 = 0 then len else slice0);
          percent1 = (if slice0 = 0 then 99 else percent0)
      in case usb_read slice s of
           (r, d, s1) \<Rightarrow>
             if r \<noteq> int slice then (-1, got @ d, s1)
             else
               let percent = percent1 + 1;
                   finished = (finished0 + slice) mod 2 ^ 32;
                   s2 = (if percent < 100
                         then tboot_ui_textbar percent (''Downloading...'' @ show_int percent @ ''%'') s1
                         else s1)
               in if finished > len then (-1, got @ d, s2)
                  else if finished = len then (c_int finished, got @ d, s2)
                  else if (finished + slice) mod 2 ^ 32 > len
                       then progress_loop len (len - finished) 99 finished (got @ d) s2
                       else progress_loop len slice percent finished (got @ d) s2)"
  by pat_completeness auto

termination
proof (relation "measure (\<lambda>(len, slice, percent, finished, got, s). length (usb_in s))", goal_cases)
  case 1
  then show ?case by simp
next
  case 2
  then show ?case by (auto intro: progress_reads)
next
  case 3
  then show ?case by (auto intro: progress_reads)
qed

declare progress_loop.simps [simp del]

definition usb_read_progress :: "nat \<Rightarrow> ('h, 'z) fb_scheme \<Rightarrow> int \<times> string \<times> ('h, 'z) fb_scheme" where
  "usb_read_progress len s =
     (if len < 4096 then usb_read len s
      else progress_loop len (roundup (len div 100) 4096) 0 0 [] s)"

definition usb_write :: "string \<Rightarrow> ('h, 'z) fb_scheme \<Rightarrow> int \<times> ('h, 'z) fb_scheme" where
  "usb_write buf s =
     (if fastboot_state s = STATE_ERROR then (-1, s\<lparr>fastboot_state := STATE_ERROR\<rparr>)
      else case usb_wr s of
             [] \<Rightarrow> (c_int (length buf), s\<lparr>usb_out := usb_out s @ [buf]\<rparr>)
           | r # rest \<Rightarrow>
               if r < 0 then (-1, s\<lparr>usb_wr := rest, fastboot_state := STATE_ERROR\<rparr>)
               else let n = min (nat r) (length buf)
                    in (c_int n, s\<lparr>usb_wr := rest, usb_out := usb_out s @ [take n buf]\<rparr>))"

section \<open>Acknowledgements\<close>

datatype ack = INFO | FAIL | OKAY

fun ack_code :: "ack \<Rightarrow> string" where
  "ack_code INFO = ''INFO''"
| "ack_code FAIL = ''FAIL''"
| "ack_code OKAY = ''OKAY''"

lemma ack_code_length [simp]: "length (ack_code c) = 4"
  by (cases c) simp_all

lemma usb_write_progress:
  "usb_write buf s = (r, s1) \<Longrightarrow> length buf \<le> 63 \<Longrightarrow>
     (fastboot_state s = STATE_ERROR \<and> r = -1 \<and> s1 = s) \<or>
     (fastboot_state s \<noteq> STATE_ERROR \<and> length (usb_wr s1) < length (usb_wr s)) \<or>
     (fastboot_state s \<noteq> STATE_ERROR \<and> usb_wr s = [] \<and> usb_wr s1 = [] \<and> r = int (length buf) \<and>
        fastboot_state s1 = fastboot_state s)"
  by (auto simp: usb_write_def Let_def INT_MAX_def split: if_splits list.splits)

lemma ack_decreases:
  assumes "(r, s1) = usb_write (take 63 (ack_code code @ drop pos reason)) s"
    and "\<not> int pos + r - int (length (ack_code code)) < 0"
    and "\<not> length reason \<le> nat (int pos + r - int (length (ack_code code)))"
  shows "length (usb_wr s1) < length (usb_wr s) \<or> length (usb_wr s1) = length (usb_wr s) \<and>
    (if fastboot_state s1 = STATE_ERROR then nat (int pos + r - int (length (ack_code code)))
     else length reason - nat (int pos + r - int (length (ack_code code))))
    < (if fastboot_state s = STATE_ERROR then pos else length reason - pos)"
proof -
  have l: "length (take 63 (ack_code code @ drop pos reason)) = 4 + min 59 (length reason - pos)" by simp
  consider "fastboot_state s = STATE_ERROR" "r = -1" "s1 = s"
    | "length (usb_wr s1) < length (usb_wr s)"
    | "fastboot_state s \<noteq> STATE_ERROR" "usb_wr s = []" "usb_wr s1 = []"
      "r = 4 + int (min 59 (length reason - pos))" "fastboot_state s1 = fastboot_state s"
    using usb_write_progress [OF assms(1) [symmetric]] unfolding l by auto
  then show ?thesis
    using assms(2,3) by cases (auto simp: min_def split: if_splits)
qed

text \<open>
  The loop of \<^verbatim>\<open>_fastboot_ack\<close>. \<open>pos\<close> is where the pointer \<^verbatim>\<open>reason\<close> stands; the result of the write minus
  the length of the code moves it, before the start of the string when the write failed or was cut
  inside the code.
\<close>

function ack_loop :: "ack \<Rightarrow> string \<Rightarrow> nat \<Rightarrow> ('h, 'z) fb_scheme \<Rightarrow> ('h, 'z) fb_scheme" where
  "ack_loop code reason pos s =
     (let buf = take 63 (ack_code code @ drop pos reason)
      in case usb_write buf s of
           (r, s1) \<Rightarrow>
             let pos' = int pos + r - int (length (ack_code code))
             in if pos' < 0 then s1\<lparr>ub := True\<rparr>
                else if nat pos' \<ge> length reason then s1
                else ack_loop code reason (nat pos') s1)"
  by pat_completeness auto

termination
proof (relation "measures [\<lambda>(code, reason, pos, s). length (usb_wr s),
    \<lambda>(code, reason, pos, s). if fastboot_state s = STATE_ERROR then pos else length reason - pos]",
    goal_cases)
  case 1
  then show ?case by simp
next
  case (2 code reason pos s)
  show ?case
    using ack_decreases [OF 2(2) [unfolded 2(1)] 2(4) [unfolded 2(3)] 2(5) [unfolded 2(3)]]
    unfolding in_measures prod.case 2(3) by simp
qed

declare ack_loop.simps [simp del]

definition fastboot_ack :: "ack \<Rightarrow> string \<Rightarrow> ('h, 'z) fb_scheme \<Rightarrow> ('h, 'z) fb_scheme" where
  "fastboot_ack code reason s =
     (if fastboot_state s \<noteq> STATE_COMMAND then s else ack_loop code reason 0 s)"

definition fastboot_info :: "string \<Rightarrow> ('h, 'z) fb_scheme \<Rightarrow> ('h, 'z) fb_scheme" where
  "fastboot_info buf s = fastboot_ack INFO buf s"

definition fastboot_fail :: "string \<Rightarrow> ('h, 'z) fb_scheme \<Rightarrow> ('h, 'z) fb_scheme" where
  "fastboot_fail reason s = (fastboot_ack FAIL reason s)\<lparr>fastboot_state := STATE_COMPLETE\<rparr>"

definition fastboot_okay :: "string \<Rightarrow> ('h, 'z) fb_scheme \<Rightarrow> ('h, 'z) fb_scheme" where
  "fastboot_okay info s = (fastboot_ack OKAY info s)\<lparr>fastboot_state := STATE_COMPLETE\<rparr>"

section \<open>Commands of the server\<close>

definition cmd_getvar :: "string \<Rightarrow> ('h, 'z) fb_scheme \<Rightarrow> ('h, 'z) fb_scheme" where
  "cmd_getvar arg s =
     (if length arg = 0 then
        let s1 = fastboot_info (''All available variables:'' @ [newline]) s;
            s2 = fold (\<lambda>(name, value) t. fastboot_info [newline] (fastboot_info name t)) (varlist s1) s1
        in fastboot_okay [] (fastboot_info [newline] s2)
      else case find (\<lambda>(name, value). name = arg) (varlist s) of
             Some (name, value) \<Rightarrow> fastboot_okay value s
           | None \<Rightarrow> fastboot_okay [] s)"

definition response_data :: "nat \<Rightarrow> ('h, 'z) fb_scheme \<Rightarrow> int \<times> ('h, 'z) fb_scheme" where
  "response_data len s =
     (let response = ''DATA'' @ show_hex_padded 8 len
      in case usb_write response s of
           (r, s1) \<Rightarrow> if r \<noteq> int (length response) then (-1, s1) else (0, s1))"

text \<open>The return value, the bytes stored at the caller's buffer, the state.\<close>

definition streaming_download :: "nat \<Rightarrow> bool \<Rightarrow> ('h, 'z) fb_scheme
    \<Rightarrow> int \<times> string \<times> ('h, 'z) fb_scheme" where
  "streaming_download len response s =
     (if response then (case response_data len s of (r, s1) \<Rightarrow> (r, [], s1))
      else case usb_read len s of
             (r, d, s1) \<Rightarrow> if r mod 2 ^ 32 \<noteq> int len then (-1, d, s1) else (0, d, s1))"

text \<open>Bytes stored at the start of the download buffer.\<close>

definition store :: "string \<Rightarrow> string \<Rightarrow> string" where
  "store d base = d @ drop (length d) base"

definition download_to :: "nat \<Rightarrow> ('h, 'z) fb_scheme \<Rightarrow> int \<times> ('h, 'z) fb_scheme" where
  "download_to len s =
     (if len > download_max s then (-1, fastboot_fail ''data too large'' s)
      else case response_data len s of
             (r, s1) \<Rightarrow>
               if r \<noteq> 0 then (-1, s1)
               else (case usb_read_progress len s1 of
                       (r, d, s2) \<Rightarrow>
                         let s3 = s2\<lparr>download_base := store d (download_base s2)\<rparr>
                         in if r < 0 \<or> r \<noteq> int len
                            then (-1, s3\<lparr>fastboot_state := STATE_ERROR\<rparr>)
                            else (0, tboot_ui_hidebar [] s3)))"

definition cmd_download :: "string \<Rightarrow> ('h, 'z) fb_scheme \<Rightarrow> ('h, 'z) fb_scheme" where
  "cmd_download arg s =
     (let len = strtoul 32 16 arg; s0 = s\<lparr>download_size := 0\<rparr>
      in if len > download_max s0 then fastboot_fail ''data too large'' s0
         else case response_data len s0 of
                (r, s1) \<Rightarrow>
                  if r \<noteq> 0 then s1
                  else (case usb_read_progress len s1 of
                          (r, d, s2) \<Rightarrow>
                            let s3 = s2\<lparr>download_base := store d (download_base s2)\<rparr>
                            in if r < 0 \<or> r \<noteq> int len
                               then tboot_ui_error ''Download failed.''
                                      (s3\<lparr>fastboot_state := STATE_ERROR\<rparr>)
                               else fastboot_okay [] (tboot_ui_hidebar [] (s3\<lparr>download_size := len\<rparr>))))"

text \<open>
  \<^verbatim>\<open>pull_file\<close> on an open file: what \<^verbatim>\<open>fstat\<close> and \<^verbatim>\<open>read\<close> answer, and what the response buffer on the
  stack holds before the host's answer arrives. \<^verbatim>\<open>off_t\<close> has 32 bits in this build. The comparison
  \<^verbatim>\<open>usb_read (...) < offset\<close> is unsigned.
\<close>

record pull_source =
  ps_fd :: int
  ps_size :: "int option"
  ps_read :: "string option"
  ps_stack :: string

definition pull_file :: "pull_source \<Rightarrow> ('h, 'z) fb_scheme \<Rightarrow> int \<times> ('h, 'z) fb_scheme" where
  "pull_file src s =
     (let offset = 12 :: nat; room = (download_max s + 2 ^ 32 - offset) mod 2 ^ 32
      in if ps_fd src < 0 then (-1, fastboot_fail ''invalid fd.'' s)
         else case ps_size src of
                None \<Rightarrow> (-1, fastboot_fail ''can't get file size.'' s)
              | Some st_size \<Rightarrow>
                  if nat (st_size mod 2 ^ 32) > room then (-1, fastboot_fail ''file is too large.'' s)
                  else
                    let header = ''FILE'' @ show_hex_padded 8 (nat (st_size mod 2 ^ 64));
                        s1 = (if download_max s = 0 then s
                              else s\<lparr>download_base :=
                                     store (take (download_max s - 1) header @ [NUL]) (download_base s)\<rparr>)
                    in if length header \<noteq> offset
                       then (-1, fastboot_fail ''construct response failed.'' s1)
                       else case ps_read src of
                              None \<Rightarrow> (-1, fastboot_fail ''read file failed.'' s1)
                            | Some bytes \<Rightarrow>
                                let d = take room bytes;
                                    s2 = s1\<lparr>download_base := store (header @ d) (download_base s1)\<rparr>
                                in if int (length d) \<noteq> st_size
                                   then (-1, fastboot_fail ''read file failed.'' s2)
                                   else
                                     let sz = offset + length d; s3 = s2\<lparr>download_size := sz\<rparr>
                                     in case usb_write (take sz (download_base s3)) s3 of
                                          (r, s4) \<Rightarrow>
                                            if r mod 2 ^ 32 \<noteq> int sz then (-1, fastboot_fail ''usb write failed.'' s4)
                                            else case usb_read 64 s4 of
                                                   (r, a, s5) \<Rightarrow>
                                                     if nat (r mod 2 ^ 32) < offset
                                                     then (-1, fastboot_fail ''get invalid response'' s5)
                                                     else if st_size mod 2 ^ 32 \<noteq> int (strtoul 32 16
                                                               (c_str (drop 4 (take offset (store a (ps_stack src))))))
                                                          then (-1, fastboot_fail
                                                                 ''saved bytes doesn't equal sent bytes'' s5)
                                                          else (0, s5))"

definition is_fastboot_active :: "('h, 'z) fb_scheme \<Rightarrow> bool" where
  "is_fastboot_active s \<longleftrightarrow> fastboot_state s = STATE_COMMAND"

section \<open>The command loop\<close>

definition low_battery_cmds :: "string list" where
  "low_battery_cmds = [''flash'', ''erase'', ''oem system'']"

text \<open>
  What one received command does. A handler that does not come back (the process exits, or the
  system restarts) is \<open>None\<close>, and so is the wait for a mutex that is never released.
\<close>

definition fastboot_command ::
    "('h \<Rightarrow> string \<Rightarrow> ('h, 'z) fb_scheme \<Rightarrow> ('h, 'z) fb_scheme option)
      \<Rightarrow> string \<Rightarrow> ('h, 'z) fb_scheme \<Rightarrow> ('h, 'z) fb_scheme option" where
  "fastboot_command run buffer s =
     (let s1 = lcd_signal LCD_COMMAND (CLEAR_ALARM (s\<lparr>fastboot_state := STATE_COMMAND\<rparr>))
      in case find (\<lambda>(prefix, h). starts_with prefix buffer) (cmdlist s1) of
           None \<Rightarrow> Some (fastboot_fail ''unknown command'' s1)
         | Some (prefix, h) \<Rightarrow>
             (case check_battery (disable_autoboot s1) of
                (low, s2) \<Rightarrow>
                  (case (if low \<noteq> 0 then find (\<lambda>c. starts_with c buffer) low_battery_cmds else None) of
                     Some c \<Rightarrow>
                       (case config_atoi ''battery_threshold'' s2 of
                          (bat_threshold, s3) \<Rightarrow>
                            Some (fastboot_fail ''can't do this operation when battery low''
                              (tboot_ui_warn (''Battery < '' @ show_int bat_threshold
                                 @ ''%, ignore operation '' @ [CHR 0x27] @ c @ [CHR 0x27] @ ''.'') s3)))
                   | None \<Rightarrow>
                       if action_mutex s2 then None
                       else (case run h (c_str (drop (length prefix) buffer))
                                     (disable_keypress (s2\<lparr>action_mutex := True\<rparr>)) of
                               None \<Rightarrow> None
                             | Some s3 \<Rightarrow>
                                 let s4 = (enable_keypress s3)\<lparr>action_mutex := False\<rparr>;
                                     s5 = (if fastboot_state s4 = STATE_COMMAND
                                           then fastboot_fail ''unknown reason'' s4 else s4)
                                 in Some (RESET_ALARM s5)))))"

text \<open>
  The loop. The outer \<open>None\<close>: it runs forever; the inner one: a handler did not come back.
\<close>

partial_function (option) fastboot_command_loop ::
    "('h \<Rightarrow> string \<Rightarrow> ('h, 'z) fb_scheme \<Rightarrow> ('h, 'z) fb_scheme option)
      \<Rightarrow> ('h, 'z) fb_scheme \<Rightarrow> ('h, 'z) fb_scheme option option" where
  "fastboot_command_loop run s =
     (if fastboot_state s = STATE_ERROR then Some (Some (s\<lparr>fastboot_state := STATE_OFFLINE\<rparr>))
      else case usb_read 64 s of
             (r, buffer, s1) \<Rightarrow>
               if r < 0 then Some (Some (s1\<lparr>fastboot_state := STATE_OFFLINE\<rparr>))
               else case fastboot_command run buffer s1 of
                      None \<Rightarrow> Some None
                    | Some s2 \<Rightarrow> fastboot_command_loop run s2)"

text \<open>
  \<^verbatim>\<open>fastboot_handler\<close> runs forever; the model follows it over a finite list of answers to \<^verbatim>\<open>open\<close>.
\<close>

fun fastboot_handler ::
    "('h \<Rightarrow> string \<Rightarrow> ('h, 'z) fb_scheme \<Rightarrow> ('h, 'z) fb_scheme option)
      \<Rightarrow> int list \<Rightarrow> ('h, 'z) fb_scheme \<Rightarrow> ('h, 'z) fb_scheme option option" where
  "fastboot_handler run [] s = Some (Some s)"
| "fastboot_handler run (fb_fp # fds) s =
     (if fb_fp < 1 then fastboot_handler run fds s
      else case fastboot_command_loop run s of
             None \<Rightarrow> None
           | Some None \<Rightarrow> Some None
           | Some (Some s1) \<Rightarrow> fastboot_handler run fds s1)"

text \<open>
  \<^verbatim>\<open>fastboot_init\<close> with the fresh buffer it allocates. \<open>None\<close>: \<^verbatim>\<open>die\<close>. The two handlers it registers are
  arguments, since a handler is a value of the loop's parameter type.
\<close>

definition fastboot_init :: "bool \<Rightarrow> 'h \<Rightarrow> 'h \<Rightarrow> string \<Rightarrow> nat \<Rightarrow> ('h, 'z) fb_scheme
    \<Rightarrow> ('h, 'z) fb_scheme option" where
  "fastboot_init malloc_ok getvar download fresh sz s =
     (if \<not> malloc_ok then None
      else Some (fastboot_publish True ''fastboot'' ''0.6''
             (fastboot_register True ''download:'' download
               (fastboot_register True ''getvar:'' getvar
                 (s\<lparr>download_max := sz, download_base := fresh\<rparr>)))))"

section \<open>Packets of an acknowledgement\<close>

text \<open>What a host that accepts every write receives for one acknowledgement.\<close>

function packets :: "string \<Rightarrow> string \<Rightarrow> string list" where
  "packets code reason =
     (if length reason \<le> 59 then [code @ reason]
      else (code @ take 59 reason) # packets code (drop 59 reason))"
  by pat_completeness auto

termination
  by (relation "measure (\<lambda>(code, reason). length reason)") auto

declare packets.simps [simp del]

lemma usb_write_all:
  "fastboot_state s \<noteq> STATE_ERROR \<Longrightarrow> usb_wr s = [] \<Longrightarrow> length buf \<le> INT_MAX \<Longrightarrow>
     usb_write buf s = (int (length buf), s\<lparr>usb_out := usb_out s @ [buf]\<rparr>)"
  by (simp add: usb_write_def)

lemma ack_loop_packets:
  assumes "usb_wr s = []" "fastboot_state s \<noteq> STATE_ERROR" "pos \<le> length reason"
  shows "ack_loop code reason pos s =
    s\<lparr>usb_out := usb_out s @ packets (ack_code code) (drop pos reason)\<rparr>"
  using assms
proof (induction "length reason - pos" arbitrary: pos s rule: less_induct)
  case less
  let ?buf = "take 63 (ack_code code @ drop pos reason)"
  have "length ?buf \<le> INT_MAX" by (simp add: INT_MAX_def)
  note w = usb_write_all [OF less.prems(2,1) this]
  show ?case
  proof (cases "length reason - pos \<le> 59")
    case True
    then have b: "?buf = ack_code code @ drop pos reason" by simp
    have "usb_write ?buf s = (4 + int (length reason - pos), s\<lparr>usb_out := usb_out s @ [?buf]\<rparr>)"
      unfolding w using True by (simp add: min.absorb1)
    moreover have "packets (ack_code code) (drop pos reason) = [ack_code code @ drop pos reason]"
      using True by (subst packets.simps) simp
    ultimately show ?thesis
      using less.prems(3) b by (subst ack_loop.simps) (simp add: Let_def)
  next
    case False
    then have b: "?buf = ack_code code @ take 59 (drop pos reason)" by simp
    have "usb_write ?buf s = (63, s\<lparr>usb_out := usb_out s @ [?buf]\<rparr>)"
      unfolding w using False by simp
    moreover have "packets (ack_code code) (drop pos reason) =
        ?buf # packets (ack_code code) (drop (pos + 59) reason)"
      using False b by (subst packets.simps) (simp add: add.commute)
    moreover have "nat (59 + int pos) = pos + 59" "\<not> length reason \<le> pos + 59" using False by auto
    ultimately have step: "ack_loop code reason pos s =
        ack_loop code reason (pos + 59) (s\<lparr>usb_out := usb_out s @ [?buf]\<rparr>)"
      by (subst ack_loop.simps) (simp add: Let_def)
    have "ack_loop code reason (pos + 59) (s\<lparr>usb_out := usb_out s @ [?buf]\<rparr>) =
        s\<lparr>usb_out := (usb_out s @ [?buf]) @ packets (ack_code code) (drop (pos + 59) reason)\<rparr>"
      using less.hyps [of "pos + 59" "s\<lparr>usb_out := usb_out s @ [?buf]\<rparr>"] less.prems False by simp
    with step \<open>packets (ack_code code) (drop pos reason) = _\<close> show ?thesis by simp
  qed
qed

lemma fastboot_ack_packets:
  "usb_wr s = [] \<Longrightarrow> fastboot_state s = STATE_COMMAND \<Longrightarrow>
     fastboot_ack code reason s = s\<lparr>usb_out := usb_out s @ packets (ack_code code) reason\<rparr>"
  by (simp add: fastboot_ack_def ack_loop_packets)

text \<open>
  Frame of the acknowledgements for any host: outside the transport fields the state is untouched, the
  packets are only appended, and the server either keeps its state or is in error.
\<close>

definition fb_core :: "('h, 'z) fb_scheme \<Rightarrow> ('h, 'z) fb_scheme" where
  "fb_core s = s\<lparr>ub := False, usb_wr := [], usb_out := [], fastboot_state := STATE_OFFLINE\<rparr>"

definition sends :: "('h, 'z) fb_scheme \<Rightarrow> ('h, 'z) fb_scheme \<Rightarrow> bool" where
  "sends s t \<longleftrightarrow> fb_core t = fb_core s \<and> (\<exists>out. usb_out t = usb_out s @ out) \<and>
     (fastboot_state t = fastboot_state s \<or> fastboot_state t = STATE_ERROR) \<and> (ub s \<longrightarrow> ub t)"

lemma sends_refl [simp]: "sends s s"
  by (simp add: sends_def)

lemma sends_trans: "sends s t \<Longrightarrow> sends t u \<Longrightarrow> sends s u"
  by (auto simp: sends_def)

lemma usb_write_sends: "sends s (snd (usb_write buf s))"
  by (auto simp: sends_def usb_write_def fb_core_def Let_def split: list.split)

lemma ack_loop_sends: "sends s (ack_loop code reason pos s)"
proof (induction code reason pos s rule: ack_loop.induct)
  case (1 code reason pos s)
  let ?buf = "take 63 (ack_code code @ drop pos reason)"
  let ?p = "\<lambda>r. int pos + r - int (length (ack_code code))"
  obtain r s1 where w: "usb_write ?buf s = (r, s1)" by (cases "usb_write ?buf s")
  then have s1: "sends s s1" using usb_write_sends [of s ?buf] by simp
  have "sends s (s1\<lparr>ub := True\<rparr>)" using s1 by (auto simp: sends_def fb_core_def)
  moreover have "sends s (ack_loop code reason (nat (?p r)) s1)" if "\<not> ?p r < 0" "\<not> length reason \<le> nat (?p r)"
    using sends_trans [OF s1 "1.IH" [OF refl w [symmetric] refl that]] .
  ultimately show ?case
    using w s1 by (subst ack_loop.simps) (simp add: Let_def)
qed

lemma fastboot_ack_sends: "sends s (fastboot_ack code reason s)"
  by (simp add: fastboot_ack_def ack_loop_sends)

lemma sends_core_field: "sends s t \<Longrightarrow> (\<And>u. f (fb_core u) = f u) \<Longrightarrow> f t = f s"
  by (metis sends_def)

lemma fastboot_info_sends: "sends s (fastboot_info t s)"
  by (simp add: fastboot_info_def fastboot_ack_sends)

lemma fastboot_fail_okay_frame:
  "fb_core (fastboot_fail t s) = fb_core s" "fastboot_state (fastboot_fail t s) = STATE_COMPLETE"
  "fb_core (fastboot_okay t s) = fb_core s" "fastboot_state (fastboot_okay t s) = STATE_COMPLETE"
  using fastboot_ack_sends [of s FAIL t] fastboot_ack_sends [of s OKAY t]
  by (auto simp: fastboot_fail_def fastboot_okay_def sends_def fb_core_def)

section \<open>Downloads\<close>

text \<open>Data as the host sends it: full 4096-byte transfers and a last one.\<close>

function chunks :: "string \<Rightarrow> string list" where
  "chunks d = (if d = [] then [] else take 4096 d # chunks (drop 4096 d))"
  by pat_completeness auto

termination
  by (relation "measure length") auto

declare chunks.simps [simp del]

lemma chunks_append:
  assumes "4096 dvd length a"
  shows "chunks (a @ b) = chunks a @ chunks b"
  using assms
proof (induction "length a" arbitrary: a rule: less_induct)
  case less
  show ?case
  proof (cases "a = []")
    case True
    then show ?thesis by (simp add: chunks.simps [of "[]"])
  next
    case False
    then have l: "4096 \<le> length a" using less.prems by (auto intro: dvd_imp_le)
    then have "4096 dvd length (drop 4096 a)" using less.prems by (simp add: dvd_diff_nat)
    then have "chunks (drop 4096 a @ b) = chunks (drop 4096 a) @ chunks b"
      using less.hyps [of "drop 4096 a"] l False by simp
    with l False show ?thesis
      by (subst chunks.simps, subst (2) chunks.simps) simp
  qed
qed

lemma usb_read_loop_chunks:
  "usb_read_loop (length d) (map Some (chunks d) @ rest) = (True, d, rest)"
proof (induction d rule: chunks.induct)
  case (1 d)
  show ?case
  proof (cases "d = []")
    case True
    then show ?thesis by (simp add: chunks.simps)
  next
    case False
    let ?x = "min (length d) 4096"
    have "take ?x (take 4096 d) = take 4096 d" "\<not> length (take 4096 d) < ?x"
      "length d - ?x = length (drop 4096 d)" by (auto simp: min_def)
    with False 1 [OF False] show ?thesis
      by (subst chunks.simps) (simp add: usb_read_loop_Some del: length_drop)
  qed
qed

lemma usb_read_chunks:
  assumes "fastboot_state s \<noteq> STATE_ERROR" "usb_in s = map Some (chunks d) @ rest" "length d \<le> INT_MAX"
  shows "usb_read (length d) s = (int (length d), d, s\<lparr>usb_in := rest\<rparr>)"
  using assms by (simp add: usb_read_def usb_read_loop_chunks)

lemma roundup_bounds:
  assumes "4096 \<le> len"
  shows "0 < roundup (len div 100) 4096" "roundup (len div 100) 4096 \<le> len"
    "4096 dvd roundup (len div 100) 4096"
proof -
  let ?k = "(len div 100 + 4095) div 4096"
  show "4096 dvd roundup (len div 100) 4096" by (simp add: roundup_def)
  show "0 < roundup (len div 100) 4096" using assms by (simp add: roundup_def)
  have "1 \<le> len div 4096" using assms by (simp add: Suc_le_eq div_greater_zero_iff)
  moreover have "100 * (len div 100) \<le> len" by simp
  moreover have "len < (len div 4096 + 1) * 4096"
    using dividend_less_div_times [of 4096 len] by simp
  moreover have "a + 4095 < (q + 1) * 4096"
    if "1 \<le> q" "100 * a \<le> len" "len < (q + 1) * 4096" for a q :: nat
    using that by simp
  ultimately have "len div 100 + 4095 < (len div 4096 + 1) * 4096" by blast
  then have "?k < len div 4096 + 1" by (rule less_mult_imp_div_less)
  then have "?k \<le> len div 4096" by simp
  then have "?k * 4096 \<le> len div 4096 * 4096" by simp
  also have "\<dots> \<le> len" by simp
  finally show "roundup (len div 100) 4096 \<le> len" by (simp add: roundup_def)
qed

text \<open>One turn of the download loop, with the invariant that the next slice fits.\<close>

definition bar :: "int \<Rightarrow> ('h, 'z) fb_scheme \<Rightarrow> ('h, 'z) fb_scheme" where
  "bar percent s =
     (if percent < 100 then tboot_ui_textbar percent (''Downloading...'' @ show_int percent @ ''%'') s else s)"

lemma bar_fields [simp]:
  "usb_in (bar n s) = usb_in s" "fastboot_state (bar n s) = fastboot_state s"
  "fb_core (bar n (s\<lparr>usb_in := a\<rparr>)) = (fb_core (bar n s))\<lparr>usb_in := a\<rparr>"
  by (auto simp: bar_def tboot_ui_textbar_def fb_core_def)

lemma progress_step:
  assumes "len \<le> INT_MAX" "0 < sl" "fin + sl \<le> len"
  shows "progress_loop len sl pc fin got s =
    (case usb_read sl s of
       (r, d, s1) \<Rightarrow>
         if r \<noteq> int sl then (-1, got @ d, s1)
         else if fin + sl = len then (int len, got @ d, bar (pc + 1) s1)
         else progress_loop len (min sl (len - (fin + sl)))
                (if fin + sl + sl > len then 99 else pc + 1) (fin + sl) (got @ d) (bar (pc + 1) s1))"
proof -
  have m: "(fin + sl) mod 2 ^ 32 = fin + sl" "(fin + sl + sl) mod 2 ^ 32 = fin + sl + sl"
    using assms by (simp_all add: INT_MAX_def)
  obtain r d s1 where u: "usb_read sl s = (r, d, s1)" by (cases "usb_read sl s") auto
  have sl: "(if sl = 0 then len else sl) = sl" "(if sl = 0 then 99 else pc) = pc" using assms(2) by simp_all
  have "progress_loop len sl pc fin got s =
      (if r \<noteq> int sl then (-1, got @ d, s1)
       else if fin + sl > len then (-1, got @ d, bar (pc + 1) s1)
       else if fin + sl = len then (c_int (fin + sl), got @ d, bar (pc + 1) s1)
       else if fin + sl + sl > len
            then progress_loop len (len - (fin + sl)) 99 (fin + sl) (got @ d) (bar (pc + 1) s1)
            else progress_loop len sl (pc + 1) (fin + sl) (got @ d) (bar (pc + 1) s1))"
    by (subst progress_loop.simps) (simp only: Let_def sl u m prod.case bar_def)
  moreover have "\<not> fin + sl > len" using assms(3) by simp
  moreover have "c_int (fin + sl) = int (fin + sl)" using assms(1,3) by simp
  moreover have "min sl (len - (fin + sl)) = (if fin + sl + sl > len then len - (fin + sl) else sl)"
    using assms(3) by auto
  ultimately show ?thesis unfolding u prod.case by presburger
qed

text \<open>The invariant of the loop survives a turn, so the bytes stored never exceed the announced size.\<close>

lemma progress_bound:
  assumes "len \<le> INT_MAX" "0 < sl" "fin + sl \<le> len" "length got = fin"
    and "progress_loop len sl pc fin got s = (r, d, s')"
  shows "length d \<le> len \<and> (r = -1 \<or> r = int len \<and> length d = len)"
  using assms
proof (induction "len - fin" arbitrary: sl pc fin got s rule: less_induct)
  case less
  obtain r1 d1 s1 where u: "usb_read sl s = (r1, d1, s1)" by (cases "usb_read sl s") auto
  note p = usb_read_props [OF u]
  note step = progress_step [OF less.prems(1-3), of pc got s, unfolded u prod.case]
  show ?case
  proof (cases "r1 = int sl")
    case False
    then have "r = -1" "d = got @ d1" using less.prems(5) step by auto
    then show ?thesis using p(1) less.prems(3,4) by simp
  next
    case True
    then have "c_int (length d1) = int sl" using p(4) by simp
    moreover have "length d1 \<le> INT_MAX" using p(1) less.prems(1,3) by linarith
    ultimately have d1: "length d1 = sl" by simp
    show ?thesis
    proof (cases "fin + sl = len")
      case eq: True
      then show ?thesis using less.prems(4,5) step True d1 by auto
    next
      case False
      let ?sl = "min sl (len - (fin + sl))"
      show ?thesis
      proof (rule less.hyps)
        show "len - (fin + sl) < len - fin" using less.prems(2,3) False by linarith
        show "0 < ?sl" "fin + sl + ?sl \<le> len" using less.prems(2,3) False by auto
        show "length (got @ d1) = fin + sl" using less.prems(4) d1 by simp
        show "progress_loop len ?sl (if fin + sl + sl > len then 99 else pc + 1) (fin + sl)
            (got @ d1) (bar (pc + 1) s1) = (r, d, s')"
          using less.prems(5) step True False by simp
      qed (rule less.prems(1))
    qed
  qed
qed

lemma usb_read_progress_bound:
  assumes "len \<le> INT_MAX" "usb_read_progress len s = (r, d, s')"
  shows "length d \<le> len" "r < 0 \<or> r \<noteq> int len \<or> length d = len"
proof -
  have "length d \<le> len \<and> (r < 0 \<or> r \<noteq> int len \<or> length d = len)"
  proof (cases "len < 4096")
    case True
    then have u: "usb_read len s = (r, d, s')" using assms(2) by (simp add: usb_read_progress_def)
    show ?thesis using usb_read_props(1,4) [OF u] assms(1) by fastforce
  next
    case False
    then have p: "progress_loop len (roundup (len div 100) 4096) 0 0 [] s = (r, d, s')"
      using assms(2) by (simp add: usb_read_progress_def)
    have "4096 \<le> len" using False by simp
    note b = roundup_bounds [OF this]
    show ?thesis
      using progress_bound [OF assms(1) b(1) _ _ p] b(2) by auto
  qed
  then show "length d \<le> len" "r < 0 \<or> r \<noteq> int len \<or> length d = len" by auto
qed

text \<open>A host that sends the announced data in full transfers is read to the last byte.\<close>

lemma bar_frame: "\<exists>log. bar n s = s\<lparr>ui_log := log\<rparr>"
  by (auto simp: bar_def tboot_ui_textbar_def intro: exI [of _ "ui_log s"])

lemma progress_complete:
  assumes "len \<le> INT_MAX" "0 < sl" "fin + sl \<le> len" "length rem = len - fin"
    and "4096 dvd sl \<or> fin + sl = len" "fastboot_state s \<noteq> STATE_ERROR"
    and "usb_in s = map Some (chunks rem) @ rest"
  shows "\<exists>log. progress_loop len sl pc fin got s =
    (int len, got @ rem, s\<lparr>usb_in := rest, ui_log := log\<rparr>)"
  using assms
proof (induction "len - fin" arbitrary: sl pc fin got s rem rule: less_induct)
  case less
  let ?d = "take sl rem" and ?e = "drop sl rem"
  have d: "length ?d = sl" using less.prems(3,4) by simp
  have "chunks rem = chunks ?d @ chunks ?e"
  proof (cases "4096 dvd sl")
    case True
    then show ?thesis using chunks_append [of ?d ?e] d by simp
  next
    case False
    then have "?e = []" using less.prems(4,5) by simp
    moreover from this have "?d = rem" by (metis append_Nil2 append_take_drop_id)
    ultimately show ?thesis by (simp add: chunks.simps [of "[]"])
  qed
  then have "usb_in s = map Some (chunks ?d) @ map Some (chunks ?e) @ rest"
    using less.prems(7) by simp
  from usb_read_chunks [OF less.prems(6) this] have u:
    "usb_read sl s = (int sl, ?d, s\<lparr>usb_in := map Some (chunks ?e) @ rest\<rparr>)"
    using d less.prems(1,3) by simp
  note step = progress_step [OF less.prems(1-3), of pc got s, unfolded u prod.case]
  obtain log where bar: "bar (pc + 1) (s\<lparr>usb_in := map Some (chunks ?e) @ rest\<rparr>) =
      s\<lparr>usb_in := map Some (chunks ?e) @ rest, ui_log := log\<rparr>"
    using bar_frame by blast
  show ?case
  proof (cases "fin + sl = len")
    case True
    then have "?e = []" "?d = rem" using less.prems(4) by simp_all
    then show ?thesis
      using step bar True by (intro exI [of _ log]) (simp add: chunks.simps [of "[]"])
  next
    case False
    let ?sl = "min sl (len - (fin + sl))"
    let ?s = "s\<lparr>usb_in := map Some (chunks ?e) @ rest, ui_log := log\<rparr>"
    let ?pc = "if fin + sl + sl > len then 99 else pc + 1"
    have "\<exists>log'. progress_loop len ?sl ?pc (fin + sl) (got @ ?d) ?s =
        (int len, (got @ ?d) @ ?e, ?s\<lparr>usb_in := rest, ui_log := log'\<rparr>)"
    proof (rule less.hyps)
      show "len - (fin + sl) < len - fin" using less.prems(2,3) False by linarith
      show "0 < ?sl" "fin + sl + ?sl \<le> len" using less.prems(2,3) False by auto
      show "length ?e = len - (fin + sl)" using less.prems(4) by simp
      show "4096 dvd ?sl \<or> fin + sl + ?sl = len"
        using less.prems(3,5) False by (cases "sl \<le> len - (fin + sl)") (auto simp: min_def)
    qed (use less.prems in auto)
    then show ?thesis using step bar False by auto
  qed
qed

lemma usb_read_progress_complete:
  assumes "length data \<le> INT_MAX" "fastboot_state s \<noteq> STATE_ERROR"
    and "usb_in s = map Some (chunks data) @ rest"
  shows "\<exists>log. usb_read_progress (length data) s =
    (int (length data), data, s\<lparr>usb_in := rest, ui_log := log\<rparr>)"
proof (cases "length data < 4096")
  case True
  then show ?thesis
    using usb_read_chunks [OF assms(2,3,1)]
    by (intro exI [of _ "ui_log s"]) (simp add: usb_read_progress_def)
next
  case False
  then have "4096 \<le> length data" by simp
  note b = roundup_bounds [OF this]
  have "\<exists>log. progress_loop (length data) (roundup (length data div 100) 4096) 0 0 [] s =
      (int (length data), [] @ data, s\<lparr>usb_in := rest, ui_log := log\<rparr>)"
    by (rule progress_complete) (use assms b in auto)
  then show ?thesis using False by (simp add: usb_read_progress_def)
qed

end
