(* ===== verification/Fastboot_Loop.thy ===== *)
theory Fastboot_Loop
  imports Fastboot
begin

text \<open>
  What the fastboot server of \<^verbatim>\<open>src/fastboot.c\<close> guarantees: the framing of its answers, the downloads,
  and the command loop over any table of handlers that keeps a small contract.
\<close>

section \<open>Frames\<close>

lemma core_fields [simp]:
  "usb_in (fb_core s) = usb_in s" "cmdlist (fb_core s) = cmdlist s" "varlist (fb_core s) = varlist s"
  "download_base (fb_core s) = download_base s" "download_max (fb_core s) = download_max s"
  "download_size (fb_core s) = download_size s" "action_mutex (fb_core s) = action_mutex s"
  "uevents (fb_core s) = uevents s" "tboot_config (fb_core s) = tboot_config s"
  "alarm_left (fb_core s) = alarm_left s" "lcd_state (fb_core s) = lcd_state s"
  "ui_log (fb_core s) = ui_log s"
  by (simp_all add: fb_core_def)

lemma core_eqD:
  assumes "fb_core t = fb_core s"
  shows "usb_in t = usb_in s" "cmdlist t = cmdlist s" "varlist t = varlist s"
    "download_base t = download_base s" "download_max t = download_max s"
    "download_size t = download_size s" "action_mutex t = action_mutex s"
    "alarm_left t = alarm_left s" "tboot_config t = tboot_config s"
  using arg_cong [OF assms, of usb_in] arg_cong [OF assms, of cmdlist] arg_cong [OF assms, of varlist]
    arg_cong [OF assms, of download_base] arg_cong [OF assms, of download_max]
    arg_cong [OF assms, of download_size] arg_cong [OF assms, of action_mutex]
    arg_cong [OF assms, of alarm_left] arg_cong [OF assms, of tboot_config]
  by simp_all

lemmas ack_core = fastboot_fail_okay_frame(1,3)

lemma info_core: "fb_core (fastboot_info t s) = fb_core s"
  using fastboot_info_sends [of s t] by (simp add: sends_def)

lemma info_state: "fastboot_state s = STATE_COMMAND \<Longrightarrow>
    fastboot_state (fastboot_info t s) = STATE_COMMAND \<or> fastboot_state (fastboot_info t s) = STATE_ERROR"
  using fastboot_info_sends [of s t] by (auto simp: sends_def)

lemma okay_fail_fields [simp]:
  "usb_in (fastboot_fail t s) = usb_in s" "usb_in (fastboot_okay t s) = usb_in s"
  "usb_in (fastboot_info t s) = usb_in s"
  "download_base (fastboot_fail t s) = download_base s" "download_base (fastboot_okay t s) = download_base s"
  "download_base (fastboot_info t s) = download_base s"
  "download_max (fastboot_fail t s) = download_max s" "download_max (fastboot_okay t s) = download_max s"
  "download_max (fastboot_info t s) = download_max s"
  "download_size (fastboot_fail t s) = download_size s" "download_size (fastboot_okay t s) = download_size s"
  "download_size (fastboot_info t s) = download_size s"
  "action_mutex (fastboot_fail t s) = action_mutex s" "action_mutex (fastboot_okay t s) = action_mutex s"
  "action_mutex (fastboot_info t s) = action_mutex s"
  "cmdlist (fastboot_fail t s) = cmdlist s" "cmdlist (fastboot_okay t s) = cmdlist s"
  "cmdlist (fastboot_info t s) = cmdlist s"
  "varlist (fastboot_fail t s) = varlist s" "varlist (fastboot_okay t s) = varlist s"
  "varlist (fastboot_info t s) = varlist s"
  "alarm_left (fastboot_fail t s) = alarm_left s" "alarm_left (fastboot_okay t s) = alarm_left s"
  "fastboot_state (fastboot_fail t s) = STATE_COMPLETE"
  "fastboot_state (fastboot_okay t s) = STATE_COMPLETE"
  using ack_core [of t s] info_core [of t s] core_eqD fastboot_fail_okay_frame by metis+

text \<open>The functions on the shared globals leave the server's own fields alone.\<close>

lemma globals_cmdlist [simp]:
  "cmdlist (lcd_signal ev s) = cmdlist s" "cmdlist (CLEAR_ALARM s) = cmdlist s"
  "cmdlist (RESET_ALARM s) = cmdlist s" "cmdlist (disable_autoboot s) = cmdlist s"
  "cmdlist (enable_keypress s) = cmdlist s" "cmdlist (disable_keypress s) = cmdlist s"
  "cmdlist (tboot_ui_textbar n t s) = cmdlist s" "cmdlist (tboot_ui_hidebar t s) = cmdlist s"
  "cmdlist (tboot_ui_bouncebar t s) = cmdlist s" "cmdlist (tboot_ui_info t s) = cmdlist s"
  "cmdlist (tboot_ui_warn t s) = cmdlist s" "cmdlist (tboot_ui_error t s) = cmdlist s"
  "cmdlist (snd (config_atoi k s)) = cmdlist s" "cmdlist (snd (check_battery s)) = cmdlist s"
  by (simp_all add: globals_defs Let_def split: option.split prod.split)

lemma globals_varlist [simp]:
  "varlist (lcd_signal ev s) = varlist s" "varlist (CLEAR_ALARM s) = varlist s"
  "varlist (RESET_ALARM s) = varlist s" "varlist (disable_autoboot s) = varlist s"
  "varlist (enable_keypress s) = varlist s" "varlist (disable_keypress s) = varlist s"
  "varlist (tboot_ui_textbar n t s) = varlist s" "varlist (tboot_ui_hidebar t s) = varlist s"
  "varlist (tboot_ui_bouncebar t s) = varlist s" "varlist (tboot_ui_info t s) = varlist s"
  "varlist (tboot_ui_warn t s) = varlist s" "varlist (tboot_ui_error t s) = varlist s"
  "varlist (snd (config_atoi k s)) = varlist s" "varlist (snd (check_battery s)) = varlist s"
  by (simp_all add: globals_defs Let_def split: option.split prod.split)

lemma globals_download_base [simp]:
  "download_base (lcd_signal ev s) = download_base s" "download_base (CLEAR_ALARM s) = download_base s"
  "download_base (RESET_ALARM s) = download_base s"
  "download_base (disable_autoboot s) = download_base s"
  "download_base (enable_keypress s) = download_base s"
  "download_base (disable_keypress s) = download_base s"
  "download_base (tboot_ui_textbar n t s) = download_base s"
  "download_base (tboot_ui_hidebar t s) = download_base s"
  "download_base (tboot_ui_bouncebar t s) = download_base s"
  "download_base (tboot_ui_info t s) = download_base s"
  "download_base (tboot_ui_warn t s) = download_base s"
  "download_base (tboot_ui_error t s) = download_base s"
  "download_base (snd (config_atoi k s)) = download_base s"
  "download_base (snd (check_battery s)) = download_base s"
  by (simp_all add: globals_defs Let_def split: option.split prod.split)

lemma globals_download_max [simp]:
  "download_max (lcd_signal ev s) = download_max s" "download_max (CLEAR_ALARM s) = download_max s"
  "download_max (RESET_ALARM s) = download_max s" "download_max (disable_autoboot s) = download_max s"
  "download_max (enable_keypress s) = download_max s"
  "download_max (disable_keypress s) = download_max s"
  "download_max (tboot_ui_textbar n t s) = download_max s"
  "download_max (tboot_ui_hidebar t s) = download_max s"
  "download_max (tboot_ui_bouncebar t s) = download_max s"
  "download_max (tboot_ui_info t s) = download_max s" "download_max (tboot_ui_warn t s) = download_max s"
  "download_max (tboot_ui_error t s) = download_max s"
  "download_max (snd (config_atoi k s)) = download_max s"
  "download_max (snd (check_battery s)) = download_max s"
  by (simp_all add: globals_defs Let_def split: option.split prod.split)

lemma globals_download_size [simp]:
  "download_size (lcd_signal ev s) = download_size s" "download_size (CLEAR_ALARM s) = download_size s"
  "download_size (RESET_ALARM s) = download_size s"
  "download_size (disable_autoboot s) = download_size s"
  "download_size (enable_keypress s) = download_size s"
  "download_size (disable_keypress s) = download_size s"
  "download_size (tboot_ui_textbar n t s) = download_size s"
  "download_size (tboot_ui_hidebar t s) = download_size s"
  "download_size (tboot_ui_bouncebar t s) = download_size s"
  "download_size (tboot_ui_info t s) = download_size s"
  "download_size (tboot_ui_warn t s) = download_size s"
  "download_size (tboot_ui_error t s) = download_size s"
  "download_size (snd (config_atoi k s)) = download_size s"
  "download_size (snd (check_battery s)) = download_size s"
  by (simp_all add: globals_defs Let_def split: option.split prod.split)

lemma globals_fastboot_state [simp]:
  "fastboot_state (lcd_signal ev s) = fastboot_state s"
  "fastboot_state (CLEAR_ALARM s) = fastboot_state s" "fastboot_state (RESET_ALARM s) = fastboot_state s"
  "fastboot_state (disable_autoboot s) = fastboot_state s"
  "fastboot_state (enable_keypress s) = fastboot_state s"
  "fastboot_state (disable_keypress s) = fastboot_state s"
  "fastboot_state (tboot_ui_textbar n t s) = fastboot_state s"
  "fastboot_state (tboot_ui_hidebar t s) = fastboot_state s"
  "fastboot_state (tboot_ui_bouncebar t s) = fastboot_state s"
  "fastboot_state (tboot_ui_info t s) = fastboot_state s"
  "fastboot_state (tboot_ui_warn t s) = fastboot_state s"
  "fastboot_state (tboot_ui_error t s) = fastboot_state s"
  "fastboot_state (snd (config_atoi k s)) = fastboot_state s"
  "fastboot_state (snd (check_battery s)) = fastboot_state s"
  by (simp_all add: globals_defs Let_def split: option.split prod.split)

lemma globals_usb_in [simp]:
  "usb_in (lcd_signal ev s) = usb_in s" "usb_in (CLEAR_ALARM s) = usb_in s"
  "usb_in (RESET_ALARM s) = usb_in s" "usb_in (disable_autoboot s) = usb_in s"
  "usb_in (enable_keypress s) = usb_in s" "usb_in (disable_keypress s) = usb_in s"
  "usb_in (tboot_ui_textbar n t s) = usb_in s" "usb_in (tboot_ui_hidebar t s) = usb_in s"
  "usb_in (tboot_ui_bouncebar t s) = usb_in s" "usb_in (tboot_ui_info t s) = usb_in s"
  "usb_in (tboot_ui_warn t s) = usb_in s" "usb_in (tboot_ui_error t s) = usb_in s"
  "usb_in (snd (config_atoi k s)) = usb_in s" "usb_in (snd (check_battery s)) = usb_in s"
  by (simp_all add: globals_defs Let_def split: option.split prod.split)

lemma globals_usb_wr [simp]:
  "usb_wr (lcd_signal ev s) = usb_wr s" "usb_wr (CLEAR_ALARM s) = usb_wr s"
  "usb_wr (RESET_ALARM s) = usb_wr s" "usb_wr (disable_autoboot s) = usb_wr s"
  "usb_wr (enable_keypress s) = usb_wr s" "usb_wr (disable_keypress s) = usb_wr s"
  "usb_wr (tboot_ui_textbar n t s) = usb_wr s" "usb_wr (tboot_ui_hidebar t s) = usb_wr s"
  "usb_wr (tboot_ui_bouncebar t s) = usb_wr s" "usb_wr (tboot_ui_info t s) = usb_wr s"
  "usb_wr (tboot_ui_warn t s) = usb_wr s" "usb_wr (tboot_ui_error t s) = usb_wr s"
  "usb_wr (snd (config_atoi k s)) = usb_wr s" "usb_wr (snd (check_battery s)) = usb_wr s"
  by (simp_all add: globals_defs Let_def split: option.split prod.split)

lemma globals_usb_out [simp]:
  "usb_out (lcd_signal ev s) = usb_out s" "usb_out (CLEAR_ALARM s) = usb_out s"
  "usb_out (RESET_ALARM s) = usb_out s" "usb_out (disable_autoboot s) = usb_out s"
  "usb_out (enable_keypress s) = usb_out s" "usb_out (disable_keypress s) = usb_out s"
  "usb_out (tboot_ui_textbar n t s) = usb_out s" "usb_out (tboot_ui_hidebar t s) = usb_out s"
  "usb_out (tboot_ui_bouncebar t s) = usb_out s" "usb_out (tboot_ui_info t s) = usb_out s"
  "usb_out (tboot_ui_warn t s) = usb_out s" "usb_out (tboot_ui_error t s) = usb_out s"
  "usb_out (snd (config_atoi k s)) = usb_out s" "usb_out (snd (check_battery s)) = usb_out s"
  by (simp_all add: globals_defs Let_def split: option.split prod.split)

lemma globals_action_mutex [simp]:
  "action_mutex (lcd_signal ev s) = action_mutex s" "action_mutex (CLEAR_ALARM s) = action_mutex s"
  "action_mutex (RESET_ALARM s) = action_mutex s" "action_mutex (disable_autoboot s) = action_mutex s"
  "action_mutex (enable_keypress s) = action_mutex s"
  "action_mutex (disable_keypress s) = action_mutex s"
  "action_mutex (tboot_ui_textbar n t s) = action_mutex s"
  "action_mutex (tboot_ui_hidebar t s) = action_mutex s"
  "action_mutex (tboot_ui_bouncebar t s) = action_mutex s"
  "action_mutex (tboot_ui_info t s) = action_mutex s" "action_mutex (tboot_ui_warn t s) = action_mutex s"
  "action_mutex (tboot_ui_error t s) = action_mutex s"
  "action_mutex (snd (config_atoi k s)) = action_mutex s"
  "action_mutex (snd (check_battery s)) = action_mutex s"
  by (simp_all add: globals_defs Let_def split: option.split prod.split)

section \<open>The contract of a handler\<close>

text \<open>
  The download buffer is as large as \<^verbatim>\<open>download_max\<close> says and holds what \<^verbatim>\<open>download_size\<close> announces.
  \<^verbatim>\<open>malloc\<close> never delivers more than \<open>INT_MAX\<close> bytes.
\<close>

definition buffer_ok :: "('h, 'z) fb_scheme \<Rightarrow> bool" where
  "buffer_ok s \<longleftrightarrow> length (download_base s) = download_max s \<and> download_size s \<le> download_max s \<and>
     download_max s \<le> INT_MAX"

definition in_command :: "('h, 'z) fb_scheme \<Rightarrow> bool" where
  "in_command s \<longleftrightarrow> fastboot_state s \<in> {STATE_COMMAND, STATE_COMPLETE, STATE_ERROR}"

lemma in_command_ack [simp]: "in_command (fastboot_fail t s)" "in_command (fastboot_okay t s)"
  by (simp_all add: in_command_def)

lemma buffer_ok_fields [simp]:
  "buffer_ok (lcd_signal ev s) = buffer_ok s" "buffer_ok (CLEAR_ALARM s) = buffer_ok s"
  "buffer_ok (RESET_ALARM s) = buffer_ok s" "buffer_ok (disable_autoboot s) = buffer_ok s"
  "buffer_ok (enable_keypress s) = buffer_ok s" "buffer_ok (disable_keypress s) = buffer_ok s"
  "buffer_ok (tboot_ui_textbar n t s) = buffer_ok s" "buffer_ok (tboot_ui_hidebar t s) = buffer_ok s"
  "buffer_ok (tboot_ui_bouncebar t s) = buffer_ok s" "buffer_ok (tboot_ui_info t s) = buffer_ok s"
  "buffer_ok (tboot_ui_warn t s) = buffer_ok s" "buffer_ok (tboot_ui_error t s) = buffer_ok s"
  "buffer_ok (snd (config_atoi k s)) = buffer_ok s" "buffer_ok (snd (check_battery s)) = buffer_ok s"
  "buffer_ok (fastboot_fail t s) = buffer_ok s" "buffer_ok (fastboot_okay t s) = buffer_ok s"
  "buffer_ok (fastboot_info t s) = buffer_ok s"
  "buffer_ok (s\<lparr>action_mutex := b\<rparr>) = buffer_ok s" "buffer_ok (s\<lparr>fastboot_state := st\<rparr>) = buffer_ok s"
  "buffer_ok (s\<lparr>usb_in := i\<rparr>) = buffer_ok s"
  by (simp_all add: buffer_ok_def)

text \<open>
  Every command ends in one of two ways: it is refused, or its handler ran and the loop closed the
  session if the handler had not.
\<close>

definition closed_session :: "('h, 'z) fb_scheme \<Rightarrow> ('h, 'z) fb_scheme" where
  "closed_session v =
     (let w = (enable_keypress v)\<lparr>action_mutex := False\<rparr>
      in RESET_ALARM (if fastboot_state w = STATE_COMMAND then fastboot_fail ''unknown reason'' w else w))"

lemma closed_session_fields [simp]:
  "usb_in (closed_session v) = usb_in v" "buffer_ok (closed_session v) = buffer_ok v"
  "action_mutex (closed_session v) = False"
  by (simp_all add: closed_session_def Let_def)

lemma closed_session_state:
  "in_command v \<Longrightarrow> fastboot_state (closed_session v) \<in> {STATE_COMPLETE, STATE_ERROR}"
  by (auto simp: closed_session_def Let_def in_command_def)

lemma fastboot_command_cases:
  assumes "fastboot_command run buf s = Some t"
  obtains (refused) reason u where "t = fastboot_fail reason u" "usb_in u = usb_in s"
      "buffer_ok u = buffer_ok s" "action_mutex u = action_mutex s" "fastboot_state u = STATE_COMMAND"
    | (handled) h arg u v where "run h arg u = Some v" "t = closed_session v" "usb_in u = usb_in s"
      "buffer_ok u = buffer_ok s" "fastboot_state u = STATE_COMMAND" "action_mutex u"
      "\<not> action_mutex s"
proof -
  let ?s1 = "lcd_signal LCD_COMMAND (CLEAR_ALARM (s\<lparr>fastboot_state := STATE_COMMAND\<rparr>))"
  let ?s2 = "snd (check_battery (disable_autoboot ?s1))"
  note d = assms [unfolded fastboot_command_def Let_def case_prod_beta]
  show thesis
  proof (cases "find (\<lambda>p. starts_with (fst p) buf) (cmdlist ?s1)")
    case None
    then have "t = fastboot_fail ''unknown command'' ?s1" using d by simp
    then show thesis by (rule refused) simp_all
  next
    case (Some p)
    let ?blocked = "if fst (check_battery (disable_autoboot ?s1)) \<noteq> 0
      then find (\<lambda>c. starts_with c buf) low_battery_cmds else None"
    show thesis
    proof (cases ?blocked)
      case (Some c)
      then show thesis
        using d \<open>find _ _ = Some p\<close>
        by (intro refused [of "''can't do this operation when battery low''"
            "tboot_ui_warn (''Battery < '' @ show_int (fst (config_atoi ''battery_threshold'' ?s2))
               @ ''%, ignore operation '' @ [CHR 0x27] @ c @ [CHR 0x27] @ ''.'')
               (snd (config_atoi ''battery_threshold'' ?s2))"]) simp_all
    next
      case None
      let ?u = "disable_keypress (?s2\<lparr>action_mutex := True\<rparr>)"
      have m: "\<not> action_mutex s" using d \<open>find _ _ = Some p\<close> None by (auto split: if_splits)
      then obtain v where "run (snd p) (c_str (drop (length (fst p)) buf)) ?u = Some v" "t = closed_session v"
        using d \<open>find _ _ = Some p\<close> None by (auto simp: closed_session_def Let_def split: option.splits)
      then show thesis
        by (rule handled) (use m in simp_all)
    qed
  qed
qed

text \<open>
  A handler reads from the host but cannot give answers back, leaves the mutex to the loop, keeps the
  download buffer consistent and never takes the server offline.
\<close>

locale fastboot_handlers =
  fixes run :: "'h \<Rightarrow> string \<Rightarrow> ('h, 'z) fb_scheme \<Rightarrow> ('h, 'z) fb_scheme option"
  assumes run_reads: "run h arg s = Some t \<Longrightarrow> length (usb_in t) \<le> length (usb_in s)"
    and run_buffer: "run h arg s = Some t \<Longrightarrow> buffer_ok s \<Longrightarrow> buffer_ok t"
    and run_state: "run h arg s = Some t \<Longrightarrow> in_command s \<Longrightarrow> in_command t"
begin

lemma command_reads:
  "fastboot_command run buf s = Some t \<Longrightarrow> length (usb_in t) \<le> length (usb_in s)"
  by (elim fastboot_command_cases) (auto dest!: run_reads)

lemma command_buffer:
  "fastboot_command run buf s = Some t \<Longrightarrow> buffer_ok s \<Longrightarrow> buffer_ok t"
  by (elim fastboot_command_cases) (auto intro: run_buffer)

lemma command_state:
  assumes "fastboot_command run buf s = Some t"
  shows "fastboot_state t \<in> {STATE_COMPLETE, STATE_ERROR}"
  using assms
proof (cases rule: fastboot_command_cases)
  case (handled h arg u v)
  have "in_command u" using handled(5) by (simp add: in_command_def)
  then show ?thesis using closed_session_state [OF run_state [OF handled(1)]] handled(2) by simp
qed simp

lemma loop_ends:
  "\<exists>r. fastboot_command_loop run s = Some r \<and>
     (\<forall>t. r = Some t \<longrightarrow> fastboot_state t = STATE_OFFLINE \<and> (buffer_ok s \<longrightarrow> buffer_ok t))"
proof (induction "length (usb_in s)" arbitrary: s rule: less_induct)
  case less
  obtain r buf s1 where u: "usb_read 64 s = (r, buf, s1)" by (cases "usb_read 64 s") auto
  note p = usb_read_props [OF u]
  have b: "buffer_ok s1 = buffer_ok s" by (subst p(5)) simp
  show ?case
  proof (cases "fastboot_state s = STATE_ERROR \<or> r < 0")
    case True
    then show ?thesis using u b by (subst fastboot_command_loop.simps) auto
  next
    case False
    then have shorter: "length (usb_in s1) < length (usb_in s)" using p(3) by simp
    show ?thesis
    proof (cases "fastboot_command run buf s1")
      case None
      then show ?thesis using u False by (subst fastboot_command_loop.simps) auto
    next
      case (Some s2)
      have "length (usb_in s2) < length (usb_in s)" using command_reads [OF Some] shorter by simp
      from less.hyps [OF this] command_buffer [OF Some] b
      show ?thesis using u False Some by (subst fastboot_command_loop.simps) auto
    qed
  qed
qed

end

section \<open>Reading\<close>

text \<open>
  A read changes nothing but the answers still to come and the progress display; it may put the server
  in error.
\<close>

definition reads :: "('h, 'z) fb_scheme \<Rightarrow> ('h, 'z) fb_scheme \<Rightarrow> bool" where
  "reads s t \<longleftrightarrow>
     t\<lparr>usb_in := [], ui_log := [], fastboot_state := STATE_OFFLINE\<rparr> =
       s\<lparr>usb_in := [], ui_log := [], fastboot_state := STATE_OFFLINE\<rparr> \<and>
     length (usb_in t) \<le> length (usb_in s) \<and>
     (fastboot_state t = fastboot_state s \<or> fastboot_state t = STATE_ERROR)"

lemma reads_refl [simp]: "reads s s"
  by (simp add: reads_def)

lemma reads_trans: "reads s t \<Longrightarrow> reads t u \<Longrightarrow> reads s u"
  by (auto simp: reads_def)

lemma reads_field:
  assumes "reads s t" "\<And>u. f (u\<lparr>usb_in := [], ui_log := [], fastboot_state := STATE_OFFLINE\<rparr>) = f u"
  shows "f t = f s"
  using assms by (metis reads_def)

lemma readsD:
  assumes "reads s t"
  shows "download_base t = download_base s" "download_max t = download_max s"
    "download_size t = download_size s" "usb_out t = usb_out s" "usb_wr t = usb_wr s" "ub t = ub s"
    "length (usb_in t) \<le> length (usb_in s)" "buffer_ok t = buffer_ok s"
    "in_command s \<Longrightarrow> in_command t"
proof -
  show base: "download_base t = download_base s" "download_max t = download_max s"
    "download_size t = download_size s" "usb_out t = usb_out s" "usb_wr t = usb_wr s" "ub t = ub s"
    by (rule reads_field [OF assms], simp)+
  show "length (usb_in t) \<le> length (usb_in s)" "in_command s \<Longrightarrow> in_command t"
    using assms by (auto simp: reads_def in_command_def)
  show "buffer_ok t = buffer_ok s" using base by (simp add: buffer_ok_def)
qed

lemma usb_read_reads: "usb_read len s = (r, d, t) \<Longrightarrow> reads s t"
  using usb_read_loop_props [of len "usb_in s"]
  by (cases "usb_read_loop len (usb_in s)") (auto simp: usb_read_def reads_def split: if_splits)

lemma bar_reads: "reads s (bar n s)"
  by (simp add: reads_def bar_def tboot_ui_textbar_def)

lemma progress_loop_reads: "progress_loop len sl pc fin got s = (r, d, t) \<Longrightarrow> reads s t"
proof (induction len sl pc fin got s arbitrary: r d t rule: progress_loop.induct)
  case (1 len sl pc fin got s)
  let ?sl = "if sl = 0 then len else sl" and ?pc = "(if sl = 0 then 99 else pc) + 1"
  obtain r1 d1 s1 where u: "usb_read ?sl s = (r1, d1, s1)" by (cases "usb_read ?sl s") auto
  let ?fin = "(fin + ?sl) mod 2 ^ 32"
  note eq = "1.prems" [unfolded progress_loop.simps [of len sl] Let_def u prod.case bar_def [symmetric]]
  have s1: "reads s s1" "reads s (bar ?pc s1)"
    using usb_read_reads [OF u] bar_reads by (auto intro: reads_trans)
  show ?case
  proof (cases "r1 \<noteq> int ?sl \<or> ?fin > len \<or> ?fin = len")
    case True
    then show ?thesis using eq s1 by (auto split: if_splits)
  next
    case False
    note IH = "1.IH" [OF refl refl u [symmetric] refl, folded bar_def, OF _ refl refl refl]
    show ?thesis
    proof (cases "(?fin + ?sl) mod 2 ^ 32 > len")
      case True
      then have "progress_loop len (len - ?fin) 99 ?fin (got @ d1) (bar ?pc s1) = (r, d, t)"
        using eq False by simp
      from IH(1) [OF _ _ _ True this] False show ?thesis using s1 by (auto intro: reads_trans)
    next
      case F: False
      then have "progress_loop len ?sl ?pc ?fin (got @ d1) (bar ?pc s1) = (r, d, t)"
        using eq False by simp
      from IH(2) [OF _ _ _ F this] False show ?thesis using s1 by (auto intro: reads_trans)
    qed
  qed
qed

lemma usb_read_progress_reads: "usb_read_progress len s = (r, d, t) \<Longrightarrow> reads s t"
  by (auto simp: usb_read_progress_def intro: usb_read_reads progress_loop_reads split: if_splits)

section \<open>The server's own handlers keep the contract\<close>

text \<open>What the contract asks of one step from \<open>s\<close> to \<open>t\<close>.\<close>

definition keeps :: "('h, 'z) fb_scheme \<Rightarrow> ('h, 'z) fb_scheme \<Rightarrow> bool" where
  "keeps s t \<longleftrightarrow> length (usb_in t) \<le> length (usb_in s) \<and> (buffer_ok s \<longrightarrow> buffer_ok t) \<and>
     (in_command s \<longrightarrow> in_command t)"

named_theorems keeps_intros \<open>steps that keep the contract\<close>

lemma keeps_refl [simp, keeps_intros]: "keeps s s"
  by (simp add: keeps_def)

lemma keeps_trans: "keeps s t \<Longrightarrow> keeps t u \<Longrightarrow> keeps s u"
  by (auto simp: keeps_def)

lemma keeps_ui [keeps_intros]:
  "keeps s (tboot_ui_textbar n t s)" "keeps s (tboot_ui_hidebar t s)"
  "keeps s (tboot_ui_bouncebar t s)" "keeps s (tboot_ui_info t s)" "keeps s (tboot_ui_warn t s)"
  "keeps s (tboot_ui_error t s)"
  by (simp_all add: keeps_def in_command_def)

lemma keeps_acks [keeps_intros]:
  "keeps s (fastboot_fail t s)" "keeps s (fastboot_okay t s)" "keeps s (fastboot_info t s)"
proof -
  show "keeps s (fastboot_fail t s)" "keeps s (fastboot_okay t s)" by (simp_all add: keeps_def)
  have "in_command (fastboot_info t s)" if "in_command s"
    using that fastboot_info_sends [of s t] by (auto simp: in_command_def sends_def)
  then show "keeps s (fastboot_info t s)" by (simp add: keeps_def)
qed

lemma keeps_state [keeps_intros]: "keeps s (s\<lparr>fastboot_state := STATE_ERROR\<rparr>)"
  by (simp add: keeps_def in_command_def)

text \<open>The same steps at the end of a longer run.\<close>

lemma keeps_then [keeps_intros]:
  "keeps s u \<Longrightarrow> keeps s (tboot_ui_textbar n t u)" "keeps s u \<Longrightarrow> keeps s (tboot_ui_hidebar t u)"
  "keeps s u \<Longrightarrow> keeps s (tboot_ui_bouncebar t u)" "keeps s u \<Longrightarrow> keeps s (tboot_ui_info t u)"
  "keeps s u \<Longrightarrow> keeps s (tboot_ui_warn t u)" "keeps s u \<Longrightarrow> keeps s (tboot_ui_error t u)"
  "keeps s u \<Longrightarrow> keeps s (fastboot_fail t u)" "keeps s u \<Longrightarrow> keeps s (fastboot_okay t u)"
  "keeps s u \<Longrightarrow> keeps s (fastboot_info t u)"
  "keeps s u \<Longrightarrow> keeps s (u\<lparr>fastboot_state := STATE_ERROR\<rparr>)"
  by (blast intro: keeps_trans keeps_ui keeps_acks keeps_state)+

lemma reads_keeps: "reads s t \<Longrightarrow> keeps s t"
  using readsD(7-9) by (auto simp: keeps_def)

lemma sends_keeps:
  assumes "sends s t"
  shows "keeps s t"
proof -
  have "fb_core t = fb_core s" using assms by (simp add: sends_def)
  note core_eqD [OF this]
  then show ?thesis using assms by (auto simp: keeps_def buffer_ok_def in_command_def sends_def)
qed

lemma usb_write_keeps: "usb_write buf s = (r, t) \<Longrightarrow> keeps s t"
  using usb_write_sends [of s buf] by (simp add: sends_keeps)

lemma response_data_sends: "response_data len s = (r, t) \<Longrightarrow> sends s t"
  using usb_write_sends [of s "''DATA'' @ show_hex_padded 8 len"]
  by (auto simp: response_data_def Let_def split: prod.splits if_splits)

lemmas response_data_keeps = response_data_sends [THEN sends_keeps]

lemma streaming_download_keeps: "streaming_download len resp s = (r, d, t) \<Longrightarrow> keeps s t"
  by (auto simp: streaming_download_def split: prod.splits if_splits
      dest: response_data_keeps usb_read_reads [THEN reads_keeps])

lemma keeps_fold:
  "(\<And>x t. keeps t (f x t)) \<Longrightarrow> keeps s (fold f xs s)"
  by (induction xs arbitrary: s) (auto intro: keeps_trans)

lemma keeps_cmd_getvar [keeps_intros]: "keeps s (cmd_getvar arg s)"
proof -
  have "keeps u (fold (\<lambda>(name, value) t. fastboot_info [newline] (fastboot_info name t)) vs u)" for vs u
    by (rule keeps_fold) (auto simp: case_prod_beta intro!: keeps_then)
  then have "keeps s (fold (\<lambda>(name, value) t. fastboot_info [newline] (fastboot_info name t)) vs
      (fastboot_info m s))" for vs m
    by (rule keeps_trans [rotated]) (rule keeps_acks)
  then show ?thesis
    unfolding cmd_getvar_def Let_def by (auto split: option.split intro!: keeps_then)
qed

text \<open>Storing what was read keeps the buffer consistent, since a read never exceeds the announced size.\<close>

lemma store_length [simp]: "length d \<le> length base \<Longrightarrow> length (store d base) = length base"
  by (simp add: store_def)

lemma keeps_store:
  assumes "usb_read_progress len s = (r, d, t)" "len \<le> download_max s"
  shows "keeps s (t\<lparr>download_base := store d (download_base t)\<rparr>)"
proof -
  note rd = usb_read_progress_reads [OF assms(1)]
  have "buffer_ok (t\<lparr>download_base := store d (download_base t)\<rparr>)" if "buffer_ok s"
  proof -
    have "len \<le> INT_MAX" using that assms(2) by (simp add: buffer_ok_def)
    then have "length d \<le> len" by (rule usb_read_progress_bound(1) [OF _ assms(1)])
    then show ?thesis using that assms(2) readsD(1-3) [OF rd] by (simp add: buffer_ok_def)
  qed
  then show ?thesis using readsD(7,9) [OF rd] by (auto simp: keeps_def in_command_def)
qed

lemma download_to_keeps: "download_to len s = (r, t) \<Longrightarrow> keeps s t"
proof -
  assume d: "download_to len s = (r, t)"
  show "keeps s t"
  proof (cases "len > download_max s")
    case True
    then show ?thesis using d by (auto simp: download_to_def intro: keeps_intros)
  next
    case False
    obtain r1 s1 where r1: "response_data len s = (r1, s1)" by (cases "response_data len s")
    obtain r2 b s2 where r2: "usb_read_progress len s1 = (r2, b, s2)" by (cases "usb_read_progress len s1") auto
    let ?s3 = "s2\<lparr>download_base := store b (download_base s2)\<rparr>"
    have "sends s s1" by (rule response_data_sends [OF r1])
    then have m: "download_max s1 = download_max s" using core_eqD(5) [of s1 s] by (simp add: sends_def)
    have k: "keeps s s1" "keeps s1 ?s3"
      using response_data_keeps [OF r1] keeps_store [OF r2] False m by auto
    have "t \<in> {s1, ?s3\<lparr>fastboot_state := STATE_ERROR\<rparr>, tboot_ui_hidebar [] ?s3}"
      using d False r1 r2 by (auto simp: download_to_def Let_def split: if_splits)
    then show ?thesis using k keeps_trans [OF k] by (auto intro: keeps_then)
  qed
qed

lemma keeps_cmd_download [keeps_intros]: "keeps s (cmd_download arg s)"
proof -
  let ?len = "strtoul 32 16 arg" and ?s = "s\<lparr>download_size := 0\<rparr>"
  have s: "keeps s ?s" by (simp add: keeps_def buffer_ok_def in_command_def)
  show ?thesis
  proof (cases "?len > download_max ?s")
    case True
    then show ?thesis using s by (auto simp: cmd_download_def Let_def intro: keeps_then)
  next
    case False
    obtain r1 s1 where r1: "response_data ?len ?s = (r1, s1)" by (cases "response_data ?len ?s")
    obtain r2 b s2 where r2: "usb_read_progress ?len s1 = (r2, b, s2)"
      by (cases "usb_read_progress ?len s1") auto
    let ?s3 = "s2\<lparr>download_base := store b (download_base s2)\<rparr>"
    have "sends ?s s1" by (rule response_data_sends [OF r1])
    then have m: "download_max s1 = download_max s" using core_eqD(5) [of s1 ?s] by (simp add: sends_def)
    have k: "keeps s s1" "keeps s1 ?s3"
      using response_data_keeps [OF r1] keeps_store [OF r2] False m s by (auto intro: keeps_trans)
    have m3: "download_max ?s3 = download_max s"
      using m readsD(2) [OF usb_read_progress_reads [OF r2]] by simp
    have "keeps ?s3 (?s3\<lparr>download_size := ?len\<rparr>)"
      using False m3 by (auto simp: keeps_def buffer_ok_def in_command_def)
    then have k3: "keeps s (?s3\<lparr>download_size := ?len\<rparr>)" "keeps s ?s3" using k by (auto intro: keeps_trans)
    have "cmd_download arg s \<in> {s1, tboot_ui_error ''Download failed.'' (?s3\<lparr>fastboot_state := STATE_ERROR\<rparr>),
        fastboot_okay [] (tboot_ui_hidebar [] (?s3\<lparr>download_size := ?len\<rparr>))}"
      using False r1 r2 by (auto simp: cmd_download_def Let_def)
    then show ?thesis using k k3 by (auto intro!: keeps_then)
  qed
qed

section \<open>Properties\<close>

definition example_fb :: "nat fb" where
  "example_fb = \<lparr>tboot_config = Some default_table, lcd_state = Lcd_on, lcd_panel = example_panel,
     alarm_left = 0, uevents = example_status, autoboot_enabled = False, power_pressed = False,
     ignore_keypress = False, action_mutex = False, pipe_broken = False, ui_log = [], ub = False,
     cmdlist = [(''flash:'', 0), (''getvar:'', 1)], varlist = [(''product'', ''lexington'')],
     download_base = replicate 16 (CHR ''x''), download_max = 16, download_size = 0,
     fastboot_state = STATE_COMMAND, usb_in = [], usb_wr = [], usb_out = []\<rparr>"

lemma packets_payload: "concat (map (drop (length code)) (packets code reason)) = reason"
proof (induction code reason rule: packets.induct)
  case (1 code reason)
  then show ?case by (subst packets.simps) simp
qed

lemma packets_frame:
  "p \<in> set (packets code reason) \<Longrightarrow> length p \<le> length code + 59 \<and> take (length code) p = code"
proof (induction code reason rule: packets.induct)
  case (1 code reason)
  then show ?case by (subst (asm) packets.simps) (auto split: if_splits)
qed



text \<open>
  A failed write of an answer is not survived: when the first packet cannot be written, the
  acknowledgement moves its read pointer before the start of the message.
\<close>

theorem ack_write_error:
  assumes "usb_wr s = r # rest" "r < 0" "fastboot_state s = STATE_COMMAND"
  shows "ub (fastboot_okay reason s) \<and> ub (fastboot_fail reason s) \<and> ub (fastboot_info reason s)"
proof -
  have "ub (ack_loop code reason 0 s)" for code
    using assms by (subst ack_loop.simps) (simp add: usb_write_def Let_def)
  then show ?thesis
    using assms(3)
    by (simp add: fastboot_okay_def fastboot_fail_def fastboot_info_def fastboot_ack_def)
qed

theorem ack_write_error_witness:
  "ub (fastboot_okay ''done'' (example_fb\<lparr>usb_wr := [-1]\<rparr>))"
  using ack_write_error [of "example_fb\<lparr>usb_wr := [-1]\<rparr>" "-1" "[]" "''done''"]
  by (simp add: example_fb_def)

text \<open>
  C7. A complete download: when the host announces \<open>n\<close> bytes that fit and sends them in full
  transfers, the server announces the same number in eight hexadecimal digits, stores exactly the
  data at the start of its buffer, records the size, leaves the rest of the stream unread and answers
  OKAY.
\<close>

theorem download_complete:
  assumes "length data \<le> download_max s" "download_max s \<le> INT_MAX" "usb_wr s = []"
    and "fastboot_state s = STATE_COMMAND" "usb_in s = map Some (chunks data) @ rest"
    and "arg = show_hex_padded 8 (length data)"
  shows "\<exists>t. cmd_download arg s = t \<and> download_size t = length data \<and>
    download_base t = data @ drop (length data) (download_base s) \<and> usb_in t = rest \<and>
    usb_out t = usb_out s @ [''DATA'' @ arg, ''OKAY''] \<and> fastboot_state t = STATE_COMPLETE \<and> ub t = ub s"
proof -
  have n: "length data \<le> INT_MAX" "length data < 2 ^ 32" using assms(1,2) by (auto simp: INT_MAX_def)
  have len: "strtoul 32 16 arg = length data" unfolding assms(6) by (rule strtoul_show_hex [OF n(2)])
  let ?s = "s\<lparr>download_size := 0\<rparr>"
  let ?s1 = "?s\<lparr>usb_out := usb_out s @ [''DATA'' @ arg]\<rparr>"
  have "length (''DATA'' @ arg) = 12" unfolding assms(6) using show_hex_padded_length [OF n(2)] by simp
  then have w: "response_data (length data) ?s = (0, ?s1)"
    using assms(3,4,6) by (simp add: response_data_def usb_write_all INT_MAX_def)
  obtain log where u: "usb_read_progress (length data) ?s1 =
      (int (length data), data, ?s1\<lparr>usb_in := rest, ui_log := log\<rparr>)"
    using usb_read_progress_complete [OF n(1), of ?s1 rest] assms(4,5) by auto
  have p: "packets ''OKAY'' [] = [''OKAY'']" by (simp add: packets.simps)
  show ?thesis
    unfolding cmd_download_def Let_def len
    using assms(1-4) w u p
    by (simp add: fastboot_okay_def fastboot_ack_packets store_def tboot_ui_hidebar_def
        tboot_ui_textbar_def)
qed

theorem download_complete_witness:
  "download_base (cmd_download ''00000003'' (example_fb\<lparr>usb_in := [Some ''abc'', Some ''rest'']\<rparr>)) =
     ''abc'' @ replicate 13 (CHR ''x'') \<and>
   usb_out (cmd_download ''00000003'' (example_fb\<lparr>usb_in := [Some ''abc'', Some ''rest'']\<rparr>)) =
     [''DATA00000003'', ''OKAY'']"
proof -
  let ?s = "example_fb\<lparr>usb_in := [Some ''abc'', Some ''rest'']\<rparr>"
  have "chunks ''abc'' = [''abc'']" by (simp add: chunks.simps)
  moreover have "show_hex_padded 8 (length ''abc'') = ''00000003''"
    by code_simp
  moreover have "download_max ?s = 16" "usb_wr ?s = []" "fastboot_state ?s = STATE_COMMAND"
    "usb_out ?s = []" "download_base ?s = replicate 16 (CHR ''x'')"
    by (simp_all add: example_fb_def)
  ultimately show ?thesis
    using download_complete [of "''abc''" ?s "[Some ''rest'']" "''00000003''"]
    by (simp add: INT_MAX_def)
qed

text \<open>
  C17. No host can make a download overrun the buffer: whatever it announces and sends, \<open>download:\<close>
  keeps the buffer at its allocated size and the recorded size within it; a size that does not fit is
  refused with one FAIL before anything is read.
\<close>

theorem download_bounded:
  assumes "buffer_ok s"
  shows "buffer_ok (cmd_download arg s) \<and>
    (download_max s < strtoul 32 16 arg \<longrightarrow> usb_wr s = [] \<longrightarrow> fastboot_state s = STATE_COMMAND \<longrightarrow>
      cmd_download arg s = s\<lparr>download_size := 0, usb_out := usb_out s @ [''FAILdata too large''],
        fastboot_state := STATE_COMPLETE\<rparr>)"
proof -
  have "packets ''FAIL'' ''data too large'' = [''FAILdata too large'']" by (simp add: packets.simps)
  then show ?thesis
    using keeps_cmd_download [of s arg] assms
    by (simp add: keeps_def cmd_download_def fastboot_fail_def fastboot_ack_packets)
qed

theorem download_bounded_witness:
  "buffer_ok example_fb \<and>
   usb_out (cmd_download ''00000011'' example_fb) = [''FAILdata too large'']"
proof -
  have b: "buffer_ok example_fb" by (simp add: buffer_ok_def example_fb_def INT_MAX_def)
  have "show_hex_padded 8 17 = ''00000011''" by code_simp
  then have "strtoul 32 16 ''00000011'' = 17" using strtoul_show_hex [of 17] by simp
  then have "download_max example_fb < strtoul 32 16 ''00000011''" "usb_wr example_fb = []"
    "fastboot_state example_fb = STATE_COMMAND" "usb_out example_fb = []"
    by (simp_all add: example_fb_def)
  then show ?thesis using download_bounded [OF b, of "''00000011''"] b by simp
qed



text \<open>
  C19. With a low battery no flash, erase or \<open>oem system\<close> command reaches its handler: for every table
  of handlers the command is answered by one FAIL and nothing else happens on the wire.
\<close>

theorem low_battery_refuses:
  assumes "config_loaded s" "usb_wr s = []" "c \<in> set low_battery_cmds" "starts_with c buffer"
    and "find (\<lambda>(prefix, h). starts_with prefix buffer) (cmdlist s) = Some (prefix, h)"
    and "battery_capacity (uevents s) < atoi (the (tboot_config_get (tboot_config s) ''battery_threshold''))"
  shows "\<exists>t. fastboot_command run buffer s = Some t \<and>
    usb_out t = usb_out s @ [''FAILcan't do this operation when battery low''] \<and>
    fastboot_state t = STATE_COMPLETE \<and> download_base t = download_base s \<and> usb_in t = usb_in s"
proof -
  let ?s1 = "lcd_signal LCD_COMMAND (CLEAR_ALARM (s\<lparr>fastboot_state := STATE_COMMAND\<rparr>))"
  let ?s2 = "disable_autoboot ?s1"
  have cfg: "tboot_config ?s2 = tboot_config s" "uevents ?s2 = uevents s"
    by (simp_all add: globals_defs Let_def split: option.split prod.split)
  then have "config_loaded ?s2" using assms(1) by (simp add: config_loaded_def)
  then have conf: "config_atoi ''battery_threshold'' ?s2 =
      (atoi (the (tboot_config_get (tboot_config s) ''battery_threshold'')), ?s2)"
    using cfg by (simp add: config_atoi_loaded)
  then have bat: "check_battery ?s2 = (-1, ?s2)" using assms(6) cfg by (simp add: check_battery_def)
  obtain c' where c': "find (\<lambda>c. starts_with c buffer) low_battery_cmds = Some c'"
    using assms(3,4) by (cases "find (\<lambda>c. starts_with c buffer) low_battery_cmds") (auto simp: find_None_iff)
  have p: "packets ''FAIL'' ''can't do this operation when battery low'' =
      [''FAILcan't do this operation when battery low'']" by (simp add: packets.simps)
  show ?thesis
    unfolding fastboot_command_def Let_def
    using assms(2,5) bat conf c' p
    by (simp add: fastboot_fail_def fastboot_ack_packets)
qed

theorem low_battery_refuses_witness:
  "\<exists>t. fastboot_command (\<lambda>h arg s. None) ''flash:boot:10'' example_fb = Some t \<and>
     usb_out t = [''FAILcan't do this operation when battery low'']"
proof -
  have "config_loaded example_fb" "usb_wr example_fb = []" "usb_out example_fb = []"
    by (simp_all add: example_fb_def config_loaded_def default_table_get tc_keys_def tc_values_def)
  moreover have "''flash'' \<in> set low_battery_cmds" "starts_with ''flash'' ''flash:boot:10''"
    "find (\<lambda>(prefix, h). starts_with prefix ''flash:boot:10'') (cmdlist example_fb) = Some (''flash:'', 0)"
    by (simp_all add: low_battery_cmds_def starts_with_def example_fb_def)
  moreover have "battery_capacity (uevents example_fb) <
      atoi (the (tboot_config_get (tboot_config example_fb) ''battery_threshold''))"
    by (simp add: example_fb_def example_status_def default_table_get tc_keys_def tc_values_def atoi_10)
  ultimately show ?thesis
    using low_battery_refuses [of example_fb "''flash''" "''flash:boot:10''" "''flash:''" 0 "\<lambda>h arg s. None"]
    by auto
qed

text \<open>
  After an unknown command the panel never dims again on its own: the alarm was cleared when the
  command arrived and the path that answers it does not set it.
\<close>

theorem unknown_command_stops_alarm:
  assumes "find (\<lambda>(prefix, h). starts_with prefix buffer) (cmdlist s) = None"
  shows "\<exists>t. fastboot_command run buffer s = Some t \<and> alarm_left t = 0 \<and> (tick active ^^ n) t = t"
proof -
  let ?t = "fastboot_fail ''unknown command''
    (lcd_signal LCD_COMMAND (CLEAR_ALARM (s\<lparr>fastboot_state := STATE_COMMAND\<rparr>)))"
  have "fastboot_command run buffer s = Some ?t" using assms by (simp add: fastboot_command_def)
  moreover have a: "alarm_left ?t = 0"
    by (simp add: lcd_signal_def CLEAR_ALARM_def c_alarm_def config_atoi_def Let_def
        split: option.split prod.split)
  moreover have "(tick active ^^ n) ?t = ?t" using a by (induction n) (simp_all add: tick_def)
  ultimately show ?thesis by blast
qed

theorem unknown_command_stops_alarm_witness:
  "\<exists>t. fastboot_command (\<lambda>h arg s. Some s) ''help'' example_fb = Some t \<and>
     (tick False ^^ 1000) t = t"
proof -
  have "find (\<lambda>(prefix, h). starts_with prefix ''help'') (cmdlist example_fb) = None"
    by (simp add: example_fb_def starts_with_def)
  then show ?thesis
    using unknown_command_stops_alarm [of "''help''" example_fb "\<lambda>h arg s. Some s" 1000 False] by blast
qed

end
