(* ===== verification/Fstab.thy ===== *)
theory Fstab
  imports Tboot_Config
begin

text \<open>
  The volume table of \<^verbatim>\<open>src/fstab.c\<close>: parsing \<^verbatim>\<open>/etc/preos.fstab\<close> and looking volumes up by path and by
  device. The text of the file is a parameter, \<open>None\<close> when it cannot be opened. The first allocation
  is a parameter, as the code tests it; the later ones are taken to succeed, as it does not.
\<close>

section \<open>Model\<close>

record Volume =
  mount_point :: string
  fs_type :: string
  v_device :: "string option"
  v_device2 :: "string option"
  v_length :: int

lemma strtok_shorter: "strtok D s = Some (tok, rest) \<Longrightarrow> length rest < length s"
proof -
  assume a: "strtok D s = Some (tok, rest)"
  let ?t = "dropWhile (\<lambda>c. c \<in> set D) s"
  have t: "?t \<noteq> []" "rest = tl (dropWhile (\<lambda>c. c \<notin> set D) ?t)"
    using a by (auto simp: strtok_def Let_def split: if_splits)
  have "hd ?t \<notin> set D" using hd_dropWhile [of "\<lambda>c. c \<in> set D" s] t(1) by simp
  then have "dropWhile (\<lambda>c. c \<notin> set D) ?t = dropWhile (\<lambda>c. c \<notin> set D) (tl ?t)" using t(1)
    by (cases ?t) auto
  then have "length rest \<le> length (tl ?t)"
    using t(2) length_dropWhile_le [of "\<lambda>c. c \<notin> set D" "tl ?t"] by simp
  also have "\<dots> < length ?t" using t(1) by simp
  also have "\<dots> \<le> length s" by (rule length_dropWhile_le)
  finally show ?thesis .
qed

text \<open>
  The loop over the comma-separated options. \<open>s\<close> is what \<^verbatim>\<open>strtok\<close> has not yet seen.
\<close>

function option_loop :: "string \<Rightarrow> Volume \<Rightarrow> int \<times> Volume" where
  "option_loop s v =
     (case strtok '','' s of
        None \<Rightarrow> (0, v)
      | Some (tok, rest) \<Rightarrow>
          if starts_with ''length='' tok
          then option_loop rest (v\<lparr>v_length := strtol 64 10 (drop 7 tok)\<rparr>)
          else (-1, v))"
  by pat_completeness auto

termination
  by (relation "measure (\<lambda>(s, v). length s)") (auto dest: strtok_shorter)

declare option_loop.simps [simp del]

text \<open>
  With \<^verbatim>\<open>options\<close> NULL the first \<^verbatim>\<open>strtok\<close> continues on the line, which is used up at that point.
\<close>

definition parse_options :: "string option \<Rightarrow> Volume \<Rightarrow> int \<times> Volume" where
  "parse_options options v = (case options of None \<Rightarrow> (0, v) | Some s \<Rightarrow> option_loop s v)"

definition blanks :: string where
  "blanks = '' '' @ [CHR 0x09, newline]"

text \<open>\<^verbatim>\<open>strtok (NULL, ...)\<close> after an earlier call: a token and the rest, or NULL and nothing left.\<close>

definition next_token :: "string \<Rightarrow> string option \<times> string" where
  "next_token s = (case strtok blanks s of None \<Rightarrow> (None, []) | Some (tok, rest) \<Rightarrow> (Some tok, rest))"

text \<open>One line of the file: the volume it adds, if any.\<close>

definition parse_line :: "string \<Rightarrow> Volume option" where
  "parse_line buffer =
     (let l = dropWhile isspace buffer
      in if l = [] \<or> hd l = CHR ''#'' then None
         else
           let (mp, s1) = next_token l;
               (ft, s2) = next_token s1;
               (dev, s3) = next_token s2;
               (tok, s4) = next_token s3;
               (dev2, options) =
                 (case tok of
                    None \<Rightarrow> (None, None)
                  | Some d \<Rightarrow> if d \<noteq> [] \<and> hd d = CHR ''/'' then (Some d, fst (next_token s4)) else (None, Some d))
           in (case (mp, ft, dev) of
                 (Some m, Some f, Some d) \<Rightarrow>
                   (case parse_options options
                           \<lparr>mount_point = m, fs_type = f, v_device = Some d, v_device2 = dev2, v_length = 0\<rparr> of
                      (r, v) \<Rightarrow> if r \<noteq> 0 then None else Some v)
               | _ \<Rightarrow> None))"

text \<open>\<^verbatim>\<open>fgets\<close> with a buffer of \<open>Suc n\<close> bytes, repeated to the end of the file.\<close>

function fgets_lines :: "nat \<Rightarrow> string \<Rightarrow> string list" where
  "fgets_lines n txt =
     (if txt = [] \<or> n = 0 then []
      else let l = take n (takeWhile (\<lambda>c. c \<noteq> newline) txt @ take 1 (dropWhile (\<lambda>c. c \<noteq> newline) txt))
           in l # fgets_lines n (drop (length l) txt))"
  by pat_completeness auto

termination
proof (relation "measure (\<lambda>(n, txt). length txt)", goal_cases)
  case (2 n t l)
  then have "t \<noteq> []" "0 < n" by auto
  then have "l \<noteq> []" unfolding 2(2) by (cases t) auto
  with \<open>t \<noteq> []\<close> show ?case by simp
qed simp

declare fgets_lines.simps [simp del]

definition tmp_volume :: Volume where
  "tmp_volume = \<lparr>mount_point = ''/tmp'', fs_type = ''ramdisk'', v_device = None, v_device2 = None,
     v_length = 0\<rparr>"

text \<open>Without memory for the table \<^verbatim>\<open>die\<close> is called, which does not come back.\<close>

definition load_volume_table :: "bool \<Rightarrow> string option \<Rightarrow> Volume list option" where
  "load_volume_table malloc fstab =
     (if \<not> malloc then None
      else Some (tmp_volume #
        (case fstab of
           None \<Rightarrow> []
         | Some txt \<Rightarrow> List.map_filter (\<lambda>l. parse_line (c_str l)) (fgets_lines 1022 txt))))"

text \<open>
  \<open>blk_rw fn\<close>: \<^verbatim>\<open>stat\<close> finds a block device that is readable and writable.
\<close>

definition devnode_rw :: "(string \<Rightarrow> bool) \<Rightarrow> string \<Rightarrow> int" where
  "devnode_rw blk_rw fn = (if length fn = 0 then -1 else if \<not> blk_rw fn then -1 else 0)"

fun check_nodes :: "(string \<Rightarrow> bool) \<Rightarrow> Volume list \<Rightarrow> int" where
  "check_nodes blk_rw [] = 0"
| "check_nodes blk_rw (v # vs) =
     (if (case v_device v of None \<Rightarrow> False | Some d \<Rightarrow> length d > 0 \<and> devnode_rw blk_rw d \<noteq> 0) then -1
      else if (case v_device2 v of None \<Rightarrow> False | Some d \<Rightarrow> length d > 0 \<and> devnode_rw blk_rw d \<noteq> 0) then -1
      else check_nodes blk_rw vs)"

definition check_devnodes :: "(string \<Rightarrow> bool) \<Rightarrow> Volume list \<Rightarrow> int" where
  "check_devnodes blk_rw device_volumes = check_nodes blk_rw device_volumes"

definition volume_for_path :: "Volume list \<Rightarrow> string \<Rightarrow> Volume option" where
  "volume_for_path device_volumes path =
     find (\<lambda>v. let len = length (mount_point v)
               in starts_with (mount_point v) path \<and>
                  (length path = len \<or> path ! len = CHR ''/'')) device_volumes"

definition volume_for_device :: "Volume list \<Rightarrow> string \<Rightarrow> Volume option" where
  "volume_for_device device_volumes device =
     find (\<lambda>v. v_device v \<noteq> None \<and> (v_device v = Some device \<or> v_device2 v = Some device)) device_volumes"

section \<open>Lookups\<close>

text \<open>
  C29. A path belongs to the first volume whose mount point is the path itself or one of its parent
  directories: \<open>/cache2\<close> is not on \<open>/cache\<close>.
\<close>

theorem volume_for_path_parent:
  "volume_for_path vs path =
     find (\<lambda>v. path = mount_point v \<or> (\<exists>rest. path = mount_point v @ ''/'' @ rest)) vs"
proof -
  have "starts_with m path \<and> (length path = length m \<or> path ! length m = CHR ''/'') \<longleftrightarrow>
      path = m \<or> (\<exists>rest. path = m @ ''/'' @ rest)" for m
  proof
    assume a: "starts_with m path \<and> (length path = length m \<or> path ! length m = CHR ''/'')"
    then obtain t where "path = m @ t" by (auto simp: starts_with_iff)
    with a show "path = m \<or> (\<exists>rest. path = m @ ''/'' @ rest)" by (cases t) auto
  qed (auto simp: starts_with_iff nth_append)
  then show ?thesis by (simp add: volume_for_path_def Let_def)
qed

text \<open>
  The device check passes exactly when every device named in the table is a readable and
  writable block device.
\<close>

theorem check_devnodes_iff:
  "check_devnodes blk_rw vs = 0 \<longleftrightarrow>
     list_all (\<lambda>v. pred_option (\<lambda>d. d = [] \<or> blk_rw d) (v_device v) \<and>
       pred_option (\<lambda>d. d = [] \<or> blk_rw d) (v_device2 v)) vs"
proof -
  have "check_nodes blk_rw vs = 0 \<longleftrightarrow>
      list_all (\<lambda>v. pred_option (\<lambda>d. d = [] \<or> blk_rw d) (v_device v) \<and>
        pred_option (\<lambda>d. d = [] \<or> blk_rw d) (v_device2 v)) vs"
  proof (induction vs)
    case Nil
    then show ?case by simp
  next
    case (Cons v vs)
    show ?case
      by (cases "v_device v"; cases "v_device2 v")
         (auto simp: devnode_rw_def Cons.IH)
  qed
  then show ?thesis by (simp add: check_devnodes_def)
qed

section \<open>Reading back a written table\<close>

definition fs_word :: "string \<Rightarrow> bool" where
  "fs_word w \<longleftrightarrow> w \<noteq> [] \<and> (\<forall>c\<in>set w. c \<notin> set blanks \<and> \<not> isspace c \<and> c \<noteq> NUL)"

definition render_volume :: "Volume \<Rightarrow> string" where
  "render_volume v =
     mount_point v @ '' '' @ fs_type v @ '' '' @ the (v_device v)
       @ (case v_device2 v of None \<Rightarrow> [] | Some d \<Rightarrow> '' '' @ d)
       @ '' length='' @ show_int (v_length v) @ [newline]"

definition volume_ok :: "Volume \<Rightarrow> bool" where
  "volume_ok v \<longleftrightarrow>
     fs_word (mount_point v) \<and> hd (mount_point v) \<noteq> CHR ''#'' \<and> fs_word (fs_type v) \<and>
     v_device v \<noteq> None \<and> fs_word (the (v_device v)) \<and>
     (case v_device2 v of None \<Rightarrow> True | Some d \<Rightarrow> fs_word d \<and> hd d = CHR ''/'') \<and>
     - (2 ^ 63) \<le> v_length v \<and> v_length v < 2 ^ 63 \<and> length (render_volume v) \<le> 1022"

lemma next_token_word:
  assumes "fs_word w"
  shows "c \<in> set blanks \<Longrightarrow> next_token (w @ c # rest) = (Some w, rest)"
    and "next_token w = (Some w, [])"
proof -
  have w: "w \<noteq> []" "\<And>x. x \<in> set w \<Longrightarrow> x \<notin> set blanks" using assms by (auto simp: fs_word_def)
  show "c \<in> set blanks \<Longrightarrow> next_token (w @ c # rest) = (Some w, rest)" "next_token w = (Some w, [])"
    using strtok_word [OF w] by (simp_all add: next_token_def)
qed

lemma next_token_Nil: "next_token [] = (None, [])"
  by (simp add: next_token_def strtok_def)

lemma blank_chars: "CHR '' '' \<in> set blanks" "newline \<in> set blanks"
  by (simp_all add: blanks_def)

lemma show_int_chars: "c \<in> set (show_int i) \<Longrightarrow> c = CHR ''-'' \<or> (\<exists>d<10. digit_value c = Some d)"
  using show_nat_digits by (auto simp: show_int_def split: if_splits)

lemma length_word: "fs_word (''length='' @ show_int i)"
proof -
  have "c \<notin> set blanks \<and> \<not> isspace c \<and> c \<noteq> NUL" if "c \<in> set (show_int i)" for c
    using show_int_chars [OF that]
  proof
    assume "\<exists>d<10. digit_value c = Some d"
    then show ?thesis by (auto simp: blanks_def isspace_def digit_value_def)
  qed (simp add: blanks_def isspace_def)
  then show ?thesis by (auto simp: fs_word_def blanks_def isspace_def)
qed

lemma option_loop_length:
  assumes "- (2 ^ 63) \<le> i" "i < 2 ^ 63"
  shows "option_loop (''length='' @ show_int i) v = (0, v\<lparr>v_length := i\<rparr>)"
proof -
  have "c \<noteq> CHR '',''" if "c \<in> set (show_int i)" for c
    using show_int_chars [OF that] decimal_digit_plain(6) by auto
  then have "c \<notin> set '',''" if "c \<in> set (''length='' @ show_int i)" for c using that by auto
  then have "strtok '','' (''length='' @ show_int i) = Some (''length='' @ show_int i, [])"
    by (intro strtok_word(2)) auto
  moreover have "option_loop [] v' = (0, v')" for v' by (subst option_loop.simps) (simp add: strtok_def)
  moreover have "drop 7 (''length='' @ show_int i) = show_int i" by simp
  moreover have "strtol 64 10 (show_int i) = i" using assms by (intro strtol_show_int) auto
  ultimately show ?thesis by (subst option_loop.simps) (simp only: option.case prod.case starts_with_append if_True)
qed

lemma parse_line_render:
  assumes "volume_ok v"
  shows "parse_line (render_volume v) = Some v"
proof -
  obtain d where d: "v_device v = Some d" using assms by (auto simp: volume_ok_def)
  have w: "fs_word (mount_point v)" "fs_word (fs_type v)" "fs_word d" "hd (mount_point v) \<noteq> CHR ''#''"
    "- (2 ^ 63) \<le> v_length v" "v_length v < 2 ^ 63"
    using assms d by (auto simp: volume_ok_def)
  let ?opt = "''length='' @ show_int (v_length v)"
  let ?tail = "(case v_device2 v of None \<Rightarrow> [] | Some e \<Rightarrow> e @ '' '') @ ?opt @ [newline]"
  have r: "render_volume v = mount_point v @ CHR '' '' # fs_type v @ CHR '' '' # d @ CHR '' '' # ?tail"
    using d by (cases "v_device2 v") (simp_all add: render_volume_def)
  obtain c cs where m: "mount_point v = c # cs" using w(1) by (cases "mount_point v") (auto simp: fs_word_def)
  then have c: "\<not> isspace c" "c \<noteq> CHR ''#''" using w(1,4) by (auto simp: fs_word_def)
  have start: "dropWhile isspace (render_volume v) = render_volume v" "hd (render_volume v) \<noteq> CHR ''#''"
    "render_volume v \<noteq> []" unfolding r m using c by simp_all
  have toks: "next_token (render_volume v) = (Some (mount_point v), fs_type v @ CHR '' '' # d @ CHR '' '' # ?tail)"
    "next_token (fs_type v @ CHR '' '' # d @ CHR '' '' # ?tail) = (Some (fs_type v), d @ CHR '' '' # ?tail)"
    "next_token (d @ CHR '' '' # ?tail) = (Some d, ?tail)"
    unfolding r by (rule next_token_word(1) [OF w(1) blank_chars(1)]
        next_token_word(1) [OF w(2) blank_chars(1)] next_token_word(1) [OF w(3) blank_chars(1)])+
  have opt: "next_token (?opt @ [newline]) = (Some ?opt, [])"
    by (rule next_token_word(1) [OF length_word blank_chars(2)])
  let ?v = "\<lparr>mount_point = mount_point v, fs_type = fs_type v, v_device = Some d,
    v_device2 = v_device2 v, v_length = 0\<rparr>"
  have po: "parse_options (Some ?opt) ?v = (0, v)"
    using option_loop_length [OF w(5,6), of ?v] d by (simp add: parse_options_def)
  show ?thesis
  proof (cases "v_device2 v")
    case None
    have "next_token ?tail = (Some ?opt, [])" using opt None by simp
    then show ?thesis
      unfolding parse_line_def Let_def start(1) using start(2,3) toks po None by simp
  next
    case (Some e)
    then have e: "fs_word e" "hd e = CHR ''/''" "e \<noteq> []" using assms by (auto simp: volume_ok_def fs_word_def)
    have "?tail = e @ CHR '' '' # ?opt @ [newline]" using Some by simp
    then have "next_token ?tail = (Some e, ?opt @ [newline])"
      using next_token_word(1) [OF e(1) blank_chars(1)] by simp
    then show ?thesis
      unfolding parse_line_def Let_def start(1) using start(2,3) toks opt po Some e by simp
  qed
qed

lemma render_volume_line:
  assumes "volume_ok v"
  obtains l where "render_volume v = l @ [newline]" "\<forall>c\<in>set l. c \<noteq> newline \<and> c \<noteq> NUL" "length l < 1022"
proof -
  have nl: "c \<noteq> newline \<and> c \<noteq> NUL" if "fs_word w" "c \<in> set w" for c w
    using that by (auto simp: fs_word_def blanks_def)
  let ?l = "mount_point v @ '' '' @ fs_type v @ '' '' @ the (v_device v)
       @ (case v_device2 v of None \<Rightarrow> [] | Some d \<Rightarrow> '' '' @ d) @ '' '' @ (''length='' @ show_int (v_length v))"
  have w: "fs_word (mount_point v)" "fs_word (fs_type v)" "fs_word (the (v_device v))"
    "\<And>d. v_device2 v = Some d \<Longrightarrow> fs_word d" "length (render_volume v) \<le> 1022"
    using assms by (auto simp: volume_ok_def)
  have r: "render_volume v = ?l @ [newline]" by (simp add: render_volume_def)
  have "c \<noteq> newline \<and> c \<noteq> NUL" if c: "c \<in> set ?l" for c
  proof -
    consider w where "fs_word w" "c \<in> set w" | "c = CHR '' ''"
      using c w length_word [of "v_length v"] unfolding set_append by (cases "v_device2 v") auto
    then show ?thesis by cases (auto dest: nl)
  qed
  moreover have "length ?l < 1022" using w(5) r by simp
  ultimately show ?thesis using that r by blast
qed

lemma fgets_lines_line:
  assumes "\<forall>c\<in>set l. c \<noteq> newline" "length l < n"
  shows "fgets_lines n (l @ newline # rest) = (l @ [newline]) # fgets_lines n rest"
proof -
  have "takeWhile (\<lambda>c. c \<noteq> newline) (l @ newline # rest) = l"
    "dropWhile (\<lambda>c. c \<noteq> newline) (l @ newline # rest) = newline # rest"
    using assms(1) by (simp_all add: takeWhile_append dropWhile_append)
  then show ?thesis using assms(2) by (subst fgets_lines.simps) (simp add: Let_def)
qed

lemma c_str_plain: "\<forall>c\<in>set l. c \<noteq> NUL \<Longrightarrow> c_str l = l"
  by (simp add: c_str_def takeWhile_eq_all_conv)

text \<open>
  C11. Reading back a table: a file that lists volumes one to a line, with mount point, file
  system, device, an optional second device and a length, loads as exactly those volumes, in
  order, after the built-in entry for \<^verbatim>\<open>/tmp\<close>.
\<close>

theorem fstab_roundtrip:
  assumes "list_all volume_ok vs"
  shows "load_volume_table True (Some (concat (map render_volume vs))) = Some (tmp_volume # vs)"
proof -
  have "List.map_filter (\<lambda>l. parse_line (c_str l)) (fgets_lines 1022 (concat (map render_volume vs))) = vs"
    using assms
  proof (induction vs)
    case Nil
    then show ?case by (simp add: fgets_lines.simps List.map_filter_def)
  next
    case (Cons v vs)
    then have v: "volume_ok v" by simp
    from v obtain l where l: "render_volume v = l @ [newline]" "\<forall>c\<in>set l. c \<noteq> newline \<and> c \<noteq> NUL"
      "length l < 1022" by (rule render_volume_line)
    have "fgets_lines 1022 (concat (map render_volume (v # vs)))
        = render_volume v # fgets_lines 1022 (concat (map render_volume vs))"
      using fgets_lines_line [of l 1022] l by simp
    moreover have "c_str (render_volume v) = render_volume v" using l(1,2) by (intro c_str_plain) auto
    moreover have "parse_line (render_volume v) = Some v" by (rule parse_line_render [OF v])
    ultimately show ?case using Cons by (simp add: List.map_filter_def)
  qed
  then show ?thesis by (simp add: load_volume_table_def)
qed

theorem fstab_roundtrip_witness:
  "load_volume_table True (Some (concat (map render_volume
     [\<lparr>mount_point = ''/boot'', fs_type = ''ext4'', v_device = Some ''/dev/sda1'', v_device2 = None,
       v_length = -16\<rparr>,
      \<lparr>mount_point = ''/data'', fs_type = ''ext4'', v_device = Some ''/dev/sda5'',
       v_device2 = Some ''/dev/sdb1'', v_length = 4096\<rparr>]))) =
   Some [tmp_volume,
    \<lparr>mount_point = ''/boot'', fs_type = ''ext4'', v_device = Some ''/dev/sda1'', v_device2 = None,
       v_length = -16\<rparr>,
    \<lparr>mount_point = ''/data'', fs_type = ''ext4'', v_device = Some ''/dev/sda5'',
       v_device2 = Some ''/dev/sdb1'', v_length = 4096\<rparr>]"
  by (rule fstab_roundtrip)
     (simp add: volume_ok_def fs_word_def render_volume_def blanks_def isspace_def show_int_def
        show_nat_def show_base.simps digit_char_def)

end
