(* ===== verification/Tboot_Util.thy ===== *)
theory Tboot_Util
  imports Fastboot_Loop Fstab Diskconfig
begin

text \<open>
  The helpers of \<^verbatim>\<open>src/tboot_util.c\<close> and \<^verbatim>\<open>libcutils/preos_reboot.c\<close>: mounting, erasing and checking
  partitions, writing files, starting kernels and rebooting.

  The operating system is a function: \<open>os_answers n c\<close> is what it answers to the call \<open>c\<close> when \<open>n\<close> calls
  were made before, and \<open>os_log\<close> lists the calls. Allocations that the code tests are such calls. The
  contents of the files written are kept in \<open>files\<close>. Debug output is not modelled.
\<close>

section \<open>Calls to the system\<close>

datatype os_call =
    Alloc string
  | Open string
  | Close
  | Lseek nat
  | Read nat
  | Write string
  | Mkdir string
  | Mount string string string
  | Umount string
  | Unlink string
  | Stat string
  | Access string
  | System string
  | Popen string
  | Fwrite string
  | Pclose
  | Ioctl string
  | Sync
  | Statfs string
  | Usleep nat
  | Reboot string
  | Make_ext4fs string int
  | Thread string

record os_answer =
  ret :: int
  err :: int
  bytes :: string
  is_blk :: bool

definition EINTR :: int where "EINTR = 4"
definition EBUSY :: int where "EBUSY = 16"
definition EEXIST :: int where "EEXIST = 17"

record 'h dev = "'h fb" +
  g_disk_info :: disk_info
  device_volumes :: "Volume list"
  os_answers :: "nat \<Rightarrow> os_call \<Rightarrow> os_answer"
  os_log :: "os_call list"
  files :: "string \<Rightarrow> string"

definition syscall :: "os_call \<Rightarrow> ('h, 'z) dev_scheme \<Rightarrow> os_answer \<times> ('h, 'z) dev_scheme" where
  "syscall c s = (os_answers s (length (os_log s)) c, s\<lparr>os_log := os_log s @ [c]\<rparr>)"

text \<open>A call whose answer is not looked at.\<close>

definition call :: "os_call \<Rightarrow> ('h, 'z) dev_scheme \<Rightarrow> ('h, 'z) dev_scheme" where
  "call c s = snd (syscall c s)"

section \<open>Commands\<close>

definition WEXITSTATUS :: "int \<Rightarrow> int" where
  "WEXITSTATUS status = (status div 256) mod 256"

definition execute_command :: "string \<Rightarrow> ('h, 'z) dev_scheme \<Rightarrow> int \<times> ('h, 'z) dev_scheme" where
  "execute_command cmd s =
     (case syscall (Alloc cmd) s of
        (a, s1) \<Rightarrow>
          if ret a < 0 then (-1, s1)
          else case syscall (System cmd) s1 of
                 (b, s2) \<Rightarrow> if ret b < 0 then (ret b, s2) else (WEXITSTATUS (ret b), s2))"

text \<open>The result says whether the pipe was opened; the code returns 0 or -1.\<close>

definition execute_command_oem :: "string \<Rightarrow> ('h, 'z) dev_scheme \<Rightarrow> int \<times> ('h, 'z) dev_scheme" where
  "execute_command_oem cmd s =
     (case syscall (Alloc cmd) s of
        (a, s1) \<Rightarrow>
          if ret a < 0 then (-1, s1)
          else case syscall (Popen cmd) s1 of (b, s2) \<Rightarrow> if ret b < 0 then (-1, s2) else (0, s2))"

definition execute_command_data :: "string \<Rightarrow> string \<Rightarrow> ('h, 'z) dev_scheme \<Rightarrow> int \<times> ('h, 'z) dev_scheme" where
  "execute_command_data data cmd s =
     (case syscall (Alloc cmd) s of
        (a, s1) \<Rightarrow>
          if ret a < 0 then (-1, s1)
          else case syscall (Popen cmd) s1 of
                 (b, s2) \<Rightarrow>
                   if ret b < 0 then (-1, s2)
                   else case syscall (Fwrite data) s2 of
                          (c, s3) \<Rightarrow>
                            if ret c \<noteq> int (length data) then (-1, call Pclose s3)
                            else case syscall Pclose s3 of
                                   (d, s4) \<Rightarrow> if ret d < 0 then (-1, s4) else (WEXITSTATUS (ret d), s4))"

section \<open>Partitions\<close>

text \<open>\<^verbatim>\<open>find_part_device (disk_info, name)\<close>, whose allocation is a call.\<close>

definition part_device :: "string \<Rightarrow> ('h, 'z) dev_scheme \<Rightarrow> string option \<times> ('h, 'z) dev_scheme" where
  "part_device nm s =
     (case syscall (Alloc nm) s of (a, s1) \<Rightarrow> (find_part_device (ret a \<ge> 0) (g_disk_info s1) nm, s1))"

definition EXT_SUPERBLOCK_OFFSET :: nat where "EXT_SUPERBLOCK_OFFSET = 1024"

text \<open>\<^verbatim>\<open>s_magic\<close> is the 16-bit word at byte 56 of the superblock, which has 1024 bytes.\<close>

definition ext_magic :: "string \<Rightarrow> bool" where
  "ext_magic sb \<longleftrightarrow> sb ! 56 = CHR 0x53 \<and> sb ! 57 = CHR 0xEF"

text \<open>The result is the return value and \<^verbatim>\<open>*sb_present\<close>, which is set only on success.\<close>

definition check_ext_superblock ::
    "part_info \<Rightarrow> ('h, 'z) dev_scheme \<Rightarrow> int \<times> bool option \<times> ('h, 'z) dev_scheme" where
  "check_ext_superblock ptn s =
     (case part_device (name ptn) s of
        (None, s1) \<Rightarrow> (-1, None, s1)
      | (Some dev, s1) \<Rightarrow>
          (case syscall (Open dev) s1 of
             (a, s2) \<Rightarrow>
               if ret a < 0 then (-1, None, s2)
               else case syscall (Lseek EXT_SUPERBLOCK_OFFSET) s2 of
                      (b, s3) \<Rightarrow>
                        if ret b \<noteq> int EXT_SUPERBLOCK_OFFSET then (-1, None, call Close s3)
                        else case syscall (Read 1024) s3 of
                               (c, s4) \<Rightarrow>
                                 if ret c \<noteq> 1024 then (-1, None, call Close s4)
                                 else (0, Some (ext_magic (bytes c)), call Close s4)))"

definition mount_partition_device ::
    "string \<Rightarrow> string \<Rightarrow> string \<Rightarrow> ('h, 'z) dev_scheme \<Rightarrow> int \<times> ('h, 'z) dev_scheme" where
  "mount_partition_device dev type mountpoint s =
     (case syscall (Mkdir mountpoint) s of
        (a, s1) \<Rightarrow>
          if ret a \<noteq> 0 \<and> err a \<noteq> EEXIST then (-1, s1)
          else case syscall (Mount dev mountpoint type) s1 of
                 (b, s2) \<Rightarrow> if ret b \<noteq> 0 \<and> err b \<noteq> EBUSY then (-1, s2) else (0, s2))"

definition ext4_filesystem_checks :: "string \<Rightarrow> ('h, 'z) dev_scheme \<Rightarrow> int \<times> ('h, 'z) dev_scheme" where
  "ext4_filesystem_checks dev s =
     (case execute_command (''/bin/e2fsck -C 0 -fn '' @ dev) s of
        (r, s1) \<Rightarrow>
          if r \<noteq> 0 then (-1, s1)
          else case execute_command (''/bin/resize2fs -Ff '' @ dev) s1 of
                 (r, s2) \<Rightarrow>
                   if r \<noteq> 0 then (-1, s2)
                   else case execute_command (''/bin/tune2fs -C 1 '' @ dev) s2 of
                          (r, s3) \<Rightarrow> if r \<noteq> 0 then (-1, s3) else (0, s3))"

definition mount_partition :: "part_info option \<Rightarrow> ('h, 'z) dev_scheme \<Rightarrow> int \<times> ('h, 'z) dev_scheme" where
  "mount_partition ptn s =
     (case ptn of
        None \<Rightarrow> (-1, s)
      | Some p \<Rightarrow>
          (case part_device (name p) s of
             (None, s1) \<Rightarrow> (-1, s1)
           | (Some pdevice, s1) \<Rightarrow>
               (case volume_for_device (device_volumes s1) pdevice of
                  None \<Rightarrow> (-1, s1)
                | Some vol \<Rightarrow>
                    (case syscall (Alloc (''/mnt/'' @ name p)) s1 of
                       (a, s2) \<Rightarrow>
                         if ret a < 0 then (-1, s2)
                         else mount_partition_device pdevice (fs_type vol) (''/mnt/'' @ name p) s2))))"

text \<open>The partition is not tested: NULL is read through.\<close>

definition unmount_partition :: "part_info option \<Rightarrow> ('h, 'z) dev_scheme \<Rightarrow> int \<times> ('h, 'z) dev_scheme" where
  "unmount_partition ptn s =
     (case ptn of
        None \<Rightarrow> (-1, s\<lparr>ub := True\<rparr>)
      | Some p \<Rightarrow>
          (case syscall (Alloc (''/mnt/'' @ name p)) s of
             (a, s1) \<Rightarrow>
               if ret a < 0 then (-1, s1)
               else case syscall (Umount (''/mnt/'' @ name p)) s1 of (b, s2) \<Rightarrow> (ret b, s2)))"

definition is_valid_blkdev :: "string \<Rightarrow> ('h, 'z) dev_scheme \<Rightarrow> bool \<times> ('h, 'z) dev_scheme" where
  "is_valid_blkdev node s =
     (case syscall (Stat node) s of (a, s1) \<Rightarrow> (if ret a \<noteq> 0 then (False, s1) else (is_blk a, s1)))"

text \<open>\<open>None\<close> is \<^verbatim>\<open>die ()\<close>. \<^verbatim>\<open>make_ext4fs_quick\<close> is a call.\<close>

definition erase_partition :: "part_info \<Rightarrow> ('h, 'z) dev_scheme \<Rightarrow> (int \<times> ('h, 'z) dev_scheme) option" where
  "erase_partition ptn s =
     (case part_device (name ptn) s of
        (None, s1) \<Rightarrow> None
      | (Some pdevice, s1) \<Rightarrow>
          Some (case is_valid_blkdev pdevice s1 of
                  (ok, s2) \<Rightarrow>
                    if \<not> ok then (-1, s2)
                    else case volume_for_device (device_volumes s2) pdevice of
                           None \<Rightarrow> (-1, s2)
                         | Some vol \<Rightarrow>
                             if fs_type vol = ''ext4''
                             then (case syscall (Make_ext4fs (the (v_device vol)) (v_length vol)) s2 of
                                     (a, s3) \<Rightarrow> if ret a \<noteq> 0 then (-1, s3) else (0, s3))
                             else (-1, s2)))"

section \<open>Files\<close>

text \<open>Bytes stored at an offset of a file; the file grows as needed.\<close>

definition file_put :: "nat \<Rightarrow> string \<Rightarrow> string \<Rightarrow> string" where
  "file_put off bs old = take off (old @ replicate (off - length old) NUL) @ bs @ drop (off + length bs) old"

text \<open>
  The write loop. \<open>pos\<close> is how far \<^verbatim>\<open>what\<close> was moved and \<open>sz\<close> what is left; both are changed by the value
  \<^verbatim>\<open>write\<close> returns, also by -1 after \<^verbatim>\<open>EINTR\<close>, after which the pointer may stand before the data. The
  file offset \<open>off\<close> moves by what was accepted. \<open>None\<close>: the loop does not end.
\<close>

definition size_sub :: "nat \<Rightarrow> int \<Rightarrow> nat" where
  "size_sub sz r = nat ((int sz - r) mod 2 ^ 32)"

partial_function (option) write_loop ::
    "string \<Rightarrow> string \<Rightarrow> int \<Rightarrow> nat \<Rightarrow> nat \<Rightarrow> ('h, 'z) dev_scheme \<Rightarrow> (int \<times> ('h, 'z) dev_scheme) option" where
  "write_loop filename what pos sz off s =
     (if sz = 0 then Some (0, call Close s)
      else
        let offered = take sz (drop (nat pos) what);
            (a, s1) = syscall (Write offered) s;
            s2 = (if pos < 0 then s1\<lparr>ub := True\<rparr> else s1)
        in if ret a \<le> 0 \<and> err a \<noteq> EINTR then Some (-1, call Close s2)
           else
             let got = take (nat (ret a)) offered
             in write_loop filename what (pos + ret a) (size_sub sz (ret a)) (off + length got)
                  (s2\<lparr>files := (files s2)(filename := file_put off got (files s2 filename))\<rparr>))"

definition named_file_write ::
    "string \<Rightarrow> string \<Rightarrow> nat \<Rightarrow> ('h, 'z) dev_scheme \<Rightarrow> (int \<times> ('h, 'z) dev_scheme) option" where
  "named_file_write filename what sz s =
     (case syscall (Open filename) s of
        (a, s1) \<Rightarrow> if ret a < 0 then Some (-1, s1) else write_loop filename what 0 sz 0 s1)"

section \<open>Starting another kernel\<close>

definition path_buf :: "string \<Rightarrow> string" where
  "path_buf p = take (PATH_MAX - 1) p"

text \<open>A failing \<^verbatim>\<open>read\<close> returns without closing the file.\<close>

definition kexec_linux :: "string \<Rightarrow> string \<Rightarrow> ('h, 'z) dev_scheme \<Rightarrow> int \<times> ('h, 'z) dev_scheme" where
  "kexec_linux basepath kern s =
     (let bak = (case strstr kern ''.bak'' of None \<Rightarrow> [] | Some b \<Rightarrow> b);
          cmdline_file = path_buf (basepath @ ''/cmdline'' @ bak)
      in case syscall (Open cmdline_file) s of
           (a, s1) \<Rightarrow>
             if ret a < 0 then (-1, s1)
             else case syscall (Read 2047) s1 of
                    (b, s2) \<Rightarrow>
                      if ret b < 0 then (-1, s2)
                      else
                        let cmdline_buf = c_str (take (nat (ret b)) (bytes b));
                            s3 = call Close s2;
                            ramdisk_file = path_buf (basepath @ ''/ramdisk.img'' @ bak)
                        in case syscall (Access ramdisk_file) s3 of
                             (c, s4) \<Rightarrow>
                               (case execute_command
                                       (if ret c \<noteq> 0
                                        then ''kexec -l '' @ basepath @ ''/'' @ kern @ '' --command-line='' @ [CHR 0x22]
                                               @ cmdline_buf @ [CHR 0x22]
                                        else ''kexec -l '' @ basepath @ ''/'' @ kern @ '' --ramdisk='' @ ramdisk_file
                                               @ ''  --command-line='' @ [CHR 0x22] @ cmdline_buf @ [CHR 0x22]) s4 of
                                  (r, s5) \<Rightarrow>
                                    if r \<noteq> 0 then (-1, s5)
                                    else
                                      let s6 = fastboot_okay [] s5; s7 = call Sync s6
                                      in (-1, snd (execute_command ''kexec -e'' s7))))"

text \<open>
  Every path ends by unmounting the cache partition, also when it was not found: the label \<^verbatim>\<open>out\<close> reads
  through the NULL that \<^verbatim>\<open>find_part\<close> returned. \<open>None\<close>: a write does not end.
\<close>

definition apply_sw_update :: "string \<Rightarrow> bool \<Rightarrow> ('h, 'z) dev_scheme \<Rightarrow> ('h, 'z) dev_scheme option" where
  "apply_sw_update location send_fb_ok s =
     (let cmdline = ''--update_package='' @ location
      in case syscall (Alloc cmdline) s of
           (a, s1) \<Rightarrow>
             if ret a < 0 then Some s1
             else
               let cacheptn = find_part (g_disk_info s1) ''cache'';
                   finish = (\<lambda>t. Some (snd (unmount_partition cacheptn t)))
               in case cacheptn of
                    None \<Rightarrow> finish s1
                  | Some p \<Rightarrow>
                      (case mount_partition (Some p) s1 of
                         (r, s2) \<Rightarrow>
                           if r \<noteq> 0 then finish s2
                           else case syscall (Mkdir ''/mnt/cache/recovery'') s2 of
                                  (b, s3) \<Rightarrow>
                                    if ret b \<noteq> 0 \<and> err b \<noteq> EEXIST then finish s3
                                    else case named_file_write ''/mnt/cache/recovery/command'' cmdline (length cmdline) s3 of
                                           None \<Rightarrow> None
                                         | Some (r, s4) \<Rightarrow>
                                             if r \<noteq> 0 then finish (call (Unlink ''/mnt/userdata/tboot.update.zip'') s4)
                                             else finish (if send_fb_ok then fastboot_okay [] s4 else s4)))"

section \<open>Text\<close>

text \<open>The parameters handed to the callback, in order.\<close>

lemma strchr_shorter: "strchr s c = Some t \<Longrightarrow> length (tl t) < length s"
  by (cases t) (auto simp: strchr_Some_iff)

function cmdline_params :: "string \<Rightarrow> string list" where
  "cmdline_params ptr =
     (if ptr = [] then []
      else case strchr ptr (CHR '' '') of
             None \<Rightarrow> [ptr]
           | Some x \<Rightarrow> take (length ptr - length x) ptr # cmdline_params (tl x))"
  by pat_completeness auto

termination
  by (relation "measure length") (auto dest!: strchr_shorter)

declare cmdline_params.simps [simp del]

text \<open>\<open>None\<close> when \<^verbatim>\<open>/proc/cmdline\<close> cannot be opened; otherwise what \<^verbatim>\<open>read\<close> returned.\<close>

definition import_kernel_cmdline :: "string option \<Rightarrow> (string \<Rightarrow> 'g \<Rightarrow> 'g) \<Rightarrow> 'g \<Rightarrow> 'g" where
  "import_kernel_cmdline data callback g =
     (let cmdline = (case data of
                       None \<Rightarrow> []
                     | Some d \<Rightarrow>
                         let n = take 1023 d
                         in c_str (if n \<noteq> [] \<and> last n = newline then butlast n else n))
      in fold callback (cmdline_params cmdline) g)"

text \<open>
  \<open>argv\<close> holds the arguments before the first NULL, at most \<open>argc\<close>. For no argument the byte before the
  block is overwritten: \<open>Inl\<close>. Without memory the result is NULL.
\<close>

definition array_to_string :: "bool \<Rightarrow> string list \<Rightarrow> char \<Rightarrow> unit + string option" where
  "array_to_string calloc argv seprator =
     (if \<not> calloc then Inr None
      else
        let str = concat (map (\<lambda>a. a @ [seprator]) argv)
        in if str = [] then Inl () else Inr (Some (butlast str)))"

section \<open>Rebooting\<close>

text \<open>
  \<^verbatim>\<open>remount_ro_done\<close> on the lines of \<^verbatim>\<open>/proc/mounts\<close>, given as device and options; \<open>None\<close> when the file
  cannot be opened.
\<close>

definition remount_ro_done :: "(string \<times> string) list option \<Rightarrow> bool" where
  "remount_ro_done mounts =
     (case mounts of
        None \<Rightarrow> True
      | Some ms \<Rightarrow>
          \<not> list_ex (\<lambda>(dev, opts). starts_with ''/dev/block'' dev \<and> strstr opts ''rw'' \<noteq> None) ms)"

text \<open>The polls of \<^verbatim>\<open>remount_ro\<close>: at most 50 pauses; \<open>m i\<close> are the mounts at poll \<open>i\<close>.\<close>

fun remount_poll :: "(nat \<Rightarrow> (string \<times> string) list option) \<Rightarrow> nat \<Rightarrow> nat \<Rightarrow> ('h, 'z) dev_scheme \<Rightarrow> ('h, 'z) dev_scheme" where
  "remount_poll m cnt 0 s = s"
| "remount_poll m cnt (Suc left) s =
     (if remount_ro_done (m cnt) then s else remount_poll m (Suc cnt) left (call (Usleep 100000) s))"

definition remount_ro :: "(nat \<Rightarrow> (string \<times> string) list option) \<Rightarrow> ('h, 'z) dev_scheme \<Rightarrow> ('h, 'z) dev_scheme" where
  "remount_ro m s =
     (case syscall (Open ''/proc/sysrq-trigger'') s of
        (a, s1) \<Rightarrow> if ret a < 0 then s1 else remount_poll m 0 50 (call Close (call (Write ''u'') s1)))"

datatype rb_cmd = PREOS_RB_RESTART | PREOS_RB_POWEROFF | PREOS_RB_RESTART2 | RB_other

definition preos_reboot ::
    "(nat \<Rightarrow> (string \<times> string) list option) \<Rightarrow> rb_cmd \<Rightarrow> bool \<Rightarrow> bool \<Rightarrow> string \<Rightarrow> ('h, 'z) dev_scheme \<Rightarrow>
     int \<times> ('h, 'z) dev_scheme" where
  "preos_reboot m cmd no_sync no_remount arg s =
     (let s1 = (if no_sync then s else call Sync s);
          s2 = (if no_remount then s1 else remount_ro m s1)
      in case cmd of
           PREOS_RB_RESTART \<Rightarrow> (case syscall (Reboot ''RB_AUTOBOOT'') s2 of (a, s3) \<Rightarrow> (ret a, s3))
         | PREOS_RB_POWEROFF \<Rightarrow> (case syscall (Reboot ''RB_POWER_OFF'') s2 of (a, s3) \<Rightarrow> (ret a, s3))
         | PREOS_RB_RESTART2 \<Rightarrow> (case syscall (Reboot arg) s2 of (a, s3) \<Rightarrow> (ret a, s3))
         | RB_other \<Rightarrow> (-1, s2))"


section \<open>Properties\<close>

lemma syscall_fields [simp]:
  "os_answers (snd (syscall c s)) = os_answers s" "files (snd (syscall c s)) = files s" "ub (snd (syscall c s)) = ub s"
  "os_answers (call c s) = os_answers s" "files (call c s) = files s" "ub (call c s) = ub s"
  by (simp_all add: syscall_def call_def)

text \<open>A system on which a write takes at least one byte of what it is offered.\<close>

definition takes_bytes :: "('h, 'z) dev_scheme \<Rightarrow> bool" where
  "takes_bytes s \<longleftrightarrow> (\<forall>n bs. bs \<noteq> [] \<longrightarrow>
     1 \<le> ret (os_answers s n (Write bs)) \<and> ret (os_answers s n (Write bs)) \<le> int (length bs))"

lemma file_put_next:
  assumes "take p old = take p what" "p \<le> length old" "p \<le> length what"
    "k \<le> length what - p"
  defines "new \<equiv> file_put p (take k (drop p what)) old"
  shows "take (p + k) new = take (p + k) what" "p + k \<le> length new"
proof -
  have n: "new = take p what @ take k (drop p what) @ drop (p + k) old"
    using assms by (simp add: new_def file_put_def)
  show "take (p + k) new = take (p + k) what" unfolding n using assms(2-4) by (simp add: take_add)
  show "p + k \<le> length new" unfolding n using assms(2-4) by simp
qed

lemma size_sub_less: "k \<le> sz \<Longrightarrow> sz < 2 ^ 32 \<Longrightarrow> size_sub sz (int k) = sz - k"
proof -
  assume a: "k \<le> sz" "sz < 2 ^ 32"
  have "int sz - int k = int (sz - k)" using a by simp
  moreover have "int (sz - k) mod 2 ^ 32 = int (sz - k)" using a by (intro mod_pos_pos_trivial) auto
  ultimately show ?thesis unfolding size_sub_def by (simp only: nat_int)
qed

lemma size_sub_minus: "sz + 1 < 2 ^ 32 \<Longrightarrow> size_sub sz (- 1) = sz + 1"
proof -
  assume a: "sz + 1 < 2 ^ 32"
  have "int sz - - 1 = int (sz + 1)" by simp
  moreover have "int (sz + 1) mod 2 ^ 32 = int (sz + 1)" using a by (intro mod_pos_pos_trivial) auto
  ultimately show ?thesis unfolding size_sub_def by (simp only: nat_int)
qed

lemma write_loop_complete:
  assumes "takes_bytes s" "p + sz = length what" "length what < 2 ^ 32"
    "take p (files s f) = take p what" "p \<le> length (files s f)"
  shows "\<exists>t. write_loop f what (int p) sz p s = Some (0, t) \<and> take (length what) (files t f) = what \<and> ub t = ub s"
  using assms
proof (induction sz arbitrary: p s rule: less_induct)
  case (less sz)
  show ?case
  proof (cases "sz = 0")
    case True
    then show ?thesis using less.prems by (subst write_loop.simps) simp
  next
    case False
    let ?off = "take sz (drop p what)"
    let ?a = "os_answers s (length (os_log s)) (Write ?off)"
    have l: "length ?off = sz" "?off \<noteq> []" using less.prems(2) False by auto
    have r: "1 \<le> ret ?a" "ret ?a \<le> int sz"
      using less.prems(1) [unfolded takes_bytes_def, rule_format, OF l(2), of "length (os_log s)"] by (simp_all only: l(1))
    define k where "k = nat (ret ?a)"
    have k: "ret ?a = int k" "0 < k" "k \<le> sz" using r by (auto simp: k_def)
    have got: "take k ?off = take k (drop p what)" "length (take k (drop p what)) = k"
      using k(3) less.prems(2) by auto
    let ?t = "s\<lparr>os_log := os_log s @ [Write ?off], files := (files s)(f := file_put p (take k (drop p what)) (files s f))\<rparr>"
    have m: "size_sub sz (int k) = sz - k" using k(3) less.prems(2,3) by (intro size_sub_less) auto
    have "write_loop f what (int p) sz p s = write_loop f what (int (p + k)) (sz - k) (p + k) ?t"
      using False k m got(2) by (subst write_loop.simps) (simp add: syscall_def Let_def min_absorb1)
    moreover have "\<exists>t. write_loop f what (int (p + k)) (sz - k) (p + k) ?t = Some (0, t) \<and>
        take (length what) (files t f) = what \<and> ub t = ub ?t"
      using less.prems k file_put_next [OF less.prems(4,5), of k]
      by (intro less.IH) (auto simp: takes_bytes_def)
    ultimately show ?thesis by auto
  qed
qed

text \<open>
  C35. Writing a file: on a system that accepts at least a byte per call, however the data is cut,
  \<^verbatim>\<open>named_file_write\<close> ends with 0 and the file begins with exactly the data.
\<close>

theorem file_written:
  assumes "takes_bytes s" "0 \<le> ret (os_answers s (length (os_log s)) (Open f))" "length what < 2 ^ 32"
  shows "\<exists>t. named_file_write f what (length what) s = Some (0, t) \<and>
    take (length what) (files t f) = what \<and> ub t = ub s"
proof -
  let ?s = "s\<lparr>os_log := os_log s @ [Open f]\<rparr>"
  have "takes_bytes ?s" using assms(1) by (simp add: takes_bytes_def)
  then show ?thesis
    using write_loop_complete [of ?s 0 "length what" what f] assms(2,3)
    by (simp add: named_file_write_def syscall_def)
qed

definition example_system :: "nat \<Rightarrow> os_call \<Rightarrow> os_answer" where
  "example_system n c = \<lparr>ret = (case c of Write bs \<Rightarrow> min 3 (int (length bs)) | _ \<Rightarrow> 0), err = 0, bytes = [], is_blk = True\<rparr>"

definition example_dev :: "(nat \<Rightarrow> os_call \<Rightarrow> os_answer) \<Rightarrow> disk_info \<Rightarrow> Volume list \<Rightarrow> nat dev" where
  "example_dev os d vs = \<lparr>tboot_config = Some default_table, lcd_state = Lcd_on, lcd_panel = example_panel,
     alarm_left = 0, uevents = example_status, autoboot_enabled = False, power_pressed = False,
     ignore_keypress = False, action_mutex = False, pipe_broken = False, ui_log = [], ub = False,
     cmdlist = [], varlist = [], download_base = replicate 16 (CHR ''x''), download_max = 16, download_size = 0,
     fastboot_state = STATE_COMMAND, usb_in = [], usb_wr = [], usb_out = [],
     g_disk_info = d, device_volumes = vs, os_answers = os, os_log = [], files = (\<lambda>_. [])\<rparr>"

theorem file_written_witness:
  "\<exists>t. named_file_write ''/mnt/cache/recovery/command'' ''--update'' 8 (example_dev example_system example_disk []) = Some (0, t) \<and>
    take 8 (files t ''/mnt/cache/recovery/command'') = ''--update''"
proof -
  let ?s = "example_dev example_system example_disk []"
  have t: "takes_bytes ?s"
    by (auto simp: takes_bytes_def example_dev_def example_system_def Suc_le_eq)
  have o: "0 \<le> ret (os_answers ?s (length (os_log ?s)) (Open f))" for f
    by (simp add: example_dev_def example_system_def)
  have n: "length ''--update'' = 8" by simp
  show ?thesis using file_written [OF t o, of "''--update''" "''/mnt/cache/recovery/command''"] unfolding n by auto
qed

text \<open>
  An interrupted write: when the first \<^verbatim>\<open>write\<close> is interrupted, -1 is added to the pointer, and
  the next call reads from before the data.
\<close>

theorem file_write_interrupted:
  assumes "0 \<le> ret (os_answers s (length (os_log s)) (Open f))"
    "0 < sz" "sz \<le> length what" "sz + 1 < 2 ^ 32"
    "ret (os_answers s (length (os_log s) + 1) (Write (take sz what))) = -1"
    "err (os_answers s (length (os_log s) + 1) (Write (take sz what))) = EINTR"
    "ret (os_answers s (length (os_log s) + 2) (Write (take (sz + 1) what))) = int (sz + 1)"
  shows "\<exists>t. named_file_write f what sz s = Some (0, t) \<and> ub t"
proof -
  note m = size_sub_minus [OF assms(4)]
  have z: "size_sub (sz + 1) (int (sz + 1)) = 0" using size_sub_less [of "sz + 1" "sz + 1"] assms(4) by simp
  have "write_loop f what (- 1) (sz + 1) 0 t' = Some (0, t)"
    if "t' = s\<lparr>os_log := os_log s @ [Open f, Write (take sz what)], files := fs\<rparr>"
      "t = call Close (s\<lparr>os_log := os_log s @ [Open f, Write (take sz what), Write (take (sz + 1) what)], ub := True,
         files := fs(f := file_put 0 (take (sz + 1) (take (sz + 1) what)) (fs f))\<rparr>)" for t t' fs
    using assms(7) z unfolding that
    by (subst write_loop.simps) (simp add: syscall_def Let_def nat_add_distrib, subst write_loop.simps, simp)
  then have "\<exists>t. write_loop f what (- 1) (sz + 1) 0 (s\<lparr>os_log := os_log s @ [Open f, Write (take sz what)], files := fs\<rparr>) = Some (0, t) \<and> ub t" for fs
    by fastforce
  then show ?thesis using assms(1,2,5,6) m
    by (simp add: named_file_write_def syscall_def, subst write_loop.simps)
       (simp add: syscall_def Let_def)
qed

theorem file_write_interrupted_witness:
  "\<exists>t. named_file_write ''/f'' ''--update'' 8 (example_dev
      (\<lambda>n c. \<lparr>ret = (if n = 1 then -1 else 9), err = EINTR, bytes = [], is_blk = True\<rparr>) example_disk []) = Some (0, t) \<and> ub t"
  by (rule file_write_interrupted) (simp_all add: example_dev_def)

text \<open>
  Erasing formats the wrong device: for a partition whose node is the second device of a volume, the
  file system is made on the first one.
\<close>

theorem erase_second_device:
  assumes "part_device (name ptn) s = (Some node, s1)" "is_valid_blkdev node s1 = (True, s2)"
    "volume_for_device (device_volumes s2) node = Some vol" "fs_type vol = ''ext4''"
    "v_device vol = Some first" "v_device2 vol = Some node" "first \<noteq> node"
  shows "\<exists>r t. erase_partition ptn s = Some (r, t) \<and> os_log t = os_log s2 @ [Make_ext4fs first (v_length vol)]"
  using assms by (simp add: erase_partition_def syscall_def)

definition two_devices :: "Volume list" where
  "two_devices = [\<lparr>mount_point = ''/data'', fs_type = ''ext4'', v_device = Some ''/dev/sda1'',
     v_device2 = Some ''/dev/mmcblk0p6'', v_length = 0\<rparr>]"

theorem erase_second_device_witness:
  "\<exists>r t. erase_partition (example_parts ! 4) (example_dev example_system example_disk two_devices) = Some (r, t) \<and>
    os_log t = [Alloc ''data'', Stat ''/dev/mmcblk0p6'', Make_ext4fs ''/dev/sda1'' 0]"
proof -
  let ?s = "example_dev example_system example_disk two_devices"
  let ?s1 = "?s\<lparr>os_log := [Alloc ''data'']\<rparr>"
  let ?s2 = "?s\<lparr>os_log := [Alloc ''data'', Stat ''/dev/mmcblk0p6'']\<rparr>"
  have n: "name (example_parts ! 4) = ''data''" by (simp add: example_parts_def example_part_def)
  have "find_mbr_part True example_disk ''data'' = Some ''/dev/mmcblk0p6''" by code_simp
  then have d: "part_device (name (example_parts ! 4)) ?s = (Some ''/dev/mmcblk0p6'', ?s1)"
    unfolding n by (simp add: part_device_def syscall_def example_dev_def example_system_def find_part_device_def
        PART_SCHEME_MBR_def) (simp add: example_disk_def)
  have b: "is_valid_blkdev ''/dev/mmcblk0p6'' ?s1 = (True, ?s2)"
    by (simp add: is_valid_blkdev_def syscall_def example_dev_def example_system_def)
  have v: "volume_for_device (device_volumes ?s2) ''/dev/mmcblk0p6'' = Some (hd two_devices)"
    by (simp add: example_dev_def volume_for_device_def two_devices_def)
  show ?thesis
    using erase_second_device [OF d b v, of "''/dev/sda1''"] by (simp add: two_devices_def)
qed

definition joined :: "string list \<Rightarrow> string" where
  "joined ws = butlast (concat (map (\<lambda>w. w @ '' '') ws))"

lemma joined_Cons: "joined (w # v # ws) = w @ CHR '' '' # joined (v # ws)"
  by (simp add: joined_def butlast_append)

lemma joined_single: "joined [w] = w"
  by (simp add: joined_def)

lemma cmdline_params_word: "CHR '' '' \<notin> set w \<Longrightarrow> w \<noteq> [] \<Longrightarrow> cmdline_params w = [w]"
  using strchr_None_iff [of w "CHR '' ''"] by (subst cmdline_params.simps) simp

lemma cmdline_params_Cons:
  assumes "CHR '' '' \<notin> set w"
  shows "cmdline_params (w @ CHR '' '' # rest) = w # cmdline_params rest"
proof -
  have "strchr (w @ CHR '' '' # rest) (CHR '' '') = Some (CHR '' '' # rest)"
    using assms by (auto simp: strchr_Some_iff)
  then show ?thesis by (subst cmdline_params.simps) simp
qed

lemma cmdline_params_joined:
  "list_all (\<lambda>w. w \<noteq> [] \<and> CHR '' '' \<notin> set w) ws \<Longrightarrow> ws \<noteq> [] \<Longrightarrow> cmdline_params (joined ws) = ws"
proof (induction ws)
  case (Cons w ws)
  then show ?case
    by (cases ws) (simp_all add: joined_single joined_Cons cmdline_params_word cmdline_params_Cons)
qed simp

lemma joined_chars: "c \<in> set (joined ws) \<Longrightarrow> c = CHR '' '' \<or> (\<exists>w\<in>set ws. c \<in> set w)"
  unfolding joined_def by (drule in_set_butlastD) (auto split: if_splits)

text \<open>
  C36. Kernel parameters: what \<^verbatim>\<open>array_to_string\<close> makes of a list of parameters without blanks is cut by
  \<^verbatim>\<open>import_kernel_cmdline\<close> into the same parameters, in the same order.
\<close>

theorem cmdline_roundtrip:
  assumes "ws \<noteq> []" "list_all (\<lambda>w. w \<noteq> [] \<and> CHR '' '' \<notin> set w \<and> NUL \<notin> set w) ws" "length (joined ws) < 1023"
  shows "\<exists>str. array_to_string True ws (CHR '' '') = Inr (Some str) \<and>
    import_kernel_cmdline (Some (str @ [newline])) callback g = fold callback ws g"
proof -
  obtain w vs where ws: "ws = w # vs" using assms(1) by (cases ws) auto
  have "array_to_string True ws (CHR '' '') = Inr (Some (joined ws))"
    by (simp add: array_to_string_def joined_def ws)
  moreover have "NUL \<notin> set (joined ws)"
    using assms(2) by (auto simp: list_all_iff dest!: joined_chars)
  then have "c_str (joined ws) = joined ws" by (intro c_str_plain) auto
  moreover have "cmdline_params (joined ws) = ws"
    using assms(1,2) by (intro cmdline_params_joined) (auto simp: list_all_iff)
  ultimately show ?thesis
    using assms(3) by (simp add: import_kernel_cmdline_def butlast_append)
qed

theorem cmdline_roundtrip_witness:
  "\<exists>str. array_to_string True [''quiet'', ''tboot.autoboot=1'', ''rw''] (CHR '' '') = Inr (Some str) \<and>
    import_kernel_cmdline (Some (str @ [newline])) (\<lambda>w ws. ws @ [w]) [] = [''quiet'', ''tboot.autoboot=1'', ''rw'']"
  using cmdline_roundtrip [of "[''quiet'', ''tboot.autoboot=1'', ''rw'']" "\<lambda>w ws. ws @ [w]" "[]"]
  by (simp add: joined_def)

end
