(* ===== verification/Stream_Flash.thy ===== *)
theory Stream_Flash
  imports Tboot_Util "HOL-Library.Multiset"
begin

text \<open>
  The two threads of \<^verbatim>\<open>cmd_stream_flash\<close> in \<^verbatim>\<open>src/aboot.c\<close>: the main thread reads chunks from the host
  into two buffers, the reader thread writes the buffers to a pipe. The buffers are locked one by one,
  so a step of the model is one critical section, or one look at a shared flag outside of them. The
  order of the steps is a list of turns; the theorems hold for every list.
\<close>

section \<open>Buffers\<close>

definition SIZE :: nat where "SIZE = 4096 * 1024"
definition NR_BUFFER :: nat where "NR_BUFFER = 2"

text \<open>
  A turn of the schedule. \<open>Reader_fails n\<close> is a turn of the reader in which \<^verbatim>\<open>fwrite\<close> takes only \<open>n\<close>
  bytes or \<^verbatim>\<open>pclose\<close> reports a failure; \<open>Broken\<close> is the signal thread setting \<^verbatim>\<open>pipe_broken\<close>.
\<close>

datatype turn = Main | Reader | Reader_fails nat | Broken

text \<open>
  The shared buffers, as their contents up to \<^verbatim>\<open>len\<close>, and the local variables of both threads, \<open>w_\<close> for
  the main thread and \<open>r_\<close> for the reader. \<open>r_seen\<close> holds between the moment the reader unlocks an empty
  buffer and its look at \<^verbatim>\<open>writer_finished\<close>. \<open>fout\<close> lists what was written to the pipe and \<open>received\<close>
  the chunks read from the host.
\<close>

record stream =
  buf :: "string list"
  writer_finished :: bool
  w_i :: nat
  w_size :: nat
  w_finished :: nat
  r_i :: nat
  r_empty :: nat
  r_seen :: bool
  r_exit :: "int option"
  fout :: "string list"
  received :: "string list"

text \<open>\<open>dbl_percent\<close> is the progress that the code computes in floating point, rounded to an \<^verbatim>\<open>int\<close>.\<close>

record 'h sf = "'h dev" +
  stream :: stream
  turns :: "turn list"
  dbl_percent :: "nat \<Rightarrow> nat \<Rightarrow> int"

text \<open>\<^verbatim>\<open>buffer_init\<close>: the initial contents of the memory, or \<open>None\<close> without memory or mutex.\<close>

definition buffer_init :: "int \<Rightarrow> ('h, 'z) sf_scheme \<Rightarrow> string option \<times> ('h, 'z) sf_scheme" where
  "buffer_init sz s =
     (if sz \<le> 0 then (None, s)
      else case syscall (Alloc ''buffer'') s of
             (a, s1) \<Rightarrow>
               if ret a < 0 then (None, s1)
               else (case syscall (Alloc ''data'') s1 of
                       (b, s2) \<Rightarrow>
                         if ret b < 0 then (None, s2)
                         else (case syscall (Alloc ''mutex'') s2 of
                                 (c, s3) \<Rightarrow> if ret c \<noteq> 0 then (None, s3) else (Some (bytes b), s3))))"

section \<open>The reader\<close>

text \<open>One step of the reader thread; \<open>short\<close> says how the system fails it, if it does.\<close>

definition reader_step :: "nat option \<Rightarrow> bool \<Rightarrow> stream \<Rightarrow> stream" where
  "reader_step short broken t =
     (if r_exit t \<noteq> None then t
      else if r_seen t then
        t\<lparr>r_seen := False, r_empty := (if writer_finished t then r_empty t + 1 else r_empty t),
          r_i := (r_i t + 1) mod NR_BUFFER\<rparr>
      else if r_empty t < NR_BUFFER \<and> \<not> broken then
        (if buf t ! r_i t = [] then t\<lparr>r_seen := True\<rparr>
         else case short of
                Some n \<Rightarrow> t\<lparr>fout := fout t @ [take n (buf t ! r_i t)], r_exit := Some (-1)\<rparr>
              | None \<Rightarrow> t\<lparr>fout := fout t @ [buf t ! r_i t], buf := (buf t)[r_i t := []],
                          r_i := (r_i t + 1) mod NR_BUFFER\<rparr>)
      else t\<lparr>r_exit := Some (if short = None then 0 else -1)\<rparr>)"

definition other_turn :: "turn \<Rightarrow> ('h, 'z) sf_scheme \<Rightarrow> ('h, 'z) sf_scheme" where
  "other_turn a s =
     (case a of
        Main \<Rightarrow> s
      | Reader \<Rightarrow> s\<lparr>stream := reader_step None (pipe_broken s) (stream s)\<rparr>
      | Reader_fails n \<Rightarrow> s\<lparr>stream := reader_step (Some n) (pipe_broken s) (stream s)\<rparr>
      | Broken \<Rightarrow> s\<lparr>pipe_broken := True\<rparr>)"

section \<open>The main thread\<close>

definition flash_progress :: "int \<Rightarrow> ('h, 'z) sf_scheme \<Rightarrow> ('h, 'z) sf_scheme" where
  "flash_progress percent s =
     (if percent < 100 \<and> percent > 0 then tboot_ui_textbar percent (''Flashing...'' @ show_int percent @ ''%'') s
      else if percent \<ge> 100 then tboot_ui_textbar percent ''Flashing...99%'' s
      else s)"

text \<open>
  The size of the next chunk, and one round of the loop that fills the buffers. Sums of
  \<^verbatim>\<open>unsigned long\<close> are modulo \<open>2 ^ 32\<close>. The flag is false when the download failed.
\<close>

definition next_size :: "nat \<Rightarrow> stream \<Rightarrow> nat" where
  "next_size len t = (if (w_finished t + w_size t) mod 2 ^ 32 > len then len - w_finished t else w_size t)"

definition chunk_in :: "nat \<Rightarrow> string \<Rightarrow> stream \<Rightarrow> stream" where
  "chunk_in sz d t =
     t\<lparr>w_size := sz, buf := (buf t)[w_i t := d], w_i := (w_i t + 1) mod NR_BUFFER,
       w_finished := (w_finished t + sz) mod 2 ^ 32, received := received t @ [d]\<rparr>"

definition writer_round :: "nat \<Rightarrow> ('h, 'z) sf_scheme \<Rightarrow> bool \<times> ('h, 'z) sf_scheme" where
  "writer_round len s =
     (let t = stream s
      in if buf t ! w_i t \<noteq> [] then (True, s\<lparr>stream := t\<lparr>w_i := (w_i t + 1) mod NR_BUFFER\<rparr>\<rparr>)
         else let sz = next_size len t
              in case streaming_download sz False s of
                   (r, d, s1) \<Rightarrow>
                     if r \<noteq> 0 then (False, fastboot_fail ''download failed.'' (s1\<lparr>stream := t\<lparr>w_size := sz\<rparr>\<rparr>))
                     else let t1 = chunk_in sz d t
                          in (True, flash_progress (dbl_percent s (w_finished t1) len) (s1\<lparr>stream := t1\<rparr>)))"

definition writer_stops :: "nat \<Rightarrow> ('h, 'z) sf_scheme \<Rightarrow> bool" where
  "writer_stops len s \<longleftrightarrow> \<not> (w_finished (stream s) < len \<and> \<not> pipe_broken s)"

text \<open>
  The loop under a schedule: whether it was left without a failed download, the turns left and the
  state. It is \<open>None\<close> when the turns do not suffice.
\<close>

fun writer_loop :: "nat \<Rightarrow> turn list \<Rightarrow> ('h, 'z) sf_scheme \<Rightarrow> (bool \<times> turn list \<times> ('h, 'z) sf_scheme) option" where
  "writer_loop len [] s = None"
| "writer_loop len (a # ts) s =
     (if a = Main then
        (if writer_stops len s then Some (True, ts, s)
         else case writer_round len s of
                (ok, s1) \<Rightarrow> if ok then writer_loop len ts s1 else Some (False, ts, s1))
      else writer_loop len ts (other_turn a s))"

text \<open>\<^verbatim>\<open>pthread_join\<close>: the turns of the other threads until the reader has ended.\<close>

fun join_reader :: "turn list \<Rightarrow> ('h, 'z) sf_scheme \<Rightarrow> (turn list \<times> ('h, 'z) sf_scheme) option" where
  "join_reader [] s = (if r_exit (stream s) \<noteq> None then Some ([], s) else None)"
| "join_reader (a # ts) s =
     (if r_exit (stream s) \<noteq> None then Some (a # ts, s) else join_reader ts (other_turn a s))"

text \<open>After a broken pipe the rest of the data is read and dropped.\<close>

partial_function (option) drain_loop :: "nat \<Rightarrow> ('h, 'z) sf_scheme \<Rightarrow> ('h, 'z) sf_scheme option" where
  "drain_loop len s =
     (if w_finished (stream s) < len then
        (let sz = next_size len (stream s)
         in case streaming_download sz False s of
              (r, d, s1) \<Rightarrow>
                if r \<noteq> 0 then Some (s1\<lparr>stream := (stream s)\<lparr>w_size := sz\<rparr>\<rparr>)
                else drain_loop len
                  (s1\<lparr>stream := (stream s)\<lparr>w_size := sz, w_finished := (w_finished (stream s) + sz) mod 2 ^ 32\<rparr>\<rparr>))
      else Some s)"

text \<open>
  From the start of the reader thread to the end of \<^verbatim>\<open>pthread_join\<close>: whether the whole image was handed
  over, whether the reader was joined, and the state.
\<close>

definition stream_threads :: "nat \<Rightarrow> ('h, 'z) sf_scheme \<Rightarrow> (bool \<times> bool \<times> ('h, 'z) sf_scheme) option" where
  "stream_threads len s =
     (case writer_loop len (turns s) s of
        None \<Rightarrow> None
      | Some (ok, ts, s1) \<Rightarrow>
          let s2 = s1\<lparr>turns := ts\<rparr>
          in if \<not> ok then Some (False, False, s2)
             else if pipe_broken s2 then
               map_option (\<lambda>s3. (False, False, fastboot_fail ''broken pipe, image too large?'' s3)) (drain_loop len s2)
             else case syscall (Thread ''join'') (s2\<lparr>stream := (stream s2)\<lparr>writer_finished := True\<rparr>\<rparr>) of
                    (a, s3) \<Rightarrow>
                      if ret a \<noteq> 0 then Some (False, False, fastboot_fail ''join reader thread failed'' s3)
                      else case join_reader (turns s3) s3 of
                             None \<Rightarrow> None
                           | Some (ts', s4) \<Rightarrow>
                               let s5 = s4\<lparr>turns := ts'\<rparr>
                               in if w_finished (stream s5) \<noteq> len \<or> r_exit (stream s5) \<noteq> Some 0
                                  then Some (False, True, fastboot_fail ''write to device failed.'' s5)
                                  else Some (True, True, s5))"

section \<open>What the steps change\<close>

lemma stream_download_ok:
  assumes "streaming_download sz False s = (0, d, s1)" "sz \<le> INT_MAX"
  shows "length d = sz" "s1 = s\<lparr>usb_in := usb_in s1\<rparr>" "0 < sz \<Longrightarrow> length (usb_in s1) < length (usb_in s)"
proof -
  obtain r where u: "usb_read sz s = (r, d, s1)" and r: "r mod 2 ^ 32 = int sz"
    using assms(1) by (auto simp: streaming_download_def split: prod.splits if_splits)
  note p = usb_read_props [OF u]
  have l: "length d \<le> INT_MAX" using p(1) assms(2) by simp
  have "r \<noteq> -1" using r assms(2) by (auto simp: INT_MAX_def)
  then have r0: "0 \<le> r" using u l by (auto simp: usb_read_def split: if_splits prod.splits)
  then have "r = int (length d)" using p(4) l by simp
  then show "length d = sz" using r l by (simp add: INT_MAX_def)
  show "s1 = s\<lparr>usb_in := usb_in s1\<rparr>" using p(4) r0 by blast
  show "0 < sz \<Longrightarrow> length (usb_in s1) < length (usb_in s)" using p(3) r0 by blast
qed

lemma next_size_bounds:
  assumes "w_finished t < len"
  shows "next_size len t \<le> w_size t" "0 < w_size t \<Longrightarrow> 0 < next_size len t"
proof -
  have "len - w_finished t \<le> w_size t" if "(w_finished t + w_size t) mod 2 ^ 32 > len"
  proof (rule ccontr)
    assume "\<not> len - w_finished t \<le> w_size t"
    then have "w_finished t + w_size t < len" by simp
    then show False using that mod_less_eq_dividend [of "w_finished t + w_size t" "2 ^ 32"] by linarith
  qed
  then show "next_size len t \<le> w_size t" "0 < w_size t \<Longrightarrow> 0 < next_size len t"
    using assms by (auto simp: next_size_def)
qed

lemma progress_fields [simp]:
  "stream (flash_progress n s) = stream s" "pipe_broken (flash_progress n s) = pipe_broken s"
  "usb_in (flash_progress n s) = usb_in s" "fastboot_state (flash_progress n s) = fastboot_state s"
  by (simp_all add: flash_progress_def tboot_ui_textbar_def)

text \<open>The part of the state that the threads do not touch, as long as no download fails.\<close>

definition sf_core :: "('h, 'z) sf_scheme \<Rightarrow> ('h, 'z) sf_scheme" where
  "sf_core s = s\<lparr>usb_in := [], ui_log := [], pipe_broken := False, os_log := [],
     stream := \<lparr>buf = [], writer_finished = False, w_i = 0, w_size = 0, w_finished = 0, r_i = 0, r_empty = 0,
       r_seen = False, r_exit = None, fout = [], received = []\<rparr>, turns := []\<rparr>"

text \<open>A round of the main thread that goes on either finds the buffer full or takes a chunk.\<close>

lemma writer_round_cases [consumes 3, case_names full chunk]:
  assumes "writer_round len s = (True, s1)" "\<not> writer_stops len s" "w_size (stream s) \<le> INT_MAX"
  obtains "buf (stream s) ! w_i (stream s) \<noteq> []"
      "s1 = s\<lparr>stream := (stream s)\<lparr>w_i := (w_i (stream s) + 1) mod NR_BUFFER\<rparr>\<rparr>"
    | d s2 where "buf (stream s) ! w_i (stream s) = []" "length d = next_size len (stream s)"
      "streaming_download (next_size len (stream s)) False s = (0, d, s2)"
      "stream s1 = chunk_in (next_size len (stream s)) d (stream s)" "usb_in s1 = usb_in s2"
      "pipe_broken s1 = pipe_broken s" "fastboot_state s1 = fastboot_state s" "sf_core s1 = sf_core s"
proof -
  let ?t = "stream s" and ?n = "next_size len (stream s)"
  show thesis
  proof (cases "buf ?t ! w_i ?t = []")
    case False
    then show thesis using that(1) assms(1) by (simp add: writer_round_def Let_def)
  next
    case True
    obtain r d s2 where sd: "streaming_download ?n False s = (r, d, s2)" by (cases "streaming_download ?n False s") auto
    then have r: "r = 0" and s1: "s1 = flash_progress (dbl_percent s (w_finished (chunk_in ?n d ?t)) len) (s2\<lparr>stream := chunk_in ?n d ?t\<rparr>)"
      using assms(1) True by (auto simp: writer_round_def Let_def split: if_splits)
    have "w_finished ?t < len" using assms(2) by (simp add: writer_stops_def)
    then have n: "?n \<le> INT_MAX" using next_size_bounds(1) assms(3) le_trans by blast
    note ok = stream_download_ok [OF sd [unfolded r] n]
    have "pipe_broken s1 = pipe_broken s" "fastboot_state s1 = fastboot_state s"
      unfolding s1 by (subst ok(2), simp)+
    moreover have "sf_core s1 = sf_core s"
      unfolding s1 by (subst ok(2)) (simp add: sf_core_def flash_progress_def tboot_ui_textbar_def)
    moreover have "stream s1 = chunk_in ?n d ?t" "usb_in s1 = usb_in s2" unfolding s1 by simp_all
    ultimately show thesis using that(2) True ok(1) sd [unfolded r] by blast
  qed
qed

section \<open>Every schedule\<close>

text \<open>The states of a run that has started in \<open>s0\<close>.\<close>

inductive sf_reach :: "nat \<Rightarrow> ('h, 'z) sf_scheme \<Rightarrow> ('h, 'z) sf_scheme \<Rightarrow> bool" for len s0 where
  start: "sf_reach len s0 s0"
| others: "sf_reach len s0 s \<Longrightarrow> sf_reach len s0 (other_turn a s)"
| fill: "sf_reach len s0 s \<Longrightarrow> \<not> writer_stops len s \<Longrightarrow> writer_round len s = (True, s1) \<Longrightarrow> sf_reach len s0 s1"
| leave: "sf_reach len s0 s \<Longrightarrow> writer_stops len s \<Longrightarrow> \<not> pipe_broken s \<Longrightarrow>
    sf_reach len s0 (s\<lparr>stream := (stream s)\<lparr>writer_finished := True\<rparr>\<rparr>)"

lemma writer_loop_reach:
  "writer_loop len ts s = Some (True, ts', s1) \<Longrightarrow> sf_reach len s0 s \<Longrightarrow> sf_reach len s0 s1 \<and> writer_stops len s1"
proof (induction len ts s rule: writer_loop.induct)
  case (2 len a ts s)
  show ?case
  proof (cases "a = Main")
    case False
    then show ?thesis using 2 by (simp add: sf_reach.others)
  next
    case True
    obtain ok s2 where w: "writer_round len s = (ok, s2)" by (cases "writer_round len s")
    show ?thesis
    proof (cases "writer_stops len s")
      case stops: True
      then show ?thesis using 2(3,4) True by simp
    next
      case False
      then have "ok" "writer_loop len ts s2 = Some (True, ts', s1)" using 2(3) True w by (auto split: if_splits)
      then show ?thesis using 2(1) [OF True False w [symmetric]] sf_reach.fill [OF 2(4) False] w by simp
    qed
  qed
qed simp

lemma join_reader_reach:
  "join_reader ts s = Some (ts', s1) \<Longrightarrow> sf_reach len s0 s \<Longrightarrow> sf_reach len s0 s1 \<and> r_exit (stream s1) \<noteq> None"
proof (induction ts arbitrary: s)
  case (Cons a ts)
  then show ?case by (auto split: if_splits intro: sf_reach.others)
qed (auto split: if_splits)

text \<open>The state in which the reader is started: the first chunk \<open>d\<close> is in the first buffer.\<close>

definition stream_start :: "string \<Rightarrow> stream" where
  "stream_start d =
     \<lparr>buf = [d, []], writer_finished = False, w_i = 1, w_size = length d, w_finished = length d,
      r_i = 0, r_empty = 0, r_seen = False, r_exit = None, fout = [], received = [d]\<rparr>"

text \<open>
  What is conserved: unless the reader has failed, every chunk received was written once or is in a
  buffer. The rest are bounds.
\<close>

definition conserved :: "stream \<Rightarrow> bool" where
  "conserved t \<longleftrightarrow> r_exit t = Some (-1) \<or>
     mset (fout t) + mset (filter (\<lambda>d. d \<noteq> []) (buf t)) = mset (filter (\<lambda>d. d \<noteq> []) (received t))"

definition bounded :: "nat \<Rightarrow> stream \<Rightarrow> bool" where
  "bounded len t \<longleftrightarrow>
     length (buf t) = NR_BUFFER \<and> w_i t < NR_BUFFER \<and> r_i t < NR_BUFFER \<and> w_size t \<le> INT_MAX \<and>
     len + w_size t < 2 ^ 32 \<and> w_finished t \<le> len \<and> w_finished t = sum_list (map length (received t))"

definition flow_ok :: "nat \<Rightarrow> stream \<Rightarrow> bool" where
  "flow_ok len t \<longleftrightarrow> bounded len t \<and> conserved t"

lemma next_index [simp]: "(i + 1) mod NR_BUFFER < NR_BUFFER" "Suc i mod NR_BUFFER < NR_BUFFER"
  by (simp_all add: NR_BUFFER_def)

lemma bounded_reader: "bounded len t \<Longrightarrow> bounded len (reader_step short broken t)"
  by (simp add: reader_step_def bounded_def split: option.split)

lemma conserved_move:
  assumes "i < length b" "b ! i \<noteq> []"
  shows "mset (filter (\<lambda>d. d \<noteq> []) b) = add_mset (b ! i) (mset (filter (\<lambda>d. d \<noteq> []) (b[i := []])))"
  using assms by (induction b arbitrary: i) (auto simp: nth_Cons split: nat.splits)

lemma conserved_reader:
  assumes "bounded len t" "conserved t"
  shows "conserved (reader_step short broken t)"
proof -
  have "r_i t < length (buf t)" using assms(1) by (simp add: bounded_def)
  note move = conserved_move [OF this]
  show ?thesis
    using assms(2) move
    by (cases "buf t ! r_i t = []") (auto simp: conserved_def reader_step_def split: option.split)
qed

lemma bounded_chunk:
  assumes "bounded len t" "w_finished t < len" "length d = next_size len t"
  shows "bounded len (chunk_in (next_size len t) d t)"
proof -
  have "(w_finished t + w_size t) mod 2 ^ 32 = w_finished t + w_size t" using assms(1,2) by (simp add: bounded_def)
  then have f: "w_finished t + next_size len t \<le> len" using assms(2) by (simp add: next_size_def)
  then have "(w_finished t + next_size len t) mod 2 ^ 32 = w_finished t + next_size len t"
    using assms(1) by (simp add: bounded_def)
  then show ?thesis
    using assms f next_size_bounds(1) [OF assms(2)] by (simp add: bounded_def chunk_in_def)
qed

lemma conserved_chunk:
  assumes "bounded len t" "conserved t" "buf t ! w_i t = []"
  shows "conserved (chunk_in sz d t)"
proof -
  have i: "w_i t < length (buf t)" using assms(1) by (simp add: bounded_def)
  have "(buf t)[w_i t := []] = buf t" using assms(3) by (metis list_update_id)
  then show ?thesis
    using conserved_move [of "w_i t" "(buf t)[w_i t := d]"] i assms(2)
    by (cases "d = []") (auto simp: conserved_def chunk_in_def)
qed

lemma flow_reach:
  assumes "sf_reach len s0 s" "flow_ok len (stream s0)"
  shows "flow_ok len (stream s)"
  using assms
proof (induction rule: sf_reach.induct)
  case (others s a)
  then show ?case
    by (auto simp: other_turn_def flow_ok_def intro: bounded_reader conserved_reader split: turn.split)
next
  case (fill s s1)
  then have ok: "bounded len (stream s)" "conserved (stream s)" by (simp_all add: flow_ok_def)
  then have "w_size (stream s) \<le> INT_MAX" by (simp add: bounded_def)
  with fill(3,2) show ?case
  proof (cases rule: writer_round_cases)
    case full
    then show ?thesis using ok by (simp add: flow_ok_def bounded_def conserved_def)
  next
    case (chunk d s2)
    then show ?thesis
      using bounded_chunk [OF ok(1) _ chunk(2)] conserved_chunk [OF ok chunk(1)] fill(2)
      by (simp add: flow_ok_def writer_stops_def)
  qed
next
  case (leave s)
  then show ?case by (simp add: flow_ok_def bounded_def conserved_def)
qed simp

lemma core_reach:
  assumes "sf_reach len s0 s" "flow_ok len (stream s0)"
  shows "sf_core s = sf_core s0"
  using assms
proof (induction rule: sf_reach.induct)
  case (others s a)
  then show ?case by (simp add: other_turn_def sf_core_def split: turn.split)
next
  case (fill s s1)
  have "w_size (stream s) \<le> INT_MAX"
    using flow_reach [OF fill(1,5)] by (simp add: flow_ok_def bounded_def)
  with fill(3,2) have "sf_core s1 = sf_core s"
    by (cases rule: writer_round_cases) (simp_all add: sf_core_def)
  then show ?case using fill by simp
next
  case (leave s)
  then show ?case by (simp add: sf_core_def)
qed simp

section \<open>A host that sends the image\<close>

definition host_ok :: "string \<Rightarrow> string option list \<Rightarrow> nat \<Rightarrow> ('h, 'z) sf_scheme \<Rightarrow> bool" where
  "host_ok data rest cap s \<longleftrightarrow>
     usb_in s = map Some (chunks (drop (w_finished (stream s)) data)) @ rest \<and>
     fastboot_state s \<noteq> STATE_ERROR \<and>
     concat (received (stream s)) = take (w_finished (stream s)) data \<and>
     (w_finished (stream s) = length data \<or> w_size (stream s) = cap \<and> 4096 dvd w_finished (stream s))"

lemma host_stream:
  assumes "usb_in t = usb_in s" "fastboot_state t = fastboot_state s" "w_finished (stream t) = w_finished (stream s)"
    "w_size (stream t) = w_size (stream s)" "received (stream t) = received (stream s)"
  shows "host_ok data rest cap t = host_ok data rest cap s"
  by (simp add: host_ok_def assms)

lemma reader_step_fields [simp]:
  "w_finished (reader_step short broken t) = w_finished t" "w_size (reader_step short broken t) = w_size t"
  "received (reader_step short broken t) = received t" "w_i (reader_step short broken t) = w_i t"
  "writer_finished (reader_step short broken t) = writer_finished t"
  by (simp_all add: reader_step_def split: option.split)

lemma other_turn_fields [simp]:
  "usb_in (other_turn a s) = usb_in s" "fastboot_state (other_turn a s) = fastboot_state s"
  "w_finished (stream (other_turn a s)) = w_finished (stream s)" "w_size (stream (other_turn a s)) = w_size (stream s)"
  "received (stream (other_turn a s)) = received (stream s)" "w_i (stream (other_turn a s)) = w_i (stream s)"
  "writer_finished (stream (other_turn a s)) = writer_finished (stream s)"
  by (simp_all add: other_turn_def split: turn.split)

text \<open>The next chunk is read whole.\<close>

lemma host_chunk:
  assumes "host_ok data rest cap s" "4096 dvd cap" "bounded (length data) (stream s)"
    "w_finished (stream s) < length data"
  defines "n \<equiv> next_size (length data) (stream s)" and "f \<equiv> w_finished (stream s)"
  shows "streaming_download n False s =
      (0, take n (drop f data), s\<lparr>usb_in := map Some (chunks (drop (f + n) data)) @ rest\<rparr>)"
    "f + n \<le> length data" "f + n = length data \<or> n = cap \<and> 4096 dvd f + n"
proof -
  have f: "f < length data" "w_size (stream s) = cap" "4096 dvd f"
    using assms(1,4) by (auto simp: host_ok_def f_def)
  have "(f + cap) mod 2 ^ 32 = f + cap" using assms(3) f by (simp add: bounded_def)
  then have n: "n = (if f + cap > length data then length data - f else cap)"
    using f by (simp add: n_def next_size_def f_def)
  then show fn: "f + n \<le> length data" using f by auto
  show last: "f + n = length data \<or> n = cap \<and> 4096 dvd f + n" using n f assms(2) by auto
  let ?e = "drop f data"
  have "chunks ?e = chunks (take n ?e) @ chunks (drop n ?e)"
  proof (cases "n = cap")
    case True
    have "length (take n ?e) = n" using fn by simp
    then have "4096 dvd length (take n ?e)" using True assms(2) by simp
    from chunks_append [OF this, of "drop n ?e"] show ?thesis by (simp only: append_take_drop_id)
  next
    case False
    then have "n = length data - f" using n by (auto split: if_splits)
    then show ?thesis by (simp add: chunks.simps [of "[]"])
  qed
  then have u: "usb_in s = map Some (chunks (take n ?e)) @ map Some (chunks (drop (f + n) data)) @ rest"
    using assms(1) by (simp add: host_ok_def f_def [symmetric] add.commute)
  have l: "length (take n ?e) = n" "n \<le> INT_MAX"
    using fn next_size_bounds(1) [of "stream s" "length data"] assms(3,4) by (auto simp: n_def bounded_def)
  have "usb_read n s = (int n, take n ?e, s\<lparr>usb_in := map Some (chunks (drop (f + n) data)) @ rest\<rparr>)"
    using usb_read_chunks [OF _ u] assms(1) l by (simp add: host_ok_def)
  moreover have "int n mod 2 ^ 32 = int n" using l(2) by (simp add: INT_MAX_def)
  ultimately show "streaming_download n False s =
      (0, take n (drop f data), s\<lparr>usb_in := map Some (chunks (drop (f + n) data)) @ rest\<rparr>)"
    by (simp add: streaming_download_def)
qed

lemma host_round:
  assumes "host_ok data rest cap s" "4096 dvd cap" "bounded (length data) (stream s)"
    "writer_round (length data) s = (True, s1)" "\<not> writer_stops (length data) s"
  shows "host_ok data rest cap s1"
proof -
  have "w_size (stream s) \<le> INT_MAX" using assms(3) by (simp add: bounded_def)
  with assms(4,5) show ?thesis
  proof (cases rule: writer_round_cases)
    case full
    then show ?thesis using assms(1) by (simp add: host_ok_def)
  next
    case (chunk d s2)
    let ?f = "w_finished (stream s)" and ?n = "next_size (length data) (stream s)"
    have f: "?f < length data" using assms(5) by (simp add: writer_stops_def)
    note h = host_chunk [OF assms(1-3) f]
    have d: "d = take ?n (drop ?f data)" "usb_in s2 = map Some (chunks (drop (?f + ?n) data)) @ rest"
      using chunk(3) h(1) by auto
    have "(?f + ?n) mod 2 ^ 32 = ?f + ?n" using h(2) assms(3) by (simp add: bounded_def)
    then have "w_finished (stream s1) = ?f + ?n" "w_size (stream s1) = ?n"
      "received (stream s1) = received (stream s) @ [d]" using chunk(4) by (simp_all add: chunk_in_def)
    moreover have "take (?f + ?n) data = take ?f data @ d" by (simp add: take_add d(1))
    ultimately show ?thesis
      using assms(1) chunk(5,7) d(2) h(3) by (auto simp: host_ok_def)
  qed
qed

lemma host_reach:
  assumes "sf_reach (length data) s0 s" "host_ok data rest cap s0" "4096 dvd cap" "flow_ok (length data) (stream s0)"
  shows "host_ok data rest cap s"
  using assms
proof (induction rule: sf_reach.induct)
  case (others s a)
  then show ?case by (simp add: host_ok_def)
next
  case (fill s s1)
  then show ?case
    using host_round [of data rest cap s s1] flow_reach [OF fill(1)] by (simp add: flow_ok_def)
next
  case (leave s)
  then show ?case by (simp add: host_ok_def)
qed

text \<open>What a successful run has gone through.\<close>

lemma stream_threads_ok:
  fixes s t :: "('h, 'z) sf_scheme"
  assumes "stream_threads len s = Some (True, j, t)"
  obtains s1 s2 s3 :: "('h, 'z) sf_scheme" where "sf_reach len s s1" "writer_stops len s1" "\<not> pipe_broken s1"
    "stream s2 = (stream s1)\<lparr>writer_finished := True\<rparr>" "usb_in s2 = usb_in s1"
    "fastboot_state s2 = fastboot_state s1" "pipe_broken s2 = pipe_broken s1"
    "sf_reach len s2 s3" "stream t = stream s3" "usb_in t = usb_in s3" "fastboot_state t = fastboot_state s3"
    "pipe_broken t = pipe_broken s3"
    "w_finished (stream t) = len" "r_exit (stream t) = Some 0" "j" "sf_core s2 = sf_core s1" "sf_core t = sf_core s3"
proof -
  obtain ok ts s1 where w: "writer_loop len (turns s) s = Some (ok, ts, s1)"
    using assms by (cases "writer_loop len (turns s) s") (auto simp: stream_threads_def)
  define s2 where "s2 = snd (syscall (Thread ''join'') (s1\<lparr>turns := ts, stream := (stream s1)\<lparr>writer_finished := True\<rparr>\<rparr>))"
  have ok: "ok" "\<not> pipe_broken s1" using assms w by (auto simp: stream_threads_def Let_def split: if_splits)
  have s2: "stream s2 = (stream s1)\<lparr>writer_finished := True\<rparr>" "usb_in s2 = usb_in s1" "turns s2 = ts"
    "fastboot_state s2 = fastboot_state s1" "pipe_broken s2 = pipe_broken s1"
    by (simp_all add: s2_def syscall_def)
  have c2: "sf_core s2 = sf_core s1" by (simp add: s2_def syscall_def sf_core_def)
  from assms w ok obtain ts' s3 where "join_reader ts s2 = Some (ts', s3)" "j" "t = s3\<lparr>turns := ts'\<rparr>"
    "w_finished (stream t) = len" "r_exit (stream t) = Some 0"
    by (auto simp: stream_threads_def Let_def s2_def [symmetric] s2(3) case_prod_beta split: if_splits option.splits)
  then show thesis
    using that [of s1 s2 s3] writer_loop_reach [OF w [unfolded ok(1) [THEN eqTrueI]] sf_reach.start] ok(2) s2 c2
      join_reader_reach [of ts s2 ts' s3 len s2, OF _ sf_reach.start] by (auto simp: sf_core_def)
qed

lemma start_flow:
  assumes "length d \<le> INT_MAX" "len + length d < 2 ^ 32" "length d \<le> len"
  shows "flow_ok len (stream_start d)"
  using assms by (simp add: flow_ok_def bounded_def conserved_def stream_start_def NR_BUFFER_def)

lemma start_host:
  assumes "stream s = stream_start (take cap data)" "usb_in s = map Some (chunks (drop cap data)) @ rest"
    "fastboot_state s \<noteq> STATE_ERROR" "4096 dvd cap"
  shows "host_ok data rest cap s"
proof (cases "cap \<le> length data")
  case True
  then show ?thesis using assms by (simp add: host_ok_def stream_start_def)
next
  case False
  then show ?thesis using assms by (simp add: host_ok_def stream_start_def)
qed

section \<open>Properties\<close>

lemma SIZE_facts: "4096 dvd SIZE" "SIZE \<le> INT_MAX" "0 < SIZE"
  by (simp_all add: SIZE_def INT_MAX_def)

lemma stream_core:
  assumes "stream_threads len s = Some (True, j, t)" "flow_ok len (stream s)"
  shows "sf_core t = sf_core s"
  using assms(1)
proof (cases rule: stream_threads_ok)
  case (1 s1 s2 s3)
  have "flow_ok len (stream s2)"
    using flow_reach [OF 1(1) assms(2)] 1(4) by (simp add: flow_ok_def bounded_def conserved_def)
  then show ?thesis using core_reach [OF 1(1) assms(2)] core_reach [OF 1(8)] 1(16,17) by simp
qed

text \<open>The invariants at the end of a successful run.\<close>

lemma stream_end:
  assumes "stream s = stream_start (take SIZE data)" "usb_in s = map Some (chunks (drop SIZE data)) @ rest"
    "fastboot_state s \<noteq> STATE_ERROR" "length data + SIZE < 2 ^ 32"
    "stream_threads (length data) s = Some (True, j, t)"
  shows "conserved (stream t)" "host_ok data rest SIZE t"
proof -
  have i: "length (take SIZE data) \<le> SIZE" "length (take SIZE data) \<le> length data" "SIZE \<le> INT_MAX"
    by (simp_all add: SIZE_facts)
  have "flow_ok (length data) (stream s)"
    unfolding assms(1) by (rule start_flow) (use assms(4) i in linarith)+
  note f = this and h = start_host [OF assms(1-3) SIZE_facts(1)]
  have "conserved (stream t) \<and> host_ok data rest SIZE t"
    using assms(5)
  proof (cases rule: stream_threads_ok)
    case (1 s1 s2 s3)
    have f1: "flow_ok (length data) (stream s1)" "host_ok data rest SIZE s1"
      using flow_reach [OF 1(1) f] host_reach [OF 1(1) h SIZE_facts(1) f] by simp_all
    then have f2: "flow_ok (length data) (stream s2)" "host_ok data rest SIZE s2"
      using 1(4-6) by (simp_all add: flow_ok_def bounded_def conserved_def host_ok_def)
    show ?thesis
      using flow_reach [OF 1(8) f2(1)] host_reach [OF 1(8) f2(2) SIZE_facts(1) f2(1)] 1(9-11)
      by (simp add: flow_ok_def host_ok_def)
  qed
  then show "conserved (stream t)" "host_ok data rest SIZE t" by simp_all
qed

text \<open>
  C6: Whatever the order in which the threads take their turns, when a flash of an image is reported
  as written, the chunks received are the image in order, everything the host sent for it was read, and
  each chunk was either written to the pipe exactly once or is still in a buffer.
\<close>

theorem image_conserved:
  assumes "stream s = stream_start (take SIZE data)" "usb_in s = map Some (chunks (drop SIZE data)) @ rest"
    "fastboot_state s \<noteq> STATE_ERROR" "length data + SIZE < 2 ^ 32"
    "stream_threads (length data) s = Some (True, j, t)"
  shows "concat (received (stream t)) = data \<and> usb_in t = rest \<and>
    mset (fout (stream t)) + mset (filter (\<lambda>d. d \<noteq> []) (buf (stream t))) =
      mset (filter (\<lambda>d. d \<noteq> []) (received (stream t)))"
proof -
  note e = stream_end [OF assms]
  from assms(5) have "w_finished (stream t) = length data" "r_exit (stream t) = Some 0"
    by (cases rule: stream_threads_ok; simp)+
  then show ?thesis using e by (simp add: host_ok_def conserved_def chunks.simps [of "[]"])
qed

text \<open>A run with one chunk only.\<close>

definition one_chunk :: "string \<Rightarrow> ('h, 'z) sf_scheme \<Rightarrow> bool" where
  "one_chunk data s \<longleftrightarrow>
     pipe_broken s \<or> r_exit (stream s) = Some (-1) \<or>
     buf (stream s) = [data, []] \<and> fout (stream s) = [] \<and> r_i (stream s) = 0 \<and> \<not> r_seen (stream s) \<and>
       r_empty (stream s) = 0 \<and> r_exit (stream s) = None \<or>
     buf (stream s) = [[], []] \<and> fout (stream s) = [data] \<and> r_i (stream s) < 2"

lemma one_chunk_reach:
  assumes "sf_reach (length data) s0 s" "one_chunk data s0" "w_finished (stream s0) = length data" "data \<noteq> []"
  shows "one_chunk data s \<and> w_finished (stream s) = length data"
  using assms
proof (induction rule: sf_reach.induct)
  case (others s a)
  have "one_chunk data (s\<lparr>stream := reader_step short (pipe_broken s) (stream s)\<rparr>)" if "one_chunk data s" for short
    using that assms(4)
    by (auto simp: one_chunk_def reader_step_def NR_BUFFER_def less_2_cases_iff nth_Cons split: option.split)
  then show ?case using others by (auto simp: other_turn_def one_chunk_def [of _ "_\<lparr>pipe_broken := True\<rparr>"] split: turn.split)
next
  case (fill s s1)
  then show ?case by (simp add: writer_stops_def)
next
  case (leave s)
  then show ?case by (simp add: one_chunk_def)
qed simp

text \<open>
  An image that fits one buffer is written to the pipe exactly as it was received, whatever the
  order of the turns, if the flash is reported as written and the pipe did not break.
\<close>

lemma small_image:
  assumes "stream s = stream_start data" "0 < length data" "length data \<le> SIZE"
    "stream_threads (length data) s = Some (True, j, t)" "\<not> pipe_broken t"
  shows "fout (stream t) = [data]"
  using assms(4)
proof (cases rule: stream_threads_ok)
  case (1 s1 s2 s3)
  have s: "one_chunk data s" "w_finished (stream s) = length data" "data \<noteq> []"
    using assms(1,2) by (auto simp: one_chunk_def stream_start_def)
  have "one_chunk data s2 \<and> w_finished (stream s2) = length data"
    using one_chunk_reach [OF 1(1) s] 1(4,7) by (simp add: one_chunk_def)
  then have "one_chunk data s3" using one_chunk_reach [OF 1(8)] s(3) by blast
  then show ?thesis using 1(9,12,14) assms(5) by (simp add: one_chunk_def)
qed

text \<open>A state in which a first chunk has come and the host still sends \<open>more\<close>.\<close>

definition example_sf :: "string \<Rightarrow> string list \<Rightarrow> turn list \<Rightarrow> nat sf" where
  "example_sf d later ts = \<lparr>tboot_config = Some default_table, lcd_state = Lcd_on, lcd_panel = example_panel,
     alarm_left = 0, uevents = example_status, autoboot_enabled = False, power_pressed = False,
     ignore_keypress = False, action_mutex = False, pipe_broken = False, ui_log = [], ub = False,
     cmdlist = [], varlist = [], download_base = replicate 16 (CHR ''x''), download_max = 16, download_size = 0,
     fastboot_state = STATE_COMMAND, usb_in = map Some later, usb_wr = [], usb_out = [],
     g_disk_info = example_disk, device_volumes = [], os_answers = example_system, os_log = [],
     files = (\<lambda>_. []), stream = stream_start d, turns = ts,
     dbl_percent = (\<lambda>finished len. int (finished * 100 div len))\<rparr>"

theorem image_conserved_witness:
  "\<exists>j t. stream_threads (length ''image'') (example_sf (take SIZE ''image'') [] (Main # replicate 8 Reader)) =
      Some (True, j, t) \<and>
    concat (received (stream t)) = ''image'' \<and> usb_in t = [] \<and>
    mset (fout (stream t)) + mset (filter (\<lambda>d. d \<noteq> []) (buf (stream t))) =
      mset (filter (\<lambda>d. d \<noteq> []) (received (stream t)))"
proof -
  let ?s = "example_sf (take SIZE ''image'') [] (Main # replicate 8 Reader)"
  have d: "take SIZE ''image'' = ''image''" by (simp add: SIZE_def)
  have "\<exists>t. stream_threads (length ''image'') ?s = Some (True, True, t)"
    by (simp add: d example_sf_def stream_threads_def writer_stops_def stream_start_def syscall_def example_system_def
        numeral_eq_Suc other_turn_def reader_step_def NR_BUFFER_def)
  then obtain t where r: "stream_threads (length ''image'') ?s = Some (True, True, t)" by blast
  have "usb_in ?s = map Some (chunks (drop SIZE ''image'')) @ []" "length ''image'' + SIZE < 2 ^ 32"
    "stream ?s = stream_start (take SIZE ''image'')" "fastboot_state ?s \<noteq> STATE_ERROR"
    by (simp_all add: example_sf_def SIZE_def chunks.simps [of "[]"])
  from image_conserved [OF this(3,1,4,2) r] r show ?thesis by auto
qed

text \<open>One round of the main thread on an empty buffer, with the next chunk in the host's transfers.\<close>

definition same_env :: "('h, 'z) sf_scheme \<Rightarrow> ('h, 'z) sf_scheme \<Rightarrow> bool" where
  "same_env s t \<longleftrightarrow> fastboot_state t = fastboot_state s \<and> pipe_broken t = pipe_broken s \<and>
     os_answers t = os_answers s \<and> os_log t = os_log s"

lemma writer_round_chunk:
  assumes "buf (stream s) ! w_i (stream s) = []" "next_size len (stream s) = length d" "length d \<le> INT_MAX"
    "usb_in s = map Some (chunks d) @ later" "fastboot_state s \<noteq> STATE_ERROR"
  shows "\<exists>t. writer_round len s = (True, t) \<and> stream t = chunk_in (length d) d (stream s) \<and> usb_in t = later \<and>
    same_env s t"
proof -
  have "int (length d) mod 2 ^ 32 = int (length d)" using assms(3) by (simp add: INT_MAX_def)
  then have "streaming_download (length d) False s = (0, d, s\<lparr>usb_in := later\<rparr>)"
    using usb_read_chunks [OF assms(5,4,3)] by (simp add: streaming_download_def)
  then show ?thesis
    using assms(1,2) by (simp add: writer_round_def Let_def same_env_def flash_progress_def tboot_ui_textbar_def)
qed

text \<open>A run whose loop and whose join succeed; \<open>joining ts s\<close> is the state in which the join waits.\<close>

definition joining :: "turn list \<Rightarrow> ('h, 'z) sf_scheme \<Rightarrow> ('h, 'z) sf_scheme" where
  "joining ts s = snd (syscall (Thread ''join'') (s\<lparr>turns := ts, stream := (stream s)\<lparr>writer_finished := True\<rparr>\<rparr>))"

lemma joining_fields [simp]:
  "stream (joining ts s) = (stream s)\<lparr>writer_finished := True\<rparr>" "pipe_broken (joining ts s) = pipe_broken s"
  "usb_in (joining ts s) = usb_in s" "turns (joining ts s) = ts"
  by (simp_all add: joining_def syscall_def)

lemma stream_threads_success:
  assumes "writer_loop len (turns s) s = Some (True, ts, s1)" "\<not> pipe_broken s1"
    "ret (os_answers s1 (length (os_log s1)) (Thread ''join'')) = 0"
    "join_reader ts (joining ts s1) = Some (ts', t)" "w_finished (stream t) = len" "r_exit (stream t) = Some 0"
  shows "stream_threads len s = Some (True, True, t\<lparr>turns := ts'\<rparr>)"
  using assms by (simp add: stream_threads_def syscall_def joining_def)

text \<open>
  C22: An image of two chunks can be reported as written although the second chunk never reaches the
  pipe: the reader finds the second buffer empty, the main thread fills it and sets
  \<^verbatim>\<open>writer_finished\<close>, and only then does the reader look at that flag and count the buffer as empty.
\<close>

theorem chunk_lost:
  assumes "length d0 = SIZE" "0 < length d1" "length d1 \<le> SIZE"
    "stream s = stream_start d0" "usb_in s = map Some (chunks d1) @ rest" "fastboot_state s \<noteq> STATE_ERROR"
    "\<not> pipe_broken s" "ret (os_answers s (length (os_log s)) (Thread ''join'')) = 0"
    "turns s = [Reader, Reader, Main, Main, Reader, Reader, Reader, Reader]"
  shows "\<exists>t. stream_threads (length d0 + length d1) s = Some (True, True, t) \<and>
    fout (stream t) = [d0] \<and> buf (stream t) = [[], d1] \<and> usb_in t = rest"
proof -
  let ?len = "SIZE + length d1"
  note steps = reader_step_def stream_start_def NR_BUFFER_def
  have d: "d0 \<noteq> []" "d1 \<noteq> []" "length d1 \<le> INT_MAX" "?len mod 2 ^ 32 = ?len" "(SIZE + SIZE) mod 2 ^ 32 = SIZE + SIZE"
    using assms(1-3) by (auto simp: SIZE_def INT_MAX_def)
  define s1 where "s1 = other_turn Reader (other_turn Reader s)"
  have s1: "stream s1 = (stream_start d0)\<lparr>buf := [[], []], fout := [d0], r_i := 1, r_seen := True\<rparr>"
    "usb_in s1 = usb_in s" "same_env s s1"
    using assms(4,7) d(1) by (simp_all add: s1_def other_turn_def steps same_env_def)
  have "next_size ?len (stream s1) = length d1"
    using assms(1,3) d by (auto simp: s1(1) stream_start_def next_size_def)
  then obtain s2 where w: "writer_round ?len s1 = (True, s2)" "stream s2 = chunk_in (length d1) d1 (stream s1)"
    "usb_in s2 = rest" "same_env s1 s2"
    using writer_round_chunk [of s1 ?len d1 rest] assms(5,6) d s1 by (auto simp: stream_start_def same_env_def)
  have st2: "stream s2 = (stream s1)\<lparr>w_size := length d1, buf := [[], d1], w_i := 0,
      w_finished := ?len, received := [d0, d1]\<rparr>"
    using assms(1) d(4) by (simp add: w(2) s1(1) chunk_in_def stream_start_def NR_BUFFER_def)
  have env: "\<not> pipe_broken s1" "\<not> pipe_broken s2" "ret (os_answers s2 (length (os_log s2)) (Thread ''join'')) = 0"
    using assms(7,8) s1(3) w(4) by (simp_all add: same_env_def)
  have stop: "\<not> writer_stops ?len s1" "writer_stops ?len s2"
    using assms(1,2) env by (simp_all add: writer_stops_def st2 s1(1) stream_start_def)
  have loop: "writer_loop ?len (turns s) s = Some (True, [Reader, Reader, Reader, Reader], s2)"
    using stop w(1) by (simp add: assms(9) s1_def [symmetric])
  obtain t where t: "join_reader [Reader, Reader, Reader, Reader] (joining [Reader, Reader, Reader, Reader] s2) = Some ([], t)"
    "stream t = (stream s2)\<lparr>writer_finished := True, r_exit := Some 0, r_empty := 2, r_i := 1, r_seen := False\<rparr>"
    "usb_in t = rest"
    using env(2) w(3) by (simp add: st2 s1(1) other_turn_def steps)
  show ?thesis
    using stream_threads_success [OF loop env(2,3) t(1)] t(2,3) assms(1) by (simp add: st2 s1(1))
qed

text \<open>
  C37: An image of three chunks can be reported as written with the second and the third chunk
  exchanged on the pipe: the reader skips the second buffer while it is empty and returns to the first
  one, which the main thread has meanwhile filled with the third chunk.
\<close>

theorem chunks_reordered:
  assumes "length d0 = SIZE" "length d1 = SIZE" "0 < length d2" "length d2 \<le> SIZE"
    "stream s = stream_start d0" "usb_in s = map Some (chunks d1) @ map Some (chunks d2) @ rest"
    "fastboot_state s \<noteq> STATE_ERROR" "\<not> pipe_broken s"
    "ret (os_answers s (length (os_log s)) (Thread ''join'')) = 0"
    "turns s = [Reader, Reader, Reader, Main, Main, Reader, Reader, Main] @ replicate 5 Reader"
  shows "\<exists>t. stream_threads (length d0 + length d1 + length d2) s = Some (True, True, t) \<and>
    fout (stream t) = [d0, d2, d1] \<and> received (stream t) = [d0, d1, d2] \<and> buf (stream t) = [[], []]"
proof -
  let ?len = "SIZE + SIZE + length d2"
  note steps = reader_step_def stream_start_def NR_BUFFER_def
  have d: "d0 \<noteq> []" "d1 \<noteq> []" "d2 \<noteq> []" "length d1 \<le> INT_MAX" "length d2 \<le> INT_MAX"
    "(SIZE + SIZE) mod 2 ^ 32 = SIZE + SIZE" "(SIZE + SIZE + SIZE) mod 2 ^ 32 = SIZE + SIZE + SIZE" "?len mod 2 ^ 32 = ?len"
    using assms(1-4) by (auto simp: SIZE_def INT_MAX_def)
  define s1 where "s1 = other_turn Reader (other_turn Reader (other_turn Reader s))"
  have s1: "stream s1 = (stream_start d0)\<lparr>buf := [[], []], fout := [d0]\<rparr>" "usb_in s1 = usb_in s" "same_env s s1"
    using assms(5,8) d(1) by (simp_all add: s1_def other_turn_def steps same_env_def)
  have "next_size ?len (stream s1) = length d1"
    using assms(1,2) d(6) by (simp add: s1(1) stream_start_def next_size_def)
  then obtain s2 where w1: "writer_round ?len s1 = (True, s2)" "stream s2 = chunk_in (length d1) d1 (stream s1)"
    "usb_in s2 = map Some (chunks d2) @ rest" "same_env s1 s2"
    using writer_round_chunk [of s1 ?len d1 "map Some (chunks d2) @ rest"] assms(6,7) d(4) s1
    by (auto simp: stream_start_def same_env_def)
  have st2: "stream s2 = (stream s1)\<lparr>buf := [[], d1], w_i := 0, w_finished := SIZE + SIZE, received := [d0, d1]\<rparr>"
    using assms(1,2) d(6) by (simp add: w1(2) s1(1) chunk_in_def stream_start_def NR_BUFFER_def)
  have "next_size ?len (stream s2) = length d2"
    using assms(1,4) d(7) by (auto simp: st2 s1(1) stream_start_def next_size_def)
  then obtain s3 where w2: "writer_round ?len s2 = (True, s3)" "stream s3 = chunk_in (length d2) d2 (stream s2)"
    "same_env s2 s3"
    using writer_round_chunk [of s2 ?len d2 rest] assms(7) d(5) s1(3) w1(3,4) by (auto simp: st2 same_env_def)
  have st3: "stream s3 = (stream s2)\<lparr>w_size := length d2, buf := [d2, d1], w_i := 1, w_finished := ?len, received := [d0, d1, d2]\<rparr>"
    using d(8) by (simp add: w2(2) st2 chunk_in_def NR_BUFFER_def)
  define s4 where "s4 = other_turn Reader (other_turn Reader s3)"
  have env: "\<not> pipe_broken s1" "\<not> pipe_broken s2" "\<not> pipe_broken s3" "\<not> pipe_broken s4"
    "ret (os_answers s4 (length (os_log s4)) (Thread ''join'')) = 0"
    using assms(8,9) s1(3) w1(4) w2(3) by (simp_all add: s4_def same_env_def other_turn_def)
  have s4: "stream s4 = (stream s3)\<lparr>buf := [[], []], fout := [d0, d2, d1]\<rparr>"
    using d(2,3) env(3) by (simp add: s4_def other_turn_def steps st3 st2 s1(1))
  have stop: "\<not> writer_stops ?len s1" "\<not> writer_stops ?len s2" "writer_stops ?len s4"
    using assms(1-3) env by (simp_all add: writer_stops_def s4 st3 st2 s1(1) stream_start_def)
  have loop: "writer_loop ?len (turns s) s = Some (True, replicate 5 Reader, s4)"
    using stop w1(1) w2(1) by (simp add: assms(10) s1_def [symmetric] s4_def [symmetric])
  obtain t where t: "join_reader (replicate 5 Reader) (joining (replicate 5 Reader) s4) = Some ([], t)"
    "stream t = (stream s4)\<lparr>writer_finished := True, r_exit := Some 0, r_empty := 2, r_i := 0, r_seen := False\<rparr>"
    using env(4) by (simp add: s4 st3 st2 s1(1) other_turn_def steps numeral_eq_Suc)
  show ?thesis
    using stream_threads_success [OF loop env(4,5) t(1)] t(2) assms(1,2) by (simp add: s4 st3)
qed

definition full_chunk :: "char \<Rightarrow> string" where
  "full_chunk c = replicate SIZE c"

lemma full_chunk_length [simp]: "length (full_chunk c) = SIZE"
  by (simp add: full_chunk_def)

theorem chunk_lost_witness:
  "\<exists>t. stream_threads (length (full_chunk (CHR ''a'')) + length ''zz'')
      (example_sf (full_chunk (CHR ''a'')) (chunks ''zz'')
        [Reader, Reader, Main, Main, Reader, Reader, Reader, Reader]) = Some (True, True, t) \<and>
    fout (stream t) = [full_chunk (CHR ''a'')] \<and> buf (stream t) = [[], ''zz''] \<and> usb_in t = []"
proof -
  let ?s = "example_sf (full_chunk (CHR ''a'')) (chunks ''zz'') [Reader, Reader, Main, Main, Reader, Reader, Reader, Reader]"
  have "0 < length ''zz''" "length ''zz'' \<le> SIZE" "stream ?s = stream_start (full_chunk (CHR ''a''))"
    "usb_in ?s = map Some (chunks ''zz'') @ []" "fastboot_state ?s \<noteq> STATE_ERROR" "\<not> pipe_broken ?s"
    "ret (os_answers ?s (length (os_log ?s)) (Thread ''join'')) = 0"
    "turns ?s = [Reader, Reader, Main, Main, Reader, Reader, Reader, Reader]"
    by (simp_all add: example_sf_def example_system_def SIZE_def)
  from chunk_lost [OF full_chunk_length this] show ?thesis .
qed

theorem chunks_reordered_witness:
  "\<exists>t. stream_threads (length (full_chunk (CHR ''a'')) + length (full_chunk (CHR ''b'')) + length ''zz'')
      (example_sf (full_chunk (CHR ''a'')) (chunks (full_chunk (CHR ''b'')) @ chunks ''zz'')
        ([Reader, Reader, Reader, Main, Main, Reader, Reader, Main] @ replicate 5 Reader)) = Some (True, True, t) \<and>
    fout (stream t) = [full_chunk (CHR ''a''), ''zz'', full_chunk (CHR ''b'')] \<and>
    received (stream t) = [full_chunk (CHR ''a''), full_chunk (CHR ''b''), ''zz''] \<and> buf (stream t) = [[], []]"
proof -
  let ?s = "example_sf (full_chunk (CHR ''a'')) (chunks (full_chunk (CHR ''b'')) @ chunks ''zz'')
    ([Reader, Reader, Reader, Main, Main, Reader, Reader, Main] @ replicate 5 Reader)"
  have "0 < length ''zz''" "length ''zz'' \<le> SIZE" "stream ?s = stream_start (full_chunk (CHR ''a''))"
    "usb_in ?s = map Some (chunks (full_chunk (CHR ''b''))) @ map Some (chunks ''zz'') @ []"
    "fastboot_state ?s \<noteq> STATE_ERROR" "\<not> pipe_broken ?s"
    "ret (os_answers ?s (length (os_log ?s)) (Thread ''join'')) = 0"
    "turns ?s = [Reader, Reader, Reader, Main, Main, Reader, Reader, Main] @ replicate 5 Reader"
    by (simp_all add: example_sf_def example_system_def SIZE_def)
  from chunks_reordered [OF full_chunk_length full_chunk_length this] show ?thesis .
qed

end
