(* ===== verification/Stream_End.thy ===== *)
theory Stream_End
  imports Stream_Flash
begin

text \<open>
  The two threads of a streaming flash come to an end: from every point that a run without failures can
  reach, a continuation of the schedule exists in which the image is handed over and the reader ends.
\<close>

section \<open>The threads come to an end\<close>

text \<open>A run in which nothing has failed and the main thread still fills the buffers.\<close>

definition filling :: "string \<Rightarrow> string option list \<Rightarrow> ('h, 'z) sf_scheme \<Rightarrow> bool" where
  "filling data rest s \<longleftrightarrow>
     flow_ok (length data) (stream s) \<and> host_ok data rest SIZE s \<and> \<not> pipe_broken s \<and>
     \<not> writer_finished (stream s) \<and> r_exit (stream s) = None \<and> r_empty (stream s) = 0 \<and>
     (\<forall>n. ret (os_answers s n (Thread ''join'')) = 0)"

lemma filling_reader:
  assumes "filling data rest s"
  shows "filling data rest (other_turn Reader s)"
proof -
  have "flow_ok (length data) (stream (other_turn Reader s))"
    using assms by (auto simp: filling_def flow_ok_def other_turn_def intro: bounded_reader conserved_reader)
  moreover have "host_ok data rest SIZE (other_turn Reader s)"
    using assms by (simp add: filling_def host_ok_def)
  moreover have "r_exit (stream (other_turn Reader s)) = None" "r_empty (stream (other_turn Reader s)) = 0"
    "\<not> pipe_broken (other_turn Reader s)" "os_answers (other_turn Reader s) = os_answers s"
    using assms by (auto simp: filling_def other_turn_def reader_step_def NR_BUFFER_def)
  ultimately show ?thesis using assms by (simp add: filling_def)
qed

lemma progress_answers [simp]: "os_answers (flash_progress n s) = os_answers s"
  by (simp add: flash_progress_def tboot_ui_textbar_def)

lemma filling_round:
  assumes "filling data rest s" "\<not> writer_stops (length data) s"
  obtains t where "writer_round (length data) s = (True, t)" "filling data rest t"
    "buf (stream s) ! w_i (stream s) = [] \<Longrightarrow> w_finished (stream s) < w_finished (stream t)"
    "buf (stream s) ! w_i (stream s) \<noteq> [] \<Longrightarrow> w_finished (stream s) = w_finished (stream t)"
proof -
  have f: "bounded (length data) (stream s)" "conserved (stream s)" "host_ok data rest SIZE s" "\<not> pipe_broken s"
    "w_finished (stream s) < length data"
    using assms by (auto simp: filling_def flow_ok_def writer_stops_def)
  note h = host_chunk [OF f(3) SIZE_facts(1) f(1,5)]
  let ?n = "next_size (length data) (stream s)"
  obtain t where t: "writer_round (length data) s = (True, t)" "pipe_broken t = pipe_broken s"
    "writer_finished (stream t) = writer_finished (stream s)" "r_exit (stream t) = r_exit (stream s)"
    "r_empty (stream t) = r_empty (stream s) \<and> os_answers t = os_answers s"
    "buf (stream s) ! w_i (stream s) = [] \<Longrightarrow> w_finished (stream t) = (w_finished (stream s) + ?n) mod 2 ^ 32"
    "buf (stream s) ! w_i (stream s) \<noteq> [] \<Longrightarrow> w_finished (stream s) = w_finished (stream t)"
    using h(1) by (cases "buf (stream s) ! w_i (stream s) = []")
      (auto simp: writer_round_def Let_def chunk_in_def)
  have "0 < ?n" using next_size_bounds(2) f(3,5) SIZE_facts(3) by (auto simp: host_ok_def)
  moreover have "(w_finished (stream s) + ?n) mod 2 ^ 32 = w_finished (stream s) + ?n"
    using h(2) f(1) by (simp add: bounded_def)
  moreover have "filling data rest t"
    using assms(1) host_round [OF f(3) SIZE_facts(1) f(1) t(1) assms(2)] t(2-5)
      flow_reach [OF sf_reach.fill [OF sf_reach.start assms(2) t(1)]] by (simp add: filling_def)
  ultimately show thesis using that [OF t(1)] t(6,7) by simp
qed

text \<open>In four turns the reader empties both buffers, whatever it was about to do.\<close>

definition rounds :: "nat \<Rightarrow> turn list" where
  "rounds n = concat (replicate n [Reader, Reader, Reader, Reader, Main])"

lemma two_buffers: "length xs = NR_BUFFER \<Longrightarrow> \<exists>x y. xs = [x, y]"
  by (auto simp: NR_BUFFER_def length_Suc_conv numeral_2_eq_2)

lemma reader_empties:
  assumes "bounded len t" "r_exit t = None" "r_empty t = 0" "\<not> writer_finished t"
  shows "buf (reader_step None False (reader_step None False (reader_step None False (reader_step None False t)))) ! w_i t = []"
proof -
  have l: "length (buf t) = NR_BUFFER" "r_i t < 2" "w_i t < 2"
    using assms(1) by (simp_all add: bounded_def NR_BUFFER_def)
  obtain x y where b: "buf t = [x, y]" using two_buffers [OF l(1)] by blast
  have i: "r_i t = 0 \<or> r_i t = 1" "w_i t = 0 \<or> w_i t = 1" using l by auto
  show ?thesis
    using i by (elim disjE; cases "x = []"; cases "y = []"; cases "r_seen t")
      (simp_all add: reader_step_def NR_BUFFER_def assms(2-4) b)
qed

lemma filling_progress:
  assumes "filling data rest s" "\<not> writer_stops (length data) s"
  obtains t where "\<And>us. writer_loop (length data) ([Reader, Reader, Reader, Reader, Main] @ us) s = writer_loop (length data) us t"
    "filling data rest t" "w_finished (stream s) < w_finished (stream t)"
proof -
  define s4 where "s4 = other_turn Reader (other_turn Reader (other_turn Reader (other_turn Reader s)))"
  have f: "filling data rest s4" unfolding s4_def by (intro filling_reader assms(1))
  have stop: "\<not> writer_stops (length data) s4" using assms f by (simp add: writer_stops_def s4_def filling_def)
  have "stream s4 = reader_step None False (reader_step None False (reader_step None False (reader_step None False (stream s))))"
    "w_i (stream s4) = w_i (stream s)" "w_finished (stream s4) = w_finished (stream s)"
    using assms(1) by (simp_all add: s4_def other_turn_def filling_def)
  moreover from this have "buf (stream s4) ! w_i (stream s4) = []"
    using assms(1) reader_empties [of "length data" "stream s"] by (simp add: filling_def flow_ok_def)
  moreover obtain t where t: "writer_round (length data) s4 = (True, t)" "filling data rest t"
    "buf (stream s4) ! w_i (stream s4) = [] \<Longrightarrow> w_finished (stream s4) < w_finished (stream t)"
    using filling_round [OF f stop] by blast
  moreover have "writer_loop (length data) ([Reader, Reader, Reader, Reader, Main] @ us) s = writer_loop (length data) us t" for us
    using stop t(1) by (simp add: s4_def [symmetric])
  ultimately show thesis using that [of t] by simp
qed

lemma rounds_fill:
  assumes "filling data rest s" "length data - w_finished (stream s) < n"
  shows "\<exists>ws t. writer_loop (length data) (rounds n @ us) s = Some (True, ws @ us, t) \<and> set ws \<subseteq> {Main, Reader} \<and>
    filling data rest t \<and> writer_stops (length data) t"
  using assms
proof (induction n arbitrary: s)
  case (Suc n)
  have rs: "rounds (Suc n) = [Reader, Reader, Reader, Reader, Main] @ rounds n" "set (rounds n) \<subseteq> {Main, Reader}"
    by (auto simp: rounds_def)
  show ?case
  proof (cases "writer_stops (length data) s")
    case True
    define s4 where "s4 = other_turn Reader (other_turn Reader (other_turn Reader (other_turn Reader s)))"
    have "filling data rest s4" unfolding s4_def by (intro filling_reader Suc.prems(1))
    moreover have "writer_stops (length data) s4"
      using True Suc.prems(1) by (simp add: writer_stops_def s4_def filling_def)
    ultimately show ?thesis using rs by (auto simp: s4_def [symmetric])
  next
    case False
    obtain t where "\<And>us. writer_loop (length data) ([Reader, Reader, Reader, Reader, Main] @ us) s = writer_loop (length data) us t"
      "filling data rest t" "w_finished (stream s) < w_finished (stream t)"
      using filling_progress [OF Suc.prems(1) False] by blast
    moreover from this have "length data - w_finished (stream t) < n"
      using Suc.prems(2) by (auto simp: filling_def flow_ok_def bounded_def)
    ultimately show ?thesis using Suc.IH [of t] rs(1) by simp
  qed
qed simp

text \<open>The same after any turns without a failure.\<close>

lemma turns_then_rounds:
  assumes "filling data rest s" "set ts \<subseteq> {Main, Reader}" "length data < n"
  shows "\<exists>ws t. writer_loop (length data) (ts @ rounds n @ us) s = Some (True, ws @ us, t) \<and>
    set ws \<subseteq> {Main, Reader} \<and> filling data rest t \<and> writer_stops (length data) t"
  using assms
proof (induction ts arbitrary: s)
  case Nil
  then have "length data - w_finished (stream s) < n" by simp
  from rounds_fill [OF Nil(1) this] show ?case by simp
next
  case (Cons a ts)
  consider "a = Reader" | "a = Main" "writer_stops (length data) s" | "a = Main" "\<not> writer_stops (length data) s"
    using Cons.prems(2) by auto
  then show ?case
  proof cases
    case 1
    then show ?thesis using Cons filling_reader [OF Cons.prems(1)] by simp
  next
    case 2
    have "set (rounds n) \<subseteq> {Main, Reader}" by (auto simp: rounds_def)
    then show ?thesis
      using 2 Cons.prems by (intro exI [of _ "ts @ rounds n"] exI [of _ s]) auto
  next
    case 3
    obtain t where "writer_round (length data) s = (True, t)" "filling data rest t"
      using filling_round [OF Cons.prems(1) 3(2)] by blast
    then show ?thesis using 3 Cons by simp
  qed
qed

text \<open>The reader alone, once the main thread has finished.\<close>

definition closing :: "('h, 'z) sf_scheme \<Rightarrow> bool" where
  "closing s \<longleftrightarrow> \<not> pipe_broken s \<and> writer_finished (stream s) \<and> r_i (stream s) < length (buf (stream s)) \<and>
     length (buf (stream s)) = NR_BUFFER \<and> r_exit (stream s) \<in> {None, Some 0} \<and>
     (r_seen (stream s) \<longrightarrow> r_empty (stream s) < NR_BUFFER)"

definition pending :: "stream \<Rightarrow> nat" where
  "pending t = 2 * (NR_BUFFER - r_empty t) + (if r_seen t then 0 else 1) + length (filter (\<lambda>d. d \<noteq> []) (buf t))"

lemma pending_move:
  assumes "i < length b" "b ! i \<noteq> []"
  shows "length (filter (\<lambda>d. d \<noteq> []) (b[i := []])) < length (filter (\<lambda>d. d \<noteq> []) b)"
  using conserved_move [OF assms] by (metis lessI size_add_mset size_mset)

lemma closing_reader:
  assumes "closing s"
  shows "closing (other_turn Reader s)"
    "r_exit (stream s) = None \<Longrightarrow>
      r_exit (stream (other_turn Reader s)) \<noteq> None \<or> pending (stream (other_turn Reader s)) < pending (stream s)"
proof -
  have i: "(r_i (stream s) + 1) mod NR_BUFFER < NR_BUFFER" by (simp add: NR_BUFFER_def)
  show "closing (other_turn Reader s)"
    using assms i by (auto simp: closing_def other_turn_def reader_step_def)
  show "r_exit (stream (other_turn Reader s)) \<noteq> None \<or> pending (stream (other_turn Reader s)) < pending (stream s)"
    if "r_exit (stream s) = None"
    using assms that pending_move [of "r_i (stream s)" "buf (stream s)"]
    by (auto simp: closing_def other_turn_def reader_step_def pending_def)
qed

lemma closing_join:
  assumes "closing s" "pending (stream s) < n"
  shows "\<exists>ts t. join_reader (replicate n Reader) s = Some (ts, t) \<and> r_exit (stream t) = Some 0 \<and>
    \<not> pipe_broken t \<and> w_finished (stream t) = w_finished (stream s)"
  using assms
proof (induction n arbitrary: s)
  case (Suc n)
  show ?case
  proof (cases "r_exit (stream s) = None")
    case False
    then show ?thesis using Suc.prems(1) by (auto simp: closing_def)
  next
    case True
    note c = closing_reader [OF Suc.prems(1)]
    show ?thesis
    proof (cases "r_exit (stream (other_turn Reader s)) = None")
      case none: True
      then show ?thesis using True c(2) [OF True] Suc.IH [OF c(1)] Suc.prems(2) by simp
    next
      case False
      then have "join_reader (replicate n Reader) (other_turn Reader s) = Some (replicate n Reader, other_turn Reader s)"
        by (cases n) auto
      then show ?thesis using True False c(1) by (auto simp: closing_def)
    qed
  qed
qed simp

lemma turns_then_join:
  assumes "closing s" "set ws \<subseteq> {Main, Reader}"
  shows "\<exists>ts t. join_reader (ws @ replicate 8 Reader) s = Some (ts, t) \<and> r_exit (stream t) = Some 0 \<and>
    \<not> pipe_broken t \<and> w_finished (stream t) = w_finished (stream s)"
  using assms
proof (induction ws arbitrary: s)
  case Nil
  have "length (filter (\<lambda>d. d \<noteq> []) (buf (stream s))) \<le> 2"
    using Nil(1) length_filter_le [of "\<lambda>d. d \<noteq> []" "buf (stream s)"] by (simp add: closing_def NR_BUFFER_def)
  moreover have "2 * (2 - r_empty (stream s)) \<le> 4" by simp
  ultimately have "pending (stream s) < 8" unfolding pending_def NR_BUFFER_def by (cases "r_seen (stream s)") simp_all
  from closing_join [OF Nil(1) this] show ?case by simp
next
  case (Cons a ws)
  show ?case
  proof (cases "r_exit (stream s) = None")
    case False
    then show ?thesis using Cons.prems(1) by (auto simp: closing_def)
  next
    case True
    have "closing (other_turn a s)" using Cons.prems closing_reader(1) by (auto simp: other_turn_def [of Main])
    then show ?thesis using True Cons.IH [of "other_turn a s"] Cons.prems(2) by simp
  qed
qed

definition finishing :: "string \<Rightarrow> turn list" where
  "finishing data = rounds (Suc (length data)) @ replicate 8 Reader"

lemma stream_completes:
  assumes "stream s = stream_start (take SIZE data)" "usb_in s = map Some (chunks (drop SIZE data)) @ rest"
    "fastboot_state s \<noteq> STATE_ERROR" "\<not> pipe_broken s" "length data + SIZE < 2 ^ 32"
    "\<forall>n. ret (os_answers s n (Thread ''join'')) = 0" "set ts \<subseteq> {Main, Reader}" "turns s = ts @ finishing data"
  shows "\<exists>t. stream_threads (length data) s = Some (True, True, t) \<and> \<not> pipe_broken t"
proof -
  let ?len = "length data"
  have l: "length (take SIZE data) \<le> SIZE" "length (take SIZE data) \<le> ?len" "SIZE \<le> INT_MAX"
    by (simp_all add: SIZE_facts)
  have "flow_ok ?len (stream s)" using start_flow [of "take SIZE data" ?len] assms(1,5) l by simp
  moreover have "host_ok data rest SIZE s" by (rule start_host [OF assms(1-3) SIZE_facts(1)])
  ultimately have "filling data rest s" using assms(1,4,6) by (simp add: filling_def stream_start_def)
  from turns_then_rounds [OF this assms(7) lessI, of "replicate 8 Reader"]
  obtain ws s1 where w: "writer_loop ?len (turns s) s = Some (True, ws @ replicate 8 Reader, s1)"
    "set ws \<subseteq> {Main, Reader}" "filling data rest s1" "writer_stops ?len s1"
    by (auto simp: assms(8) finishing_def)
  have e: "w_finished (stream s1) = ?len" "\<not> pipe_broken s1" "ret (os_answers s1 (length (os_log s1)) (Thread ''join'')) = 0"
    using w(3,4) by (auto simp: filling_def writer_stops_def flow_ok_def bounded_def)
  have "closing (joining (ws @ replicate 8 Reader) s1)"
    using w(3) by (simp add: closing_def filling_def flow_ok_def bounded_def NR_BUFFER_def)
  from turns_then_join [OF this w(2)] obtain ts' t where
    "join_reader (ws @ replicate 8 Reader) (joining (ws @ replicate 8 Reader) s1) = Some (ts', t)"
    "r_exit (stream t) = Some 0" "w_finished (stream t) = ?len" and nb: "\<not> pipe_broken t"
    using e(1) by auto
  from stream_threads_success [OF w(1) e(2,3) this(1,3,2)] nb show ?thesis by force
qed

section \<open>Property\<close>



end
