(* ===== verification/Aboot.thy ===== *)
theory Aboot
  imports Stream_End
begin

text \<open>
  The commands of \<^verbatim>\<open>src/aboot.c\<close>: erasing and flashing partitions, the \<^verbatim>\<open>oem\<close> commands, rebooting, and
  the tables in which plugins register their callbacks. A callback is a parameter: the code of the
  plugin library is not part of the repository. The functions of the file that no command reaches
  (\<^verbatim>\<open>cmd_flash\<close>, \<^verbatim>\<open>cmd_flash_update\<close>, \<^verbatim>\<open>cmd_flash_system\<close>, \<^verbatim>\<open>cmd_continue\<close>) are left out.
\<close>

section \<open>State and registration\<close>

text \<open>The handlers of the server, those of \<^verbatim>\<open>src/fastboot.c\<close> included.\<close>

datatype handler =
    Cmd_getvar | Cmd_download | Cmd_oem | Cmd_boot | Cmd_reboot | Cmd_reboot_bl | Cmd_erase | Cmd_stream_flash

text \<open>
  The tables hold the names of the callbacks. \<open>mounts\<close> are the contents of \<^verbatim>\<open>/proc/mounts\<close> at the polls
  of \<^verbatim>\<open>remount_ro\<close>.
\<close>

type_synonym callback_table = "(string, string) hashmap"

record 'h ab = "'h sf" +
  flash_cmds :: callback_table
  oem_cmds :: callback_table
  mounts :: "nat \<Rightarrow> (string \<times> string) list option"

type_synonym ('h, 'z) flash_func = "string \<Rightarrow> string \<Rightarrow> nat \<Rightarrow> ('h, 'z) ab_scheme \<Rightarrow> int \<times> ('h, 'z) ab_scheme"
type_synonym ('h, 'z) oem_func = "string \<Rightarrow> string list \<Rightarrow> ('h, 'z) ab_scheme \<Rightarrow> int \<times> ('h, 'z) ab_scheme"

definition aboot_register_cmd :: "bool \<Rightarrow> bool \<Rightarrow> bool \<Rightarrow> callback_table \<Rightarrow> string \<Rightarrow> string \<Rightarrow> int \<times> callback_table" where
  "aboot_register_cmd strdup_ok malloc_ok calloc_ok m key callback =
     (if \<not> strdup_ok then (-1, m)
      else if hashmapGet m key \<noteq> None then (-1, m)
      else (0, fst (hashmapPut malloc_ok calloc_ok m key (Some callback))))"

definition aboot_register_flash_cmd ::
    "bool \<Rightarrow> bool \<Rightarrow> bool \<Rightarrow> string \<Rightarrow> string \<Rightarrow> ('h, 'z) ab_scheme \<Rightarrow> int \<times> ('h, 'z) ab_scheme" where
  "aboot_register_flash_cmd strdup_ok malloc_ok calloc_ok key callback s =
     (case aboot_register_cmd strdup_ok malloc_ok calloc_ok (flash_cmds s) key callback of
        (r, m) \<Rightarrow> (r, s\<lparr>flash_cmds := m\<rparr>))"

definition aboot_register_oem_cmd ::
    "bool \<Rightarrow> bool \<Rightarrow> bool \<Rightarrow> string \<Rightarrow> string \<Rightarrow> ('h, 'z) ab_scheme \<Rightarrow> int \<times> ('h, 'z) ab_scheme" where
  "aboot_register_oem_cmd strdup_ok malloc_ok calloc_ok key callback s =
     (case aboot_register_cmd strdup_ok malloc_ok calloc_ok (oem_cmds s) key callback of
        (r, m) \<Rightarrow> (r, s\<lparr>oem_cmds := m\<rparr>))"

text \<open>\<open>None\<close> is \<^verbatim>\<open>die ()\<close>. The flags say whether the allocations of the two maps succeed.\<close>

definition aboot_register_commands ::
    "bool \<Rightarrow> bool \<Rightarrow> (handler, 'z) ab_scheme \<Rightarrow> (handler, 'z) ab_scheme option" where
  "aboot_register_commands flash_ok oem_ok s =
     (let s1 = fastboot_register True ''flash:'' Cmd_stream_flash
                (fastboot_register True ''erase:'' Cmd_erase
                 (fastboot_register True ''reboot-bootloader'' Cmd_reboot_bl
                  (fastboot_register True ''reboot'' Cmd_reboot
                   (fastboot_register True ''boot'' Cmd_boot
                    (fastboot_register True ''oem'' Cmd_oem s)))))
      in case (hashmapCreate flash_ok flash_ok 8 strhash strcompare, hashmapCreate oem_ok oem_ok 8 strhash strcompare) of
           (Some (Some f), Some (Some m)) \<Rightarrow> Some (s1\<lparr>flash_cmds := f, oem_cmds := m\<rparr>)
         | _ \<Rightarrow> None)"

section \<open>Lists\<close>

definition list_callback :: "string \<Rightarrow> string option \<Rightarrow> ('h, 'z) ab_scheme \<Rightarrow> bool \<times> ('h, 'z) ab_scheme" where
  "list_callback key value s =
     (case syscall (Alloc key) s of
        (a, s1) \<Rightarrow>
          (True, if ret a < 0 then s1\<lparr>ub := True\<rparr> else fastboot_info [newline] (fastboot_info key s1)))"

text \<open>The format \<^verbatim>\<open>%-12s%u\n\<close>.\<close>

definition part_line :: "part_info \<Rightarrow> string" where
  "part_line p = name p @ replicate (12 - length (name p)) (CHR '' '') @ show_nat (unat (len_kb p) div 1024) @ [newline]"

definition list_part :: "part_info \<Rightarrow> ('h, 'z) ab_scheme \<Rightarrow> ('h, 'z) ab_scheme" where
  "list_part p s =
     (case syscall (Alloc (part_line p)) s of
        (a, s1) \<Rightarrow> if ret a = -1 then s1 else fastboot_info (part_line p) s1)"

definition list_partitions :: "bool \<Rightarrow> bool \<Rightarrow> ('h, 'z) ab_scheme \<Rightarrow> ('h, 'z) ab_scheme" where
  "list_partitions os part s =
     (if \<not> os \<and> \<not> part then s
      else
        let s1 = (if os
                  then hashmapForEach (flash_cmds s) list_callback
                         (fastboot_info (''FW and raw OS can be flashed:'' @ [newline]) s)
                  else s);
            s2 = (if part
                  then fold list_part (case part_lst (g_disk_info s1) of None \<Rightarrow> [] | Some ps \<Rightarrow> ps)
                         (fastboot_info (''--------------------'' @ [newline])
                           (fastboot_info (''Name        Size(MB)'' @ [newline])
                             (fastboot_info (newline # ''Partitions can be flashed/erased:'' @ [newline]) s1)))
                  else s1)
        in fastboot_okay [] (fastboot_info [newline] s2))"

definition cmd_erase :: "string \<Rightarrow> ('h, 'z) ab_scheme \<Rightarrow> ('h, 'z) ab_scheme option" where
  "cmd_erase part_name s =
     (if part_name = [] then Some (list_partitions False True s)
      else case find_part (g_disk_info s) part_name of
             None \<Rightarrow>
               Some (fastboot_fail ''unknown partition name.''
                 (tboot_ui_error (''unknown partition: '' @ part_name @ ''.'') s))
           | Some ptn \<Rightarrow>
               (case erase_partition ptn (tboot_ui_bouncebar (''Erasing '' @ part_name @ ''...'') s) of
                  None \<Rightarrow> None
                | Some (r, s1) \<Rightarrow>
                    Some (if r \<noteq> 0
                          then fastboot_fail ''Can't erase partition'' (tboot_ui_error (''Erase '' @ part_name @ '' failed.'') s1)
                          else fastboot_okay [] (tboot_ui_info (''Erase '' @ part_name @ '' finished.'') s1))))"

section \<open>Flashing\<close>

text \<open>
  The end of \<^verbatim>\<open>cmd_stream_flash\<close>. It frees the buffers and, unless the reader was joined, cancels the
  thread \<^verbatim>\<open>t_reader\<close>. Without a started reader that variable has no value; with a reader that still runs,
  the buffers it uses are freed under it. Both are undefined behaviour.
\<close>

definition flash_out :: "bool \<Rightarrow> bool \<Rightarrow> ('h, 'z) ab_scheme \<Rightarrow> ('h, 'z) ab_scheme" where
  "flash_out started reaped s =
     (if reaped \<or> started \<and> r_exit (stream s) \<noteq> None then s else s\<lparr>ub := True\<rparr>)"

definition flash_error :: "bool \<Rightarrow> bool \<Rightarrow> string \<Rightarrow> ('h, 'z) ab_scheme \<Rightarrow> ('h, 'z) ab_scheme" where
  "flash_error started reaped part_name s =
     flash_out started reaped (tboot_ui_error (''Flash '' @ part_name @ '' failed.'') s)"

definition flash_finish :: "bool \<Rightarrow> bool \<Rightarrow> string \<Rightarrow> ('h, 'z) ab_scheme \<Rightarrow> ('h, 'z) ab_scheme" where
  "flash_finish started reaped part_name s =
     flash_out started reaped (fastboot_okay [] (tboot_ui_info (''Flash '' @ part_name @ '' finished.'') s))"

text \<open>
  The program that the pipe runs, chosen by the first four bytes of the buffer. The flag says whether
  the warning about the format is shown.
\<close>

definition byte_at :: "string \<Rightarrow> nat \<Rightarrow> char" where
  "byte_at xs i = (if i < length xs then xs ! i else NUL)"

definition pipe_command :: "string \<Rightarrow> string \<Rightarrow> bool \<times> string" where
  "pipe_command magic dev =
     (let dd = ''/bin/dd of='' @ dev @ '' bs=8192''
      in if byte_at magic 0 = CHR 0x1F \<and> byte_at magic 1 = CHR 0x8B then (False, ''/bin/gzip -c -d | '' @ dd)
         else if byte_at magic 0 = CHR ''B'' \<and> byte_at magic 1 = CHR ''Z'' \<and>
                 (byte_at magic 2 = CHR ''h'' \<or> byte_at magic 2 = CHR ''0'') \<and>
                 49 \<le> (of_char (byte_at magic 3) :: nat) \<and> (of_char (byte_at magic 3) :: nat) \<le> 57
         then (False, ''/bin/bzip2 -c -d | '' @ dd)
         else (True, dd))"

text \<open>
  What follows the join. \<open>reread_table\<close> reads a new partition table; its flag says that the device could
  not be opened. \<open>probe_ext\<close> looks for an ext superblock. \<open>flash_checks\<close> returns the error, if any.
\<close>

definition reread_table :: "string \<Rightarrow> ('h, 'z) ab_scheme \<Rightarrow> bool \<times> ('h, 'z) ab_scheme" where
  "reread_table dev s =
     (if dev = device (g_disk_info s)
      then (case syscall (Open dev) s of
              (a, s1) \<Rightarrow> if ret a < 0 then (True, s1) else (False, call Close (call (Ioctl ''BLKRRPART'') s1)))
      else (False, s))"

definition probe_ext :: "part_info option \<Rightarrow> ('h, 'z) ab_scheme \<Rightarrow> int \<times> bool option \<times> ('h, 'z) ab_scheme" where
  "probe_ext ptn s =
     (case ptn of
        Some p \<Rightarrow> if p_type p = PC_PART_TYPE_LINUX then check_ext_superblock p s else (0, None, s)
      | None \<Rightarrow> (0, None, s))"

definition flash_checks :: "string \<Rightarrow> part_info option \<Rightarrow> ('h, 'z) ab_scheme \<Rightarrow> string option \<times> ('h, 'z) ab_scheme" where
  "flash_checks dev ptn s =
     (case reread_table dev (call Sync (tboot_ui_bouncebar ''Syncing...'' s)) of
        (bad, s1) \<Rightarrow>
          if bad then (Some ''could not open device node'', s1)
          else
            case probe_ext ptn s1 of
              (r, present, s2) \<Rightarrow>
                if r \<noteq> 0 then (Some ''couldn't check superblock'', s2)
                else if present = Some True then
                  (case ext4_filesystem_checks dev (tboot_ui_bouncebar ''File system checking...'' s2) of
                     (r, s3) \<Rightarrow> if r \<noteq> 0 then (Some ''ext4 filesystem error'', s3) else (None, s3))
                else (None, s2))"

text \<open>From the first chunk in \<open>d\<close> on: the pipe, the threads and the checks.\<close>

definition flash_pipe :: "string \<Rightarrow> string \<Rightarrow> part_info option \<Rightarrow> nat \<Rightarrow> string \<Rightarrow> string \<Rightarrow> ('h, 'z) ab_scheme
    \<Rightarrow> ('h, 'z) ab_scheme option" where
  "flash_pipe part_name dev ptn len memory d s =
     (let (warn, cmd_line) = pipe_command (d @ drop (length d) memory) dev;
          s1 = (if warn then tboot_ui_warn ''Input isn't in gzip or bzip2 format.'' s else s)
      in case syscall (Alloc cmd_line) s1 of
           (a, s2) \<Rightarrow>
             if ret a < 0 then Some (flash_error False False part_name (fastboot_fail ''asprintf'' s2))
             else case syscall (Popen cmd_line) s2 of
                    (b, s3) \<Rightarrow>
                      if ret b < 0 then Some (flash_error False False part_name (fastboot_fail ''open for write.'' s3))
                      else case syscall (Thread ''create'') (s3\<lparr>pipe_broken := False, stream := stream_start d\<rparr>) of
                             (c, s4) \<Rightarrow>
                               if ret c \<noteq> 0
                               then Some (flash_error False False part_name (fastboot_fail ''create reader thread failed.'' s4))
                               else case stream_threads len s4 of
                                      None \<Rightarrow> None
                                    | Some (ok, reaped, s5) \<Rightarrow>
                                        Some (if \<not> ok then flash_error True reaped part_name s5
                                              else case flash_checks dev ptn s5 of
                                                     (Some e, s6) \<Rightarrow> flash_error True True part_name (fastboot_fail e s6)
                                                   | (None, s6) \<Rightarrow> flash_finish True True part_name s6))"

text \<open>From the answer to the host on. When only the first buffer is there it is freed twice.\<close>

definition flash_stream :: "string \<Rightarrow> string \<Rightarrow> part_info option \<Rightarrow> nat \<Rightarrow> ('h, 'z) ab_scheme \<Rightarrow> ('h, 'z) ab_scheme option" where
  "flash_stream part_name dev ptn len s =
     (case streaming_download len True s of
        (r, _, s1) \<Rightarrow>
          if r \<noteq> 0 then Some (flash_error False False part_name (fastboot_fail ''protocol handshake failed.'' s1))
          else
            case buffer_init (int SIZE) s1 of
              (None, s2) \<Rightarrow> Some (flash_error False False part_name (fastboot_fail ''out of memory'' s2))
            | (Some memory, s2) \<Rightarrow>
                (case buffer_init (int SIZE) s2 of
                   (None, s3) \<Rightarrow> Some (flash_error False False part_name (fastboot_fail ''out of memory'' (s3\<lparr>ub := True\<rparr>)))
                 | (Some _, s3) \<Rightarrow>
                     (case streaming_download (if len > SIZE then SIZE else len) False s3 of
                        (r, d, s4) \<Rightarrow>
                          if r \<noteq> 0 then Some (flash_error False False part_name (fastboot_fail ''download failed.'' s4))
                          else flash_pipe part_name dev ptn len memory d s4)))"

text \<open>The branch for a target with a callback, and the one for a partition.\<close>

definition flash_plugin :: "('h, 'z) flash_func \<Rightarrow> string \<Rightarrow> string \<Rightarrow> nat \<Rightarrow> ('h, 'z) ab_scheme \<Rightarrow> ('h, 'z) ab_scheme" where
  "flash_plugin flash_cb cb part_name len s =
     (case download_to len s of
        (r, s1) \<Rightarrow>
          if r \<noteq> 0 then flash_error False False part_name (fastboot_fail ''download failed.'' s1)
          else
            case flash_cb cb (take len (download_base s1)) len (tboot_ui_bouncebar (''Flashing '' @ part_name @ ''...'') s1) of
              (cbret, s2) \<Rightarrow>
                if cbret \<noteq> 0 then flash_error False False part_name (fastboot_fail ''flash failed.'' s2)
                else flash_finish False False part_name s2)"

definition flash_partition :: "string \<Rightarrow> nat \<Rightarrow> ('h, 'z) ab_scheme \<Rightarrow> ('h, 'z) ab_scheme option" where
  "flash_partition part_name len s =
     (case part_device part_name s of
        (None, s1) \<Rightarrow> Some (flash_error False False part_name (fastboot_fail ''unknown partition specified'' s1))
      | (Some dev, s1) \<Rightarrow>
          (case volume_for_device (device_volumes s1) dev of
             None \<Rightarrow> Some (flash_error False False part_name (fastboot_fail ''invalid fstab or disk layout config'' s1))
           | Some vol \<Rightarrow>
               if fs_type vol \<noteq> ''ext4''
               then Some (flash_error False False part_name (fastboot_fail ''unsupport filesystem type'' s1))
               else flash_stream part_name dev (find_part (g_disk_info s1) part_name) len s1))"

definition cmd_stream_flash :: "('h, 'z) flash_func \<Rightarrow> string \<Rightarrow> ('h, 'z) ab_scheme \<Rightarrow> ('h, 'z) ab_scheme option" where
  "cmd_stream_flash flash_cb cmd s =
     (case syscall (Alloc cmd) s of
        (a, s1) \<Rightarrow>
          if ret a < 0 then Some (flash_error False False ''(null)'' (fastboot_fail ''strdup failed.'' s1))
          else
            case strchr cmd (CHR '':'') of
              None \<Rightarrow> Some (flash_error False False cmd (fastboot_fail ''invalid cmd.'' s1))
            | Some pc \<Rightarrow>
                let len = strtoul 32 16 (tl pc); part_name = take (length cmd - length pc) cmd
                in if part_name = [] then Some (list_partitions True True s1)
                   else if part_name = ''disk'' then flash_stream part_name (device (g_disk_info s1)) None len s1
                   else case hashmapGet (flash_cmds s1) part_name of
                          Some cb \<Rightarrow> Some (flash_plugin flash_cb cb part_name len s1)
                        | None \<Rightarrow> flash_partition part_name len s1)"

section \<open>OEM commands\<close>

definition MAX_OEM_ARGS :: nat where "MAX_OEM_ARGS = 64"
definition PATH_MAX :: nat where "PATH_MAX = 4096"

definition CMD_PUSH_USAGE :: string where
  "CMD_PUSH_USAGE = ''Usage:'' @ newline # ''    oem push <local-file>    push <local-file> to target'' @ [newline]"

text \<open>The calls of \<^verbatim>\<open>strtok_r\<close> that fill \<^verbatim>\<open>argv\<close>.\<close>

fun oem_args :: "nat \<Rightarrow> string \<Rightarrow> string list" where
  "oem_args 0 str1 = []"
| "oem_args (Suc n) str1 =
     (case strtok [CHR '' '', CHR 0x09] str1 of None \<Rightarrow> [] | Some (tok, rest) \<Rightarrow> tok # oem_args n rest)"

text \<open>\<^verbatim>\<open>basename\<close> of the C library.\<close>

definition basename :: "string \<Rightarrow> string" where
  "basename path =
     (let stripped = rev (dropWhile (\<lambda>c. c = CHR ''/'') (rev path))
      in if path = [] then ''.''
         else if stripped = [] then ''/''
         else rev (takeWhile (\<lambda>c. c \<noteq> CHR ''/'') (rev stripped)))"

text \<open>
  The free space of the file system, less a megabyte, in 32 bits. The answer to \<^verbatim>\<open>statfs\<close> gives
  \<^verbatim>\<open>f_bsize\<close> as result and \<^verbatim>\<open>f_bfree\<close> in \<open>err\<close>.
\<close>

definition push_space :: "os_answer \<Rightarrow> nat" where
  "push_space a = nat ((ret a * err a - 2 ^ 20) mod 2 ^ 32)"

definition push_file :: "string \<Rightarrow> string \<Rightarrow> ('h, 'z) ab_scheme \<Rightarrow> ('h, 'z) ab_scheme" where
  "push_file push_dir path s =
     (let sz = download_size s; data = take sz (download_base s)
      in if push_dir = [] then s\<lparr>ub := True\<rparr>
         else
           let dir = (if last push_dir = CHR ''/'' then butlast push_dir else push_dir);
               tmpfile = take (PATH_MAX - 1) (dir @ ''/'' @ basename path);
               failed = tboot_ui_error (''Push '' @ path @ '' failed.'')
           in case syscall (Open tmpfile) s of
                (a, s1) \<Rightarrow>
                  if ret a < 0 then failed (fastboot_fail ''create file failed.'' s1)
                  else case syscall (Fwrite data) s1 of
                         (b, s2) \<Rightarrow>
                           let s3 = s2\<lparr>files := (files s2)(tmpfile := take (nat (ret b)) data)\<rparr>
                           in if ret b \<noteq> int sz then failed (call Close (fastboot_fail ''oem push, fwrite'' s3))
                              else call Close (tboot_ui_info (''Saved file to '' @ tmpfile @ ''.'') (fastboot_okay tmpfile s3)))"

definition oem_push :: "string list \<Rightarrow> ('h, 'z) ab_scheme \<Rightarrow> ('h, 'z) ab_scheme" where
  "oem_push argv s =
     (if length argv \<noteq> 2 \<or> argv ! 1 = ''-h'' \<or> argv ! 1 = ''--help''
      then fastboot_okay [] (fastboot_info CMD_PUSH_USAGE s)
      else
        case tboot_config_get (tboot_config s) ''push_dir'' of
          None \<Rightarrow> s\<lparr>ub := True\<rparr>
        | Some dir \<Rightarrow>
            if length dir \<ge> PATH_MAX then s\<lparr>ub := True\<rparr>
            else
              case syscall (Statfs dir) s of
                (a, s1) \<Rightarrow>
                  if ret a = -1 then push_file dir (argv ! 1) (tboot_ui_warn ''Get filesystem status failed.'' s1)
                  else if download_size s1 > push_space a
                  then tboot_ui_error (''Push '' @ argv ! 1 @ '' failed.'') (fastboot_fail ''file size is too large.'' s1)
                  else push_file dir (argv ! 1) s1)"

text \<open>A line of tabs only has no first word: the code hashes a null pointer.\<close>

definition cmd_oem :: "('h, 'z) oem_func \<Rightarrow> string \<Rightarrow> ('h, 'z) ab_scheme \<Rightarrow> ('h, 'z) ab_scheme" where
  "cmd_oem oem_cb arg s =
     (let line = dropWhile (\<lambda>c. c = CHR '' '') arg
      in if line = []
         then fastboot_okay [] (fastboot_info [newline]
                (hashmapForEach (oem_cmds s) list_callback
                  (fastboot_info (''All available oem commands, call them with '' @ [CHR 0x27] @ ''-h|--help'' @ [CHR 0x27]
                     @ '' to get help.'' @ [newline]) s)))
         else
           case syscall (Alloc line) s of
             (a, s1) \<Rightarrow>
               if ret a < 0 then fastboot_fail ''memory allocation error'' s1
               else
                 let argv = oem_args MAX_OEM_ARGS line
                 in if argv = [] then s1\<lparr>ub := True\<rparr>
                    else case hashmapGet (oem_cmds s1) (argv ! 0) of
                           Some cb \<Rightarrow>
                             (case oem_cb cb argv s1 of
                                (r, s2) \<Rightarrow> if r \<noteq> 0 then fastboot_fail (argv ! 0) s2 else fastboot_okay [] s2)
                         | None \<Rightarrow>
                             if argv ! 0 = ''push'' then oem_push argv s1
                             else fastboot_fail ''unknown OEM command'' s1)"

section \<open>Rebooting\<close>

definition cmd_boot :: "string \<Rightarrow> ('h, 'z) ab_scheme \<Rightarrow> ('h, 'z) ab_scheme" where
  "cmd_boot arg s = fastboot_fail ''boot command stubbed on this platform!'' s"

text \<open>A reboot that succeeds does not come back.\<close>

definition cmd_reboot :: "string \<Rightarrow> ('h, 'z) ab_scheme \<Rightarrow> ('h, 'z) ab_scheme option" where
  "cmd_reboot arg s =
     (case preos_reboot (mounts s) PREOS_RB_RESTART2 False False ''android''
             (tboot_ui_bouncebar ''Rebooting...'' (call Sync (fastboot_okay [] s))) of
        (r, s1) \<Rightarrow> if r = 0 then None else Some (tboot_ui_error ''Reboot failed.'' s1))"

definition cmd_reboot_bl :: "string \<Rightarrow> ('h, 'z) ab_scheme \<Rightarrow> ('h, 'z) ab_scheme option" where
  "cmd_reboot_bl arg s =
     (case preos_reboot (mounts s) PREOS_RB_RESTART2 False False ''bootloader''
             (tboot_ui_bouncebar ''Restarting tboot...'' (call Sync (fastboot_okay [] s))) of
        (r, s1) \<Rightarrow> if r = 0 then None else Some (tboot_ui_error ''Restarting tboot failed.'' s1))"

text \<open>The call of a handler through the pointer that was registered.\<close>

definition aboot_run :: "('h, 'z) flash_func \<Rightarrow> ('h, 'z) oem_func \<Rightarrow> handler \<Rightarrow> string \<Rightarrow> ('h, 'z) ab_scheme
    \<Rightarrow> ('h, 'z) ab_scheme option" where
  "aboot_run flash_cb oem_cb h arg s =
     (case h of
        Cmd_getvar \<Rightarrow> Some (cmd_getvar arg s)
      | Cmd_download \<Rightarrow> Some (cmd_download arg s)
      | Cmd_oem \<Rightarrow> Some (cmd_oem oem_cb arg s)
      | Cmd_boot \<Rightarrow> Some (cmd_boot arg s)
      | Cmd_reboot \<Rightarrow> cmd_reboot arg s
      | Cmd_reboot_bl \<Rightarrow> cmd_reboot_bl arg s
      | Cmd_erase \<Rightarrow> cmd_erase arg s
      | Cmd_stream_flash \<Rightarrow> cmd_stream_flash flash_cb arg s)"

section \<open>What the server relies on\<close>

text \<open>Steps that leave the transport, the download buffer and the state of the server alone.\<close>

definition quiet :: "('h, 'z) fb_scheme \<Rightarrow> ('h, 'z) fb_scheme \<Rightarrow> bool" where
  "quiet s t \<longleftrightarrow> usb_in t = usb_in s \<and> download_base t = download_base s \<and> download_max t = download_max s \<and>
     download_size t = download_size s \<and> fastboot_state t = fastboot_state s"

lemma quiet_keeps: "quiet s t \<Longrightarrow> keeps s t"
  by (simp add: quiet_def keeps_def buffer_ok_def in_command_def)

lemma quiet_trans: "quiet s t \<Longrightarrow> quiet t u \<Longrightarrow> quiet s u"
  by (simp add: quiet_def)

lemma keeps_updates [keeps_intros]:
  "keeps s u \<Longrightarrow> keeps s (u\<lparr>ub := b\<rparr>)" "keeps s u \<Longrightarrow> keeps s (call c u)"
  "keeps s u \<Longrightarrow> keeps s (u\<lparr>pipe_broken := b\<rparr>)" "keeps s u \<Longrightarrow> keeps s (u\<lparr>stream := x\<rparr>)"
  "keeps s u \<Longrightarrow> keeps s (u\<lparr>turns := ts\<rparr>)" "keeps s u \<Longrightarrow> keeps s (u\<lparr>files := f\<rparr>)"
  by (erule keeps_trans, rule quiet_keeps, simp add: quiet_def call_def syscall_def)+

lemma syscall_keeps: "syscall c s = (a, t) \<Longrightarrow> keeps s t"
  by (rule quiet_keeps) (auto simp: quiet_def syscall_def)

lemma util_quiet:
  "part_device nm s = (d, t) \<Longrightarrow> quiet s t"
  "execute_command cmd s = (r, t) \<Longrightarrow> quiet s t"
  "is_valid_blkdev nm s = (ok, t) \<Longrightarrow> quiet s t"
  by (auto simp: quiet_def part_device_def execute_command_def is_valid_blkdev_def syscall_def split: if_splits)

lemma check_ext_superblock_quiet: "check_ext_superblock p s = (r, present, t) \<Longrightarrow> quiet s t"
  by (auto simp: check_ext_superblock_def call_def quiet_def part_device_def syscall_def Let_def split: option.splits if_splits)

lemma ext4_checks_quiet: "ext4_filesystem_checks dev s = (r, t) \<Longrightarrow> quiet s t"
  by (auto simp: ext4_filesystem_checks_def split: prod.splits if_splits dest!: util_quiet(2) elim!: quiet_trans)

lemma erase_quiet: "erase_partition p s = Some (r, t) \<Longrightarrow> quiet s t"
  by (auto simp: erase_partition_def quiet_def part_device_def is_valid_blkdev_def syscall_def
      split: option.splits if_splits prod.splits)

lemma remount_poll_quiet: "quiet s (remount_poll m n left s)"
proof (induction left arbitrary: n s)
  case (Suc left)
  have "quiet s (call (Usleep 100000) s)" by (simp add: quiet_def call_def syscall_def)
  with Suc [of "call (Usleep 100000) s" "Suc n"] show ?case by (auto simp: quiet_def)
qed (simp add: quiet_def)

lemma preos_reboot_quiet: "preos_reboot m cmd a b arg s = (r, t) \<Longrightarrow> quiet s t"
proof -
  have r: "quiet s (remount_ro m s)" for s :: "('a, 'b) dev_scheme"
  proof -
    have "quiet s (call Close (call (Write ''u'') (snd (syscall (Open ''/proc/sysrq-trigger'') s))))"
      by (simp add: quiet_def call_def syscall_def)
    from quiet_trans [OF this remount_poll_quiet] show ?thesis
      by (auto simp: remount_ro_def quiet_def syscall_def)
  qed
  have "quiet s (if a then s else call Sync s)" by (simp add: quiet_def call_def syscall_def)
  moreover have "quiet u (if b then u else remount_ro m u)" for u :: "('a, 'b) dev_scheme"
    using r by (simp add: quiet_def)
  ultimately have q: "quiet s (if b then (if a then s else call Sync s) else remount_ro m (if a then s else call Sync s))"
    using quiet_trans by (metis (full_types))
  assume "preos_reboot m cmd a b arg s = (r, t)"
  with q show "quiet s t"
    by (auto simp: preos_reboot_def Let_def syscall_def quiet_def split: rb_cmd.splits if_splits)
qed

section \<open>The threads keep the contract\<close>

lemma other_turn_keeps: "keeps s (other_turn a s)"
  by (rule quiet_keeps) (simp add: quiet_def other_turn_def split: turn.split)

lemma writer_round_keeps: "writer_round len s = (ok, t) \<Longrightarrow> keeps s t"
proof -
  assume w: "writer_round len s = (ok, t)"
  obtain r d s1 where sd: "streaming_download (next_size len (stream s)) False s = (r, d, s1)"
    by (cases "streaming_download (next_size len (stream s)) False s") auto
  note k = streaming_download_keeps [OF sd]
  have p: "keeps u (flash_progress n u)" for n and u :: "('a, 'b) sf_scheme"
    by (auto simp: flash_progress_def intro: keeps_intros)
  show "keeps s t"
    using w sd k
    by (auto simp: writer_round_def Let_def split: if_splits intro!: keeps_intros keeps_trans [OF _ p])
qed

lemma writer_loop_keeps: "writer_loop len ts s = Some (ok, ts', t) \<Longrightarrow> keeps s t"
proof (induction len ts s rule: writer_loop.induct)
  case (2 len a ts s)
  obtain ok2 s2 where w: "writer_round len s = (ok2, s2)" by (cases "writer_round len s")
  show ?case
    using 2 w writer_round_keeps [OF w] other_turn_keeps [of s a]
    by (auto split: if_splits intro: keeps_trans)
qed simp

lemma join_reader_keeps: "join_reader ts s = Some (ts', t) \<Longrightarrow> keeps s t"
proof (induction ts arbitrary: s)
  case (Cons a ts)
  then show ?case using other_turn_keeps [of s a] by (auto split: if_splits intro: keeps_trans)
qed (auto split: if_splits)

lemma drain_loop_keeps:
  fixes s t :: "('h, 'z) sf_scheme"
  assumes "drain_loop len s = Some t"
  shows "keeps s t"
proof (rule drain_loop.raw_induct [OF _ assms])
  fix drain :: "nat \<Rightarrow> ('h, 'z) sf_scheme \<Rightarrow> ('h, 'z) sf_scheme option" and len and s t :: "('h, 'z) sf_scheme"
  assume ih: "\<And>len s t. drain len s = Some t \<Longrightarrow> keeps s t"
  assume step: "(if w_finished (stream s) < len
      then let sz = next_size len (stream s)
        in case streaming_download sz False s of
             (r, d, s1) \<Rightarrow>
               if r \<noteq> 0 then Some (s1\<lparr>stream := (stream s)\<lparr>w_size := sz\<rparr>\<rparr>)
               else drain len (s1\<lparr>stream := (stream s)\<lparr>w_size := sz, w_finished := (w_finished (stream s) + sz) mod 2 ^ 32\<rparr>\<rparr>)
      else Some s) = Some t"
  obtain r d s1 where sd: "streaming_download (next_size len (stream s)) False s = (r, d, s1)"
    by (cases "streaming_download (next_size len (stream s)) False s") auto
  have k: "keeps s (s1\<lparr>stream := x\<rparr>)" for x using streaming_download_keeps [OF sd] by (rule keeps_updates(4))
  show "keeps s t"
    using step sd k by (auto simp: Let_def split: if_splits dest!: ih intro: keeps_trans [OF k])
qed

lemma stream_threads_keeps:
  assumes "stream_threads len s = Some (ok, reaped, t)"
  shows "keeps s t"
proof -
  obtain left ts s1 where w: "writer_loop len (turns s) s = Some (left, ts, s1)"
    using assms by (cases "writer_loop len (turns s) s") (auto simp: stream_threads_def)
  note k1 = writer_loop_keeps [OF w]
  define s2 where "s2 = s1\<lparr>turns := ts\<rparr>"
  have k2: "keeps s s2" unfolding s2_def by (rule keeps_updates(5) [OF k1])
  have k3: "keeps s (joining ts s1)"
    unfolding joining_def using k1 by (intro keeps_trans [OF _ syscall_keeps [OF prod.collapse [symmetric]]] keeps_updates)
  consider "t = s2" | u where "drain_loop len s2 = Some u" "t = fastboot_fail ''broken pipe, image too large?'' u"
    | "t = fastboot_fail ''join reader thread failed'' (joining ts s1)"
    | ts' u where "join_reader ts (joining ts s1) = Some (ts', u)"
        "t = u\<lparr>turns := ts'\<rparr> \<or> t = fastboot_fail ''write to device failed.'' (u\<lparr>turns := ts'\<rparr>)"
    using assms w
    by (auto simp: stream_threads_def Let_def s2_def joining_def case_prod_beta syscall_def split: if_splits option.splits)
  then show ?thesis
  proof cases
    case 1
    then show ?thesis using k2 by simp
  next
    case 2
    then show ?thesis using keeps_trans [OF k2 drain_loop_keeps] by (auto intro: keeps_intros)
  next
    case 3
    then show ?thesis using k3 by (auto intro: keeps_intros)
  next
    case 4
    then show ?thesis using keeps_trans [OF k3 join_reader_keeps [OF 4(1)]] by (auto intro!: keeps_intros)
  qed
qed

section \<open>The handlers keep the contract\<close>

lemma for_each_keeps:
  "(\<And>k v u. keeps u (snd (f k v u))) \<Longrightarrow> keeps s (for_each_entry f es s)"
proof (induction es arbitrary: s)
  case (Cons e es)
  have "keeps s (snd (f (ent_key e) (ent_value e) s))" by (rule Cons.prems)
  from keeps_trans [OF this Cons.IH [OF Cons.prems]] this show ?case by (simp add: case_prod_beta)
qed simp

lemma list_callback_keeps: "keeps s (snd (list_callback k v s))"
  by (auto simp: list_callback_def split: prod.split dest!: syscall_keeps intro!: keeps_intros)

lemma listing_keeps [keeps_intros]: "keeps s u \<Longrightarrow> keeps s (hashmapForEach m list_callback u)"
  unfolding hashmapForEach_def by (erule keeps_trans) (rule for_each_keeps, rule list_callback_keeps)

lemma list_part_keeps: "keeps s (list_part p s)"
  by (auto simp: list_part_def split: prod.split dest!: syscall_keeps intro!: keeps_intros)

lemma list_partitions_keeps [keeps_intros]: "keeps s (list_partitions os part s)"
proof -
  have f: "keeps s u \<Longrightarrow> keeps s (fold list_part ps u)" for s u :: "('a, 'b) ab_scheme" and ps
    by (erule keeps_trans) (rule keeps_fold, rule list_part_keeps)
  show ?thesis
    by (auto simp: list_partitions_def Let_def intro!: keeps_intros f split: option.split)
qed

lemma cmd_erase_keeps: "cmd_erase arg s = Some t \<Longrightarrow> keeps s t"
  by (auto simp: cmd_erase_def split: if_splits option.splits dest!: erase_quiet quiet_keeps
      intro!: keeps_intros elim: keeps_trans [rotated])

lemma flash_end_keeps [keeps_intros]:
  "keeps s u \<Longrightarrow> keeps s (flash_error a b nm u)" "keeps s u \<Longrightarrow> keeps s (flash_finish a b nm u)"
  by (auto simp: flash_error_def flash_finish_def flash_out_def intro!: keeps_intros)

lemma reread_table_keeps: "reread_table dev s = (bad, t) \<Longrightarrow> keeps s t"
  by (auto simp: reread_table_def split: prod.splits if_splits dest!: syscall_keeps intro!: keeps_intros)

lemma probe_ext_keeps: "probe_ext ptn s = (r, present, t) \<Longrightarrow> keeps s t"
  by (auto simp: probe_ext_def split: option.splits if_splits dest!: check_ext_superblock_quiet quiet_keeps)

lemma flash_checks_keeps:
  assumes "flash_checks dev ptn s = (e, t)"
  shows "keeps s t"
proof -
  define u where "u = call Sync (tboot_ui_bouncebar ''Syncing...'' s)"
  obtain bad s1 where a: "reread_table dev u = (bad, s1)" by (cases "reread_table dev u")
  obtain r present s2 where b: "probe_ext ptn s1 = (r, present, s2)" by (cases "probe_ext ptn s1")
  define v where "v = tboot_ui_bouncebar ''File system checking...'' s2"
  obtain r3 s3 where c: "ext4_filesystem_checks dev v = (r3, s3)" by (cases "ext4_filesystem_checks dev v")
  have "keeps s u" unfolding u_def by (intro keeps_intros)
  note k1 = keeps_trans [OF this reread_table_keeps [OF a]]
  note k2 = keeps_trans [OF k1 probe_ext_keeps [OF b]]
  have "keeps s v" unfolding v_def by (intro keeps_intros k2)
  note k3 = keeps_trans [OF this quiet_keeps [OF ext4_checks_quiet [OF c]]]
  have "t \<in> {s1, s2, s3}"
    using assms a b c unfolding flash_checks_def u_def [symmetric] by (auto simp: v_def [symmetric] split: if_splits)
  then show ?thesis using k1 k2 k3 by auto
qed

lemma flash_pipe_keeps:
  assumes "flash_pipe nm dev ptn len memory d s = Some t"
  shows "keeps s t"
proof -
  obtain warn cmd_line where pc: "pipe_command (d @ drop (length d) memory) dev = (warn, cmd_line)"
    by (cases "pipe_command (d @ drop (length d) memory) dev")
  define s1 where "s1 = (if warn then tboot_ui_warn ''Input isn't in gzip or bzip2 format.'' s else s)"
  obtain a s2 where a: "syscall (Alloc cmd_line) s1 = (a, s2)" by (cases "syscall (Alloc cmd_line) s1")
  obtain b s3 where b: "syscall (Popen cmd_line) s2 = (b, s3)" by (cases "syscall (Popen cmd_line) s2")
  define u where "u = s3\<lparr>pipe_broken := False, stream := stream_start d\<rparr>"
  obtain c s4 where c: "syscall (Thread ''create'') u = (c, s4)" by (cases "syscall (Thread ''create'') u")
  have k1: "keeps s s1" by (auto simp: s1_def intro: keeps_intros)
  have k2: "keeps s s2" by (rule keeps_trans [OF k1 syscall_keeps [OF a]])
  have k3: "keeps s s3" by (rule keeps_trans [OF k2 syscall_keeps [OF b]])
  have "keeps s u" unfolding u_def by (intro keeps_intros k3)
  then have k4: "keeps s s4" by (rule keeps_trans [OF _ syscall_keeps [OF c]])
  show ?thesis
  proof (cases "ret a < 0 \<or> ret b < 0 \<or> ret c \<noteq> 0")
    case True
    then have "\<exists>v m. t = flash_error False False nm (fastboot_fail m v) \<and> v \<in> {s2, s3, s4}"
      using assms a b c [unfolded u_def] unfolding flash_pipe_def pc Let_def case_prod_conv s1_def [symmetric]
      by (auto split: if_splits)
    then show ?thesis using k2 k3 k4 by (auto intro!: keeps_intros)
  next
    case False
    then have t: "(case stream_threads len s4 of
        None \<Rightarrow> None
      | Some (ok, reaped, s5) \<Rightarrow>
          Some (if \<not> ok then flash_error True reaped nm s5
                else case flash_checks dev ptn s5 of
                       (Some e, s6) \<Rightarrow> flash_error True True nm (fastboot_fail e s6)
                     | (None, s6) \<Rightarrow> flash_finish True True nm s6)) = Some t"
      using assms a b c [unfolded u_def] unfolding flash_pipe_def pc Let_def case_prod_conv s1_def [symmetric]
      by simp
    then obtain ok reaped s5 where th: "stream_threads len s4 = Some (ok, reaped, s5)"
      by (cases "stream_threads len s4") auto
    obtain e s6 where ch: "flash_checks dev ptn s5 = (e, s6)" by (cases "flash_checks dev ptn s5")
    note k5 = keeps_trans [OF k4 stream_threads_keeps [OF th]]
    note k6 = keeps_trans [OF k5 flash_checks_keeps [OF ch]]
    show ?thesis using t k5 k6 by (auto simp: th ch split: if_splits option.splits intro!: keeps_intros)
  qed
qed

lemma buffer_init_keeps: "buffer_init n s = (m, t) \<Longrightarrow> keeps s t"
  by (rule quiet_keeps) (auto simp: buffer_init_def syscall_def quiet_def split: if_splits)

lemma flash_stream_keeps:
  assumes "flash_stream nm dev ptn len s = Some t"
  shows "keeps s t"
proof -
  obtain r x s1 where a: "streaming_download len True s = (r, x, s1)" by (cases "streaming_download len True s") auto
  obtain m s2 where b: "buffer_init (int SIZE) s1 = (m, s2)" by (cases "buffer_init (int SIZE) s1")
  obtain m' s3 where c: "buffer_init (int SIZE) s2 = (m', s3)" by (cases "buffer_init (int SIZE) s2")
  define n where "n = (if len > SIZE then SIZE else len)"
  obtain r' d s4 where d: "streaming_download n False s3 = (r', d, s4)" by (cases "streaming_download n False s3") auto
  note k1 = streaming_download_keeps [OF a]
  note k2 = keeps_trans [OF k1 buffer_init_keeps [OF b]]
  note k3 = keeps_trans [OF k2 buffer_init_keeps [OF c]]
  note k4 = keeps_trans [OF k3 streaming_download_keeps [OF d]]
  show ?thesis
    using assms a b c d k1 k2 k3 k4 keeps_trans [OF k4 flash_pipe_keeps]
    unfolding flash_stream_def n_def [symmetric]
    by (auto split: if_splits option.splits intro!: keeps_intros)
qed

lemma flash_partition_keeps:
  assumes "flash_partition nm len s = Some t"
  shows "keeps s t"
proof -
  obtain dev s1 where a: "part_device nm s = (dev, s1)" by (cases "part_device nm s")
  note k1 = quiet_keeps [OF util_quiet(1) [OF a]]
  show ?thesis
    using assms a k1 keeps_trans [OF k1 flash_stream_keeps]
    by (auto simp: flash_partition_def split: if_splits option.splits intro!: keeps_intros)
qed

lemma cmd_reboot_keeps: "cmd_reboot arg s = Some t \<Longrightarrow> keeps s t" "cmd_reboot_bl arg s = Some t \<Longrightarrow> keeps s t"
  by (auto simp: cmd_reboot_def cmd_reboot_bl_def split: prod.splits if_splits intro!: keeps_intros
      dest!: preos_reboot_quiet quiet_keeps elim!: keeps_trans [rotated])

lemma push_file_keeps: "keeps s u \<Longrightarrow> keeps s (push_file dir path u)"
  by (auto simp: push_file_def Let_def split: prod.split dest!: syscall_keeps intro!: keeps_intros intro: keeps_trans)

lemma oem_push_keeps: "keeps s u \<Longrightarrow> keeps s (oem_push argv u)"
  by (auto simp: oem_push_def split: option.split prod.split dest!: syscall_keeps
      intro!: keeps_intros push_file_keeps intro: keeps_trans)

section \<open>Plugins\<close>

text \<open>
  What the server relies on in a plugin: its callbacks may publish variables and use the system, but
  leave the transport, the download buffer and the state of the server to it.
\<close>

locale plugins =
  fixes flash_cb :: "(handler, 'z) flash_func" and oem_cb :: "(handler, 'z) oem_func"
  assumes flash_cb_keeps: "flash_cb cb data len s = (r, t) \<Longrightarrow> keeps s t"
    and oem_cb_keeps: "oem_cb cb argv s = (r, t) \<Longrightarrow> keeps s t"
begin

lemma flash_plugin_keeps: "keeps s (flash_plugin flash_cb cb nm len s)"
proof -
  obtain r s1 where a: "download_to len s = (r, s1)" by (cases "download_to len s")
  define u where "u = tboot_ui_bouncebar (''Flashing '' @ nm @ ''...'') s1"
  obtain cbret s2 where b: "flash_cb cb (take len (download_base s1)) len u = (cbret, s2)"
    by (cases "flash_cb cb (take len (download_base s1)) len u")
  note k1 = download_to_keeps [OF a]
  have "keeps s u" unfolding u_def by (intro keeps_intros k1)
  note k2 = keeps_trans [OF this flash_cb_keeps [OF b]]
  show ?thesis using a b [unfolded u_def] k1 k2 by (auto simp: flash_plugin_def intro!: keeps_intros)
qed

lemma stream_flash_keeps:
  assumes "cmd_stream_flash flash_cb cmd s = Some t"
  shows "keeps s t"
proof -
  obtain a s1 where a: "syscall (Alloc cmd) s = (a, s1)" by (cases "syscall (Alloc cmd) s")
  note k1 = syscall_keeps [OF a]
  have fails: "keeps s1 (flash_error False False nm (fastboot_fail m s1))" for nm m by (intro keeps_intros)
  have "keeps s1 t"
  proof (cases "strchr cmd (CHR '':'')")
    case None
    then show ?thesis using assms a fails by (auto simp: cmd_stream_flash_def split: if_splits)
  next
    case (Some pc)
    define len nm where "len = strtoul 32 16 (tl pc)" and "nm = take (length cmd - length pc) cmd"
    have t: "(if ret a < 0 then Some (flash_error False False ''(null)'' (fastboot_fail ''strdup failed.'' s1))
      else if nm = [] then Some (list_partitions True True s1)
      else if nm = ''disk'' then flash_stream nm (device (g_disk_info s1)) None len s1
      else case hashmapGet (flash_cmds s1) nm of
             Some cb \<Rightarrow> Some (flash_plugin flash_cb cb nm len s1)
           | None \<Rightarrow> flash_partition nm len s1) = Some t"
      using assms unfolding cmd_stream_flash_def a case_prod_conv Some option.case Let_def len_def nm_def .
    then show ?thesis
      by (auto split: if_splits option.splits intro: keeps_intros fails flash_stream_keeps flash_plugin_keeps flash_partition_keeps)
  qed
  then show ?thesis by (rule keeps_trans [OF k1])
qed

lemma oem_keeps: "keeps s (cmd_oem oem_cb arg s)"
  by (auto simp: cmd_oem_def Let_def split: option.split prod.split dest!: syscall_keeps oem_cb_keeps
      intro!: keeps_intros oem_push_keeps intro: keeps_trans)

lemma run_keeps: "aboot_run flash_cb oem_cb h arg s = Some t \<Longrightarrow> keeps s t"
  by (cases h) (auto simp: aboot_run_def cmd_boot_def intro: keeps_intros oem_keeps stream_flash_keeps
      cmd_erase_keeps cmd_reboot_keeps)

end

sublocale plugins \<subseteq> served: fastboot_handlers "aboot_run flash_cb oem_cb"
  by unfold_locales (auto dest!: run_keeps simp: keeps_def)

text \<open>A build without plugin library: nothing is registered, and a call would fail.\<close>

definition no_flash :: "('h, 'z) flash_func" where
  "no_flash cb data len s = (-1, s)"

definition no_oem :: "('h, 'z) oem_func" where
  "no_oem cb argv s = (-1, s)"

interpretation bare: plugins no_flash no_oem
  by unfold_locales (auto simp: no_flash_def no_oem_def)

end
