(* ===== verification/Aboot_Props.thy ===== *)
theory Aboot_Props
  imports Aboot
begin

text \<open>
  Properties of the commands of \<^verbatim>\<open>src/aboot.c\<close>: which handler a command reaches, that the server with
  these handlers ends with its connection, what a flash and a push leave behind, and what happens on the
  error paths.
\<close>

section \<open>Dispatch\<close>

text \<open>The entry with the longest matching prefix, the first one among equals.\<close>

fun longest_prefix :: "(string \<times> 'h) list \<Rightarrow> string \<Rightarrow> (string \<times> 'h) option" where
  "longest_prefix [] buffer = None"
| "longest_prefix ((p, h) # cs) buffer =
     (case longest_prefix cs buffer of
        None \<Rightarrow> if starts_with p buffer then Some (p, h) else None
      | Some (q, k) \<Rightarrow> if starts_with p buffer \<and> length q \<le> length p then Some (p, h) else Some (q, k))"

text \<open>No entry hides a longer one behind it.\<close>

fun unshadowed :: "(string \<times> 'h) list \<Rightarrow> bool" where
  "unshadowed [] = True"
| "unshadowed ((p, h) # cs) = (list_all (\<lambda>(q, k). length q \<le> length p \<or> \<not> starts_with p q) cs \<and> unshadowed cs)"

lemma longest_prefix_matches:
  "longest_prefix cs buffer = Some (q, k) \<Longrightarrow> (q, k) \<in> set cs \<and> starts_with q buffer"
  by (induction cs arbitrary: q k) (auto split: option.splits if_splits)

lemma starts_with_both:
  "starts_with p buffer \<Longrightarrow> starts_with q buffer \<Longrightarrow> length p \<le> length q \<Longrightarrow> starts_with p q"
  by (auto simp: starts_with_def) (metis min.absorb1 take_take)

lemma find_longest:
  assumes "unshadowed cs"
  shows "find (\<lambda>(prefix, h). starts_with prefix buffer) cs = longest_prefix cs buffer"
  using assms
proof (induction cs)
  case (Cons c cs)
  obtain p h where c: "c = (p, h)" by (cases c)
  show ?case
  proof (cases "starts_with p buffer")
    case False
    then show ?thesis using Cons c by (auto split: option.split)
  next
    case True
    have "length q \<le> length p" if "longest_prefix cs buffer = Some (q, k)" for q k
    proof (rule ccontr)
      assume "\<not> length q \<le> length p"
      then have "starts_with p q"
        using starts_with_both [OF True] longest_prefix_matches [OF that] by simp
      then show False
        using Cons.prems longest_prefix_matches [OF that] \<open>\<not> length q \<le> length p\<close> by (auto simp: c list_all_iff)
    qed
    then show ?thesis using True c by (auto split: option.split)
  qed
qed simp

lemma aboot_table:
  assumes "cmdlist s0 = []" "fastboot_init True Cmd_getvar Cmd_download fresh n s0 = Some s1"
    "aboot_register_commands True True s1 = Some s"
  shows "cmdlist s = [(''flash:'', Cmd_stream_flash), (''erase:'', Cmd_erase), (''reboot-bootloader'', Cmd_reboot_bl),
    (''reboot'', Cmd_reboot), (''boot'', Cmd_boot), (''oem'', Cmd_oem), (''download:'', Cmd_download), (''getvar:'', Cmd_getvar)]"
  using assms
  by (auto simp: fastboot_init_def aboot_register_commands_def fastboot_register_def fastboot_publish_def Let_def
      split: option.splits)


definition example_ab :: "string option list \<Rightarrow> handler ab" where
  "example_ab host = \<lparr>tboot_config = Some default_table, lcd_state = Lcd_on, lcd_panel = example_panel,
     alarm_left = 0, uevents = example_status, autoboot_enabled = False, power_pressed = False,
     ignore_keypress = False, action_mutex = False, pipe_broken = False, ui_log = [], ub = False,
     cmdlist = [], varlist = [], download_base = replicate 16 (CHR ''x''), download_max = 16, download_size = 0,
     fastboot_state = STATE_COMMAND, usb_in = host, usb_wr = [], usb_out = [],
     g_disk_info = example_disk, device_volumes = [], os_answers = example_system, os_log = [],
     files = (\<lambda>_. []), stream = stream_start [], turns = [], dbl_percent = (\<lambda>finished len. int (finished * 100 div len)),
     flash_cmds = hm_example, oem_cmds = hm_example, mounts = (\<lambda>_. None)\<rparr>"

lemma create_8: "\<exists>m :: callback_table. hashmapCreate True True 8 strhash strcompare = Some (Some m)"
proof -
  have "double_buckets 10 1 = Some 16" by (simp add: double_buckets.simps push_bit_eq_mult)
  then show ?thesis by (simp add: hashmapCreate_def calloc_fits_def)
qed


section \<open>Registering callbacks\<close>

text \<open>
  A callback registered under a free name is found under that name, the other names keep their
  callbacks, and a second registration of the name is refused and changes nothing.
\<close>

theorem callback_registered:
  assumes "hm_for strhash strcompare m" "hm_lookup m key = None"
  shows "\<exists>m'. aboot_register_cmd True True calloc_ok m key cb = (0, m') \<and> hm_for strhash strcompare m' \<and>
    hm_lookup m' = (hm_lookup m)(key \<mapsto> Some cb) \<and> hashmapGet m' key = Some cb \<and>
    aboot_register_cmd True malloc_ok' calloc_ok' m' key cb' = (-1, m')"
proof -
  let ?m = "fst (hashmapPut True calloc_ok m key (Some cb))"
  note p = put_lookup [OF assms(1), of calloc_ok key "Some cb"]
  have g: "hashmapGet m key = None" "hashmapGet ?m key = Some cb" using assms(2) p(2) by (simp_all add: str_keys.get_lookup)
  then show ?thesis using p by (intro exI [of _ ?m]) (simp add: aboot_register_cmd_def)
qed

theorem callback_registered_witness:
  "\<exists>m'. aboot_register_cmd True True True hm_example ''ifwi'' ''flash_ifwi'' = (0, m') \<and> hm_for strhash strcompare m' \<and>
    hm_lookup m' = (hm_lookup hm_example)(''ifwi'' \<mapsto> Some ''flash_ifwi'') \<and> hashmapGet m' ''ifwi'' = Some ''flash_ifwi'' \<and>
    aboot_register_cmd True True True m' ''ifwi'' ''other'' = (-1, m')"
  using callback_registered [OF hm_example_ok, of "''ifwi''" True "''flash_ifwi''" True True "''other''"]
  by (simp add: hm_example_empty)

section \<open>The server\<close>

context plugins
begin

lemma loop_served:
  "\<exists>r. fastboot_command_loop (aboot_run flash_cb oem_cb) s = Some r \<and>
    (\<forall>t. r = Some t \<longrightarrow> fastboot_state t = STATE_OFFLINE \<and> (buffer_ok s \<longrightarrow> buffer_ok t))"
  by (rule served.loop_ends)

end



section \<open>Error paths of a flash\<close>

lemma strchr_first: "c \<notin> set xs \<Longrightarrow> strchr (xs @ c # ys) c = Some (c # ys)"
  by (induction xs) auto


definition example_plugin :: "handler ab" where
  "example_plugin = (example_ab [])\<lparr>flash_cmds := fst (hashmapPut True True hm_example ''ifwi'' (Some ''flash_ifwi''))\<rparr>"


section \<open>A flash\<close>

text \<open>A system on which every call succeeds.\<close>

definition fine_system :: "(nat \<Rightarrow> os_call \<Rightarrow> os_answer) \<Rightarrow> bool" where
  "fine_system os \<longleftrightarrow> (\<forall>n c. ret (os n c) = (case c of Lseek k \<Rightarrow> int k | Read k \<Rightarrow> int k | _ \<Rightarrow> 0))"

text \<open>What the steps around the threads leave alone.\<close>

definition calm :: "('h, 'z) ab_scheme \<Rightarrow> ('h, 'z) ab_scheme \<Rightarrow> bool" where
  "calm s t \<longleftrightarrow> t\<lparr>os_log := [], ui_log := []\<rparr> = s\<lparr>os_log := [], ui_log := []\<rparr>"

lemma calm_field: "calm s t \<Longrightarrow> (\<And>u. f (u\<lparr>os_log := [], ui_log := []\<rparr>) = f u) \<Longrightarrow> f t = f s"
  by (metis calm_def)

lemma calm_trans: "calm s t \<Longrightarrow> calm t u \<Longrightarrow> calm s u"
  by (simp add: calm_def)

lemma calmD:
  assumes "calm s t"
  shows "os_answers t = os_answers s" "g_disk_info t = g_disk_info s" "stream t = stream s" "usb_out t = usb_out s"
    "usb_wr t = usb_wr s" "usb_in t = usb_in s" "fastboot_state t = fastboot_state s" "ub t = ub s"
  using calm_field [OF assms, of os_answers] calm_field [OF assms, of g_disk_info] calm_field [OF assms, of stream]
    calm_field [OF assms, of usb_out] calm_field [OF assms, of usb_wr] calm_field [OF assms, of usb_in]
    calm_field [OF assms, of fastboot_state] calm_field [OF assms, of ub] by simp_all

lemma calm_steps [simp]:
  "calm s (call c s)" "calm s (tboot_ui_bouncebar m s)" "calm s (tboot_ui_warn m s)" "calm s s"
  by (simp_all add: calm_def call_def syscall_def tboot_ui_bouncebar_def tboot_ui_textbar_def tboot_ui_warn_def)

lemma reread_fine:
  assumes "fine_system (os_answers s)"
  shows "\<exists>t. reread_table dev s = (False, t) \<and> calm s t"
  using assms by (simp add: reread_table_def syscall_def call_def fine_system_def calm_def)

lemma superblock_fine:
  assumes "fine_system (os_answers s)" "find_part_device True (g_disk_info s) (name p) = Some dev"
  shows "\<exists>present t. check_ext_superblock p s = (0, present, t) \<and> calm s t"
  using assms
  by (simp add: check_ext_superblock_def part_device_def syscall_def call_def fine_system_def calm_def EXT_SUPERBLOCK_OFFSET_def)

lemma probe_fine:
  assumes "fine_system (os_answers s)" "\<And>p. ptn = Some p \<Longrightarrow> find_part_device True (g_disk_info s) (name p) \<noteq> None"
  shows "\<exists>present t. probe_ext ptn s = (0, present, t) \<and> calm s t"
  using assms superblock_fine [OF assms(1)] by (auto simp: probe_ext_def split: option.split)

lemma execute_fine:
  assumes "fine_system (os_answers s)"
  shows "\<exists>t. execute_command cmd s = (0, t) \<and> calm s t"
  using assms by (simp add: execute_command_def syscall_def fine_system_def WEXITSTATUS_def calm_def)

lemma fsck_fine:
  assumes "fine_system (os_answers s)"
  shows "\<exists>t. ext4_filesystem_checks dev s = (0, t) \<and> calm s t"
proof -
  obtain t1 where 1: "execute_command (''/bin/e2fsck -C 0 -fn '' @ dev) s = (0, t1)" "calm s t1"
    using execute_fine [OF assms] by blast
  have f1: "fine_system (os_answers t1)" using assms calmD(1) [OF 1(2)] by simp
  obtain t2 where 2: "execute_command (''/bin/resize2fs -Ff '' @ dev) t1 = (0, t2)" "calm t1 t2"
    using execute_fine [OF f1] by blast
  have f2: "fine_system (os_answers t2)" using f1 calmD(1) [OF 2(2)] by simp
  obtain t3 where 3: "execute_command (''/bin/tune2fs -C 1 '' @ dev) t2 = (0, t3)" "calm t2 t3"
    using execute_fine [OF f2] by blast
  show ?thesis
    using 1 2 3 calm_trans unfolding ext4_filesystem_checks_def by (intro exI [of _ t3]) (auto intro: calm_trans)
qed

lemma checks_fine:
  assumes "fine_system (os_answers s)" "\<And>p. ptn = Some p \<Longrightarrow> find_part_device True (g_disk_info s) (name p) \<noteq> None"
  shows "\<exists>t. flash_checks dev ptn s = (None, t) \<and> calm s t"
proof -
  define u where "u = call Sync (tboot_ui_bouncebar ''Syncing...'' s)"
  have u: "calm s u" unfolding u_def by (rule calm_trans [OF calm_steps(2) calm_steps(1)])
  obtain t1 where 1: "reread_table dev u = (False, t1)" "calm u t1"
    using reread_fine [of u dev] assms(1) calmD(1) [OF u] by auto
  have c1: "calm s t1" by (rule calm_trans [OF u 1(2)])
  obtain present t2 where 2: "probe_ext ptn t1 = (0, present, t2)" "calm t1 t2"
    using probe_fine [of t1 ptn] assms calmD(1,2) [OF c1] by auto
  have c2: "calm s t2" by (rule calm_trans [OF c1 2(2)])
  define v where "v = tboot_ui_bouncebar ''File system checking...'' t2"
  have v: "calm s v" unfolding v_def by (rule calm_trans [OF c2 calm_steps(2)])
  obtain t3 where 3: "ext4_filesystem_checks dev v = (0, t3)" "calm v t3"
    using fsck_fine [of v dev] assms(1) calmD(1) [OF v] by auto
  show ?thesis
    using 1(1) 2(1) 3(1) c2 calm_trans [OF v 3(2)] unfolding flash_checks_def u_def [symmetric]
    by (auto simp: v_def [symmetric])
qed

lemma okay_empty:
  assumes "usb_wr s = []" "fastboot_state s = STATE_COMMAND"
  shows "fastboot_okay [] s = s\<lparr>usb_out := usb_out s @ [''OKAY''], fastboot_state := STATE_COMPLETE\<rparr>"
  unfolding fastboot_okay_def fastboot_ack_packets [OF assms] by (simp add: packets.simps)

text \<open>From the first chunk on, for an image of one chunk.\<close>

lemma pipe_fine:
  assumes "fine_system (os_answers s)" "\<And>p. ptn = Some p \<Longrightarrow> find_part_device True (g_disk_info s) (name p) \<noteq> None"
    "0 < length data" "length data \<le> SIZE" "fastboot_state s = STATE_COMMAND" "usb_wr s = []"
    "set ts \<subseteq> {Main, Reader}" "turns s = ts @ finishing data"
  shows "\<exists>t. flash_pipe nm dev ptn (length data) memory data s = Some t \<and> fout (stream t) = [data] \<and> usb_in t = usb_in s \<and>
    usb_out t = usb_out s @ [''OKAY''] \<and> fastboot_state t = STATE_COMPLETE \<and> ub t = ub s"
proof -
  obtain warn cmd_line where pc: "pipe_command (data @ drop (length data) memory) dev = (warn, cmd_line)"
    by (cases "pipe_command (data @ drop (length data) memory) dev")
  define s1 where "s1 = (if warn then tboot_ui_warn ''Input isn't in gzip or bzip2 format.'' s else s)"
  define s3 where "s3 = call (Popen cmd_line) (call (Alloc cmd_line) s1)"
  have c1: "calm s s1" by (simp add: s1_def)
  have c3: "calm s s3"
    unfolding s3_def by (rule calm_trans [OF calm_trans [OF c1 calm_steps(1)] calm_steps(1)])
  define s4 where "s4 = call (Thread ''create'') (s3\<lparr>pipe_broken := False, stream := stream_start data\<rparr>)"
  have s4: "stream s4 = stream_start data" "\<not> pipe_broken s4" "os_answers s4 = os_answers s" "usb_in s4 = usb_in s"
    "fastboot_state s4 = STATE_COMMAND" "usb_wr s4 = []" "usb_out s4 = usb_out s" "ub s4 = ub s" "g_disk_info s4 = g_disk_info s"
    "turns s4 = ts @ finishing data"
    using calmD [OF c3] calm_field [OF c3, of turns] assms(5,6,8) by (simp_all add: s4_def call_def syscall_def)
  have b: "length data + SIZE < 2 ^ 32" using assms(4) by (simp add: SIZE_def)
  have "\<exists>t. stream_threads (length data) s4 = Some (True, True, t) \<and> \<not> pipe_broken t"
    using stream_completes [of s4 data "usb_in s" ts] s4 assms(1,4,7) b
    by (simp add: fine_system_def chunks.simps [of "[]"])
  then obtain s5 where t: "stream_threads (length data) s4 = Some (True, True, s5)" "\<not> pipe_broken s5" by blast
  have fo: "fout (stream s5) = [data]" by (rule small_image [OF s4(1) assms(3,4) t])
  have "flow_ok (length data) (stream s4)"
    unfolding s4(1) using start_flow [of data "length data"] assms(4) b SIZE_facts(2) by simp
  note core = stream_core [OF t(1) this]
  have s5: "os_answers s5 = os_answers s" "g_disk_info s5 = g_disk_info s" "usb_wr s5 = []" "usb_out s5 = usb_out s"
    "fastboot_state s5 = STATE_COMMAND" "ub s5 = ub s"
    using arg_cong [OF core, of os_answers] arg_cong [OF core, of g_disk_info] arg_cong [OF core, of usb_wr]
      arg_cong [OF core, of usb_out] arg_cong [OF core, of fastboot_state] arg_cong [OF core, of ub] s4
    by (simp_all add: sf_core_def)
  have host: "host_ok data (usb_in s) SIZE s5"
    by (rule stream_end(2) [OF _ _ _ b t(1)]) (use s4 assms(4) in \<open>simp_all add: chunks.simps [of "[]"]\<close>)
  have "w_finished (stream s5) = length data" using t(1) by (cases rule: stream_threads_ok)
  then have u5: "usb_in s5 = usb_in s" using host by (simp add: host_ok_def chunks.simps [of "[]"])
  obtain s6 where ch: "flash_checks dev ptn s5 = (None, s6)" "calm s5 s6"
    using checks_fine [of s5 ptn dev] assms(1,2) s5 by auto
  note s6 = calmD [OF ch(2)]
  have "flash_pipe nm dev ptn (length data) memory data s = Some (flash_finish True True nm s6)"
    using assms(1) calmD(1) [OF c3] t(1) ch(1)
    unfolding flash_pipe_def pc Let_def case_prod_conv s1_def [symmetric] s3_def s4_def
    by (simp add: call_def syscall_def fine_system_def s1_def)
  moreover have "flash_finish True True nm s6 = (tboot_ui_info (''Flash '' @ nm @ '' finished.'') s6)
      \<lparr>usb_out := usb_out s6 @ [''OKAY''], fastboot_state := STATE_COMPLETE\<rparr>"
    unfolding flash_finish_def flash_out_def
    using okay_empty [of "tboot_ui_info (''Flash '' @ nm @ '' finished.'') s6"] s5(3,5) s6(5,7) by simp
  ultimately show ?thesis using fo u5 s5 s6 by (simp add: tboot_ui_info_def tboot_ui_hidebar_def tboot_ui_textbar_def)
qed

lemma stream_fine:
  assumes "fine_system (os_answers s)" "\<And>p. ptn = Some p \<Longrightarrow> find_part_device True (g_disk_info s) (name p) \<noteq> None"
    "0 < length data" "length data \<le> SIZE" "fastboot_state s = STATE_COMMAND" "usb_wr s = []"
    "usb_in s = map Some (chunks data) @ rest" "set ts \<subseteq> {Main, Reader}" "turns s = ts @ finishing data"
  shows "\<exists>t. flash_stream nm dev ptn (length data) s = Some t \<and> fout (stream t) = [data] \<and> usb_in t = rest \<and>
    usb_out t = usb_out s @ [''DATA'' @ show_hex_padded 8 (length data), ''OKAY''] \<and>
    fastboot_state t = STATE_COMPLETE \<and> ub t = ub s"
proof -
  let ?data = "''DATA'' @ show_hex_padded 8 (length data)"
  have n: "length data \<le> INT_MAX" "length data < 2 ^ 32" "int (length data) mod 2 ^ 32 = int (length data)" "0 < int SIZE"
    using assms(4) by (auto simp: INT_MAX_def SIZE_def)
  define s1 where "s1 = s\<lparr>usb_out := usb_out s @ [?data]\<rparr>"
  have "length ?data = 12" using show_hex_padded_length [OF n(2)] by simp
  then have r: "streaming_download (length data) True s = (0, [], s1)"
    using assms(5,6) by (simp add: streaming_download_def response_data_def usb_write_all INT_MAX_def s1_def)
  have b: "buffer_init (int SIZE) u = (Some (bytes (os_answers u (Suc (length (os_log u))) (Alloc ''data''))),
      u\<lparr>os_log := os_log u @ [Alloc ''buffer'', Alloc ''data'', Alloc ''mutex'']\<rparr>)"
    if "fine_system (os_answers u)" for u :: "('a, 'b) ab_scheme"
    using that n(4) by (simp add: buffer_init_def syscall_def fine_system_def)
  let ?al = "[Alloc ''buffer'', Alloc ''data'', Alloc ''mutex'']"
  define s3 where "s3 = s1\<lparr>os_log := os_log s1 @ ?al @ ?al\<rparr>"
  obtain memory where m: "buffer_init (int SIZE) s1 = (Some memory, s1\<lparr>os_log := os_log s1 @ ?al\<rparr>)"
    using b [of s1] assms(1) by (simp add: s1_def)
  obtain memory2 where m2: "buffer_init (int SIZE) (s1\<lparr>os_log := os_log s1 @ ?al\<rparr>) = (Some memory2, s3)"
    using b [of "s1\<lparr>os_log := os_log s1 @ ?al\<rparr>"] assms(1) by (simp add: s1_def s3_def)
  have u: "streaming_download (length data) False s3 = (0, data, s3\<lparr>usb_in := rest\<rparr>)"
    using usb_read_chunks [of s3 data rest] assms(5,7) n(1,3) by (simp add: streaming_download_def s3_def s1_def)
  obtain t where t: "flash_pipe nm dev ptn (length data) memory data (s3\<lparr>usb_in := rest\<rparr>) = Some t"
    "fout (stream t) = [data]" "usb_in t = rest" "usb_out t = usb_out s3 @ [''OKAY'']" "fastboot_state t = STATE_COMPLETE"
    "ub t = ub s3"
    using pipe_fine [of "s3\<lparr>usb_in := rest\<rparr>" ptn data ts nm dev memory] assms by (auto simp: s3_def s1_def)
  have "flash_stream nm dev ptn (length data) s = Some t"
    using assms(4) m2 by (simp add: flash_stream_def r m u t(1))
  then show ?thesis using t by (simp add: s3_def s1_def)
qed

text \<open>
  C3: Flashing an image of at most one buffer to an ext4 partition, on a system where every call
  succeeds and with a host that sends the image, ends under every schedule that gives the threads enough
  turns: the host is told to send the data and then that the flash succeeded, exactly the image was
  written to the pipe, and nothing more was taken from the host.
\<close>

theorem image_flashed:
  assumes "CHR '':'' \<notin> set nm" "nm \<noteq> []" "nm \<noteq> ''disk''" "hashmapGet (flash_cmds s) nm = None"
    "find_part_device True (g_disk_info s) nm = Some dev" "volume_for_device (device_volumes s) dev = Some vol"
    "fs_type vol = ''ext4''" "fine_system (os_answers s)" "fastboot_state s = STATE_COMMAND" "usb_wr s = []"
    "0 < length data" "length data \<le> SIZE" "usb_in s = map Some (chunks data) @ rest"
    "set ts \<subseteq> {Main, Reader}" "turns s = ts @ finishing data"
  shows "\<exists>t. cmd_stream_flash flash_cb (nm @ '':'' @ show_hex_padded 8 (length data)) s = Some t \<and>
    fout (stream t) = [data] \<and> usb_in t = rest \<and>
    usb_out t = usb_out s @ [''DATA'' @ show_hex_padded 8 (length data), ''OKAY''] \<and>
    fastboot_state t = STATE_COMPLETE \<and> ub t = ub s"
proof -
  let ?cmd = "nm @ '':'' @ show_hex_padded 8 (length data)"
  have "length data < 2 ^ 32" using assms(12) by (simp add: SIZE_def)
  then have len: "strtoul 32 16 (show_hex_padded 8 (length data)) = length data" by (rule strtoul_show_hex)
  define s1 where "s1 = s\<lparr>os_log := os_log s @ [Alloc ?cmd, Alloc nm]\<rparr>"
  have "find_part_device True (g_disk_info s) (name p) \<noteq> None" if "find_part (g_disk_info s) nm = Some p" for p
    using that assms(5) by (auto simp: find_part_def find_Some_iff split: option.splits)
  then obtain t where t: "flash_stream nm dev (find_part (g_disk_info s) nm) (length data) s1 = Some t"
    "fout (stream t) = [data] \<and> usb_in t = rest \<and>
    usb_out t = usb_out s @ [''DATA'' @ show_hex_padded 8 (length data), ''OKAY''] \<and>
    fastboot_state t = STATE_COMPLETE \<and> ub t = ub s"
    using stream_fine [of s1 "find_part (g_disk_info s) nm" data rest ts nm dev] assms by (auto simp: s1_def)
  have "cmd_stream_flash flash_cb ?cmd s = flash_stream nm dev (find_part (g_disk_info s) nm) (length data) s1"
    using assms(1-8) strchr_first [OF assms(1)]
    by (simp add: cmd_stream_flash_def syscall_def fine_system_def len flash_partition_def part_device_def s1_def)
  then show ?thesis using t by simp
qed

definition fine_answers :: "nat \<Rightarrow> os_call \<Rightarrow> os_answer" where
  "fine_answers n c = \<lparr>ret = (case c of Lseek k \<Rightarrow> int k | Read k \<Rightarrow> int k | _ \<Rightarrow> 0), err = 0, bytes = [], is_blk = True\<rparr>"

definition example_flash :: "handler ab" where
  "example_flash = (example_ab (map Some (chunks ''image'')))\<lparr>device_volumes := two_devices, os_answers := fine_answers,
     turns := [Reader, Main, Reader] @ finishing ''image''\<rparr>"

theorem image_flashed_witness:
  "\<exists>t. cmd_stream_flash no_flash (''data'' @ '':'' @ show_hex_padded 8 (length ''image'')) example_flash = Some t \<and>
    fout (stream t) = [''image''] \<and> usb_in t = [] \<and>
    usb_out t = usb_out example_flash @ [''DATA'' @ show_hex_padded 8 (length ''image''), ''OKAY''] \<and>
    fastboot_state t = STATE_COMPLETE \<and> ub t = ub example_flash"
proof (rule image_flashed)
  have "find_mbr_part True example_disk ''data'' = Some ''/dev/mmcblk0p6''" by code_simp
  then show "find_part_device True (g_disk_info example_flash) ''data'' = Some ''/dev/mmcblk0p6''"
    by (simp add: example_flash_def example_ab_def find_part_device_def PART_SCHEME_MBR_def) (simp add: example_disk_def)
  show "volume_for_device (device_volumes example_flash) ''/dev/mmcblk0p6'' = Some (hd two_devices)"
    by (simp add: example_flash_def volume_for_device_def two_devices_def)
  show "hashmapGet (flash_cmds example_flash) ''data'' = None"
    by (simp add: example_flash_def example_ab_def str_keys.get_lookup hm_example_empty)
qed (simp_all add: example_flash_def example_ab_def two_devices_def fine_system_def fine_answers_def SIZE_def)

section \<open>A push\<close>

definition blank :: "char \<Rightarrow> bool" where
  "blank c \<longleftrightarrow> c = CHR '' '' \<or> c = CHR 0x09"

lemma push_words:
  assumes "list_all (\<lambda>c. \<not> blank c) path" "path \<noteq> []"
  shows "oem_args MAX_OEM_ARGS (''push '' @ path) = [''push'', path]"
proof -
  have p: "takeWhile (\<lambda>c. c \<notin> set [CHR '' '', CHR 0x09]) path = path" "dropWhile (\<lambda>c. c \<notin> set [CHR '' '', CHR 0x09]) path = []"
    "dropWhile (\<lambda>c. c \<in> set [CHR '' '', CHR 0x09]) path = path"
    using assms by (auto simp: list_all_iff blank_def dropWhile_eq_self_iff)
  have "strtok [CHR '' '', CHR 0x09] path = Some (path, [])"
    unfolding strtok_def Let_def p using assms(2) by simp
  moreover have "strtok [CHR '' '', CHR 0x09] [] = None" by (simp add: strtok_def)
  moreover have "strtok [CHR '' '', CHR 0x09] (''push '' @ path) = Some (''push'', path)" by (simp add: strtok_def)
  ultimately have "oem_args (Suc (Suc (Suc 61))) (''push '' @ path) = [''push'', path]"
    unfolding oem_args.simps by simp
  then show ?thesis by (simp add: MAX_OEM_ARGS_def)
qed

text \<open>
  C39: A push of downloaded data, when the file system has room and every call succeeds, creates the
  file of the given base name in the configured directory with exactly the downloaded bytes, changes no
  other file and answers with its path.
\<close>

theorem file_pushed:
  assumes "list_all (\<lambda>c. \<not> blank c) path" "path \<noteq> []" "path \<noteq> ''-h''" "path \<noteq> ''--help''"
    "hashmapGet (oem_cmds s) ''push'' = None" "tboot_config_get (tboot_config s) ''push_dir'' = Some dir"
    "dir \<noteq> []" "last dir \<noteq> CHR ''/''" "length dir + length (basename path) + 1 < PATH_MAX"
    "buffer_ok s" "fastboot_state s = STATE_COMMAND" "usb_wr s = []" "\<forall>n c. 0 \<le> ret (os_answers s n c)"
    "\<forall>n d. ret (os_answers s n (Fwrite d)) = int (length d)"
    "\<forall>n. download_size s \<le> push_space (os_answers s n (Statfs dir))"
  shows "files (cmd_oem oem_cb ('' push '' @ path) s) =
      (files s)(dir @ ''/'' @ basename path := take (download_size s) (download_base s)) \<and>
    usb_out (cmd_oem oem_cb ('' push '' @ path) s) = usb_out s @ packets ''OKAY'' (dir @ ''/'' @ basename path) \<and>
    fastboot_state (cmd_oem oem_cb ('' push '' @ path) s) = STATE_COMPLETE \<and>
    ub (cmd_oem oem_cb ('' push '' @ path) s) = ub s"
proof -
  have neg: "ret (os_answers s n c) \<noteq> -1" "\<not> ret (os_answers s n c) < 0" for n c
    using assms(13) by (metis neg_0_le_iff_le not_one_le_zero zero_le_one, metis not_less)
  have room: "\<not> push_space (os_answers s n (Statfs dir)) < download_size s" for n
    using assms(15) by (simp add: not_less)
  have sz: "length (take (download_size s) (download_base s)) = download_size s"
    using assms(10) by (simp add: buffer_ok_def)
  have tmp: "take (PATH_MAX - 1) (dir @ ''/'' @ basename path) = dir @ ''/'' @ basename path" using assms(9) by simp
  define s1 where "s1 = s\<lparr>os_log := os_log s @ [Alloc (''push '' @ path), Statfs dir]\<rparr>"
  have "cmd_oem oem_cb ('' push '' @ path) s = push_file dir path s1"
    using assms(3-6,9) push_words [OF assms(1,2)]
    by (simp add: cmd_oem_def Let_def syscall_def oem_push_def s1_def neg room)
  then show ?thesis
    using assms(7,8,11,12,14) sz tmp
    by (simp add: neg push_file_def Let_def syscall_def s1_def call_def fastboot_okay_def fastboot_ack_packets
        tboot_ui_info_def tboot_ui_hidebar_def tboot_ui_textbar_def)
qed

definition roomy_answers :: "nat \<Rightarrow> os_call \<Rightarrow> os_answer" where
  "roomy_answers n c = \<lparr>ret = (case c of Fwrite d \<Rightarrow> int (length d) | Statfs d \<Rightarrow> 4096 | _ \<Rightarrow> 0), err = 100000, bytes = [], is_blk = True\<rparr>"

definition example_push :: "handler ab" where
  "example_push = (example_ab [])\<lparr>os_answers := roomy_answers, download_size := 8\<rparr>"

theorem file_pushed_witness:
  "files (cmd_oem no_oem ('' push '' @ ''a/img'') example_push) =
      (files example_push)(''/tmp'' @ ''/'' @ basename ''a/img'' := take (download_size example_push) (download_base example_push)) \<and>
    usb_out (cmd_oem no_oem ('' push '' @ ''a/img'') example_push) =
      usb_out example_push @ packets ''OKAY'' (''/tmp'' @ ''/'' @ basename ''a/img'') \<and>
    fastboot_state (cmd_oem no_oem ('' push '' @ ''a/img'') example_push) = STATE_COMPLETE \<and>
    ub (cmd_oem no_oem ('' push '' @ ''a/img'') example_push) = ub example_push"
proof (rule file_pushed)
  show "tboot_config_get (tboot_config example_push) ''push_dir'' = Some ''/tmp''"
    by (simp add: example_push_def example_ab_def default_table_get tc_keys_def tc_values_def)
  show "hashmapGet (oem_cmds example_push) ''push'' = None"
    by (simp add: example_push_def example_ab_def str_keys.get_lookup hm_example_empty)
qed (simp_all add: example_push_def example_ab_def roomy_answers_def push_space_def blank_def basename_def PATH_MAX_def
    buffer_ok_def INT_MAX_def split: os_call.split)

end
