(* ===== verification/Sparse_Crc.thy ===== *)
theory Sparse_Crc
  imports Prelude
begin

text \<open>
  The checksum of \<^verbatim>\<open>libsparse/sparse_crc32.c\<close>: the table-driven CRC-32 and its equivalence with the
  shift register that takes the message bit by bit.
\<close>

unbundle bit_operations_syntax

definition crc32_tab :: "u32 list" where
  "crc32_tab = [
     0x00000000, 0x77073096, 0xEE0E612C, 0x990951BA, 0x076DC419, 0x706AF48F, 0xE963A535, 0x9E6495A3,
     0x0EDB8832, 0x79DCB8A4, 0xE0D5E91E, 0x97D2D988, 0x09B64C2B, 0x7EB17CBD, 0xE7B82D07, 0x90BF1D91,
     0x1DB71064, 0x6AB020F2, 0xF3B97148, 0x84BE41DE, 0x1ADAD47D, 0x6DDDE4EB, 0xF4D4B551, 0x83D385C7,
     0x136C9856, 0x646BA8C0, 0xFD62F97A, 0x8A65C9EC, 0x14015C4F, 0x63066CD9, 0xFA0F3D63, 0x8D080DF5,
     0x3B6E20C8, 0x4C69105E, 0xD56041E4, 0xA2677172, 0x3C03E4D1, 0x4B04D447, 0xD20D85FD, 0xA50AB56B,
     0x35B5A8FA, 0x42B2986C, 0xDBBBC9D6, 0xACBCF940, 0x32D86CE3, 0x45DF5C75, 0xDCD60DCF, 0xABD13D59,
     0x26D930AC, 0x51DE003A, 0xC8D75180, 0xBFD06116, 0x21B4F4B5, 0x56B3C423, 0xCFBA9599, 0xB8BDA50F,
     0x2802B89E, 0x5F058808, 0xC60CD9B2, 0xB10BE924, 0x2F6F7C87, 0x58684C11, 0xC1611DAB, 0xB6662D3D,
     0x76DC4190, 0x01DB7106, 0x98D220BC, 0xEFD5102A, 0x71B18589, 0x06B6B51F, 0x9FBFE4A5, 0xE8B8D433,
     0x7807C9A2, 0x0F00F934, 0x9609A88E, 0xE10E9818, 0x7F6A0DBB, 0x086D3D2D, 0x91646C97, 0xE6635C01,
     0x6B6B51F4, 0x1C6C6162, 0x856530D8, 0xF262004E, 0x6C0695ED, 0x1B01A57B, 0x8208F4C1, 0xF50FC457,
     0x65B0D9C6, 0x12B7E950, 0x8BBEB8EA, 0xFCB9887C, 0x62DD1DDF, 0x15DA2D49, 0x8CD37CF3, 0xFBD44C65,
     0x4DB26158, 0x3AB551CE, 0xA3BC0074, 0xD4BB30E2, 0x4ADFA541, 0x3DD895D7, 0xA4D1C46D, 0xD3D6F4FB,
     0x4369E96A, 0x346ED9FC, 0xAD678846, 0xDA60B8D0, 0x44042D73, 0x33031DE5, 0xAA0A4C5F, 0xDD0D7CC9,
     0x5005713C, 0x270241AA, 0xBE0B1010, 0xC90C2086, 0x5768B525, 0x206F85B3, 0xB966D409, 0xCE61E49F,
     0x5EDEF90E, 0x29D9C998, 0xB0D09822, 0xC7D7A8B4, 0x59B33D17, 0x2EB40D81, 0xB7BD5C3B, 0xC0BA6CAD,
     0xEDB88320, 0x9ABFB3B6, 0x03B6E20C, 0x74B1D29A, 0xEAD54739, 0x9DD277AF, 0x04DB2615, 0x73DC1683,
     0xE3630B12, 0x94643B84, 0x0D6D6A3E, 0x7A6A5AA8, 0xE40ECF0B, 0x9309FF9D, 0x0A00AE27, 0x7D079EB1,
     0xF00F9344, 0x8708A3D2, 0x1E01F268, 0x6906C2FE, 0xF762575D, 0x806567CB, 0x196C3671, 0x6E6B06E7,
     0xFED41B76, 0x89D32BE0, 0x10DA7A5A, 0x67DD4ACC, 0xF9B9DF6F, 0x8EBEEFF9, 0x17B7BE43, 0x60B08ED5,
     0xD6D6A3E8, 0xA1D1937E, 0x38D8C2C4, 0x4FDFF252, 0xD1BB67F1, 0xA6BC5767, 0x3FB506DD, 0x48B2364B,
     0xD80D2BDA, 0xAF0A1B4C, 0x36034AF6, 0x41047A60, 0xDF60EFC3, 0xA867DF55, 0x316E8EEF, 0x4669BE79,
     0xCB61B38C, 0xBC66831A, 0x256FD2A0, 0x5268E236, 0xCC0C7795, 0xBB0B4703, 0x220216B9, 0x5505262F,
     0xC5BA3BBE, 0xB2BD0B28, 0x2BB45A92, 0x5CB36A04, 0xC2D7FFA7, 0xB5D0CF31, 0x2CD99E8B, 0x5BDEAE1D,
     0x9B64C2B0, 0xEC63F226, 0x756AA39C, 0x026D930A, 0x9C0906A9, 0xEB0E363F, 0x72076785, 0x05005713,
     0x95BF4A82, 0xE2B87A14, 0x7BB12BAE, 0x0CB61B38, 0x92D28E9B, 0xE5D5BE0D, 0x7CDCEFB7, 0x0BDBDF21,
     0x86D3D2D4, 0xF1D4E242, 0x68DDB3F8, 0x1FDA836E, 0x81BE16CD, 0xF6B9265B, 0x6FB077E1, 0x18B74777,
     0x88085AE6, 0xFF0F6A70, 0x66063BCA, 0x11010B5C, 0x8F659EFF, 0xF862AE69, 0x616BFFD3, 0x166CCF45,
     0xA00AE278, 0xD70DD2EE, 0x4E048354, 0x3903B3C2, 0xA7672661, 0xD06016F7, 0x4969474D, 0x3E6E77DB,
     0xAED16A4A, 0xD9D65ADC, 0x40DF0B66, 0x37D83BF0, 0xA9BCAE53, 0xDEBB9EC5, 0x47B2CF7F, 0x30B5FFE9,
     0xBDBDF21C, 0xCABAC28A, 0x53B39330, 0x24B4A3A6, 0xBAD03605, 0xCDD70693, 0x54DE5729, 0x23D967BF,
     0xB3667A2E, 0xC4614AB8, 0x5D681B02, 0x2A6F2B94, 0xB40BBE37, 0xC30C8EA1, 0x5A05DF1B, 0x2D02EF8D]"

text \<open>One round of the loop, on the byte \<open>c\<close>.\<close>

definition crc_byte :: "u32 \<Rightarrow> char \<Rightarrow> u32" where
  "crc_byte crc c = (crc32_tab ! unat ((crc XOR of_char c) AND 0xFF)) XOR drop_bit 8 crc"

definition sparse_crc32 :: "u32 \<Rightarrow> string \<Rightarrow> u32" where
  "sparse_crc32 crc_in buf = NOT (fold (\<lambda>c crc. crc_byte crc c) buf (NOT crc_in))"

section \<open>The shift register\<close>

text \<open>
  The register of the polynomial, with the highest term in the lowest bit: one message bit goes in, and
  the feedback terms are added when the bit that leaves differs from it.
\<close>

definition crc_poly :: u32 where "crc_poly = 0xEDB88320"

definition register_bit :: "bool \<Rightarrow> u32 \<Rightarrow> u32" where
  "register_bit b crc = (if bit crc 0 \<noteq> b then drop_bit 1 crc XOR crc_poly else drop_bit 1 crc)"

definition byte_bits :: "char \<Rightarrow> bool list" where
  "byte_bits c = map (bit (of_char c :: u32)) [0..<8]"

definition crc32_serial :: "u32 \<Rightarrow> string \<Rightarrow> u32" where
  "crc32_serial crc_in buf = NOT (fold register_bit (concat (map byte_bits buf)) (NOT crc_in))"

text \<open>The register without input, to which the message is added beforehand.\<close>

definition shift_bit :: "u32 \<Rightarrow> u32" where
  "shift_bit = register_bit False"

lemma funpow_eight: "(f ^^ 8) x = f (f (f (f (f (f (f (f x)))))))"
  by (simp add: numeral_eq_Suc)

text \<open>The table from its eight entries at powers of two.\<close>

definition tab_basis :: "u32 list" where
  "tab_basis = map (\<lambda>k. (shift_bit ^^ 8) (2 ^ k)) [0..<8]"

lemma tab_basis_values:
  "tab_basis = [0x77073096, 0xEE0E612C, 0x076DC419, 0x0EDB8832, 0x1DB71064, 0x3B6E20C8, 0x76DC4190, 0xEDB88320]"
  by (simp add: tab_basis_def funpow_eight upt_conv_Cons shift_bit_def register_bit_def crc_poly_def)

lemma tab_doubling: "crc32_tab = fold (\<lambda>t xs. xs @ map (\<lambda>x. x XOR t) xs) tab_basis [0]"
  by (simp add: crc32_tab_def tab_basis_values)

text \<open>The register is linear.\<close>

lemma shift_xor: "shift_bit (x XOR y) = shift_bit x XOR shift_bit y"
  by (rule bit_word_eqI) (auto simp: shift_bit_def register_bit_def bit_xor_iff bit_drop_bit_eq)

lemma shifts_xor: "(shift_bit ^^ n) (x XOR y) = (shift_bit ^^ n) x XOR (shift_bit ^^ n) y"
  by (induction n) (simp_all add: shift_xor)

lemma shifts_zero: "(shift_bit ^^ n) 0 = 0"
  by (induction n) (simp_all add: shift_bit_def register_bit_def)

text \<open>Bits above those shifted out are only moved.\<close>

lemma shifts_high:
  assumes "\<And>i. i < n \<Longrightarrow> \<not> bit y i"
  shows "(shift_bit ^^ n) y = drop_bit n y"
  using assms
proof (induction n arbitrary: y)
  case (Suc n)
  have "\<not> bit y 0" using Suc.prems [of 0] by simp
  then have "shift_bit y = drop_bit 1 y" by (simp add: shift_bit_def register_bit_def)
  moreover have "(shift_bit ^^ n) (drop_bit 1 y) = drop_bit n (drop_bit 1 y)"
    by (rule Suc.IH) (simp add: bit_drop_bit_eq Suc.prems)
  ultimately show ?case by (simp add: funpow_swap1)
qed simp

lemma upper_bit:
  assumes "j < 2 ^ k" "k < 32"
  shows "(word_of_nat (2 ^ k + j) :: u32) = word_of_nat j XOR 2 ^ k"
proof -
  have "\<not> bit j k" using assms(1) by (simp add: bit_iff_odd)
  then have "2 ^ k + j = set_bit k j" by (simp add: set_bit_eq)
  then have "bit (2 ^ k + j) n \<longleftrightarrow> bit j n \<or> n = k" for n by (simp add: bit_set_bit_iff possible_bit_def) auto
  then show ?thesis
    using \<open>\<not> bit j k\<close> assms(2)
    by (intro bit_word_eqI) (auto simp: bit_xor_iff bit_of_nat_iff bit_exp_iff simp del: of_nat_add)
qed

lemma doubling:
  assumes "\<forall>i < 2 ^ k. i < length xs \<and> xs ! i = (shift_bit ^^ 8) (word_of_nat i)" "length xs = 2 ^ k" "k < 32"
  defines "ys \<equiv> xs @ map (\<lambda>x. x XOR (shift_bit ^^ 8) (2 ^ k)) xs"
  shows "\<forall>i < 2 ^ Suc k. i < length ys \<and> ys ! i = (shift_bit ^^ 8) (word_of_nat i)" "length ys = 2 ^ Suc k"
proof -
  show l: "length ys = 2 ^ Suc k" using assms(2) by (simp add: ys_def)
  show "\<forall>i < 2 ^ Suc k. i < length ys \<and> ys ! i = (shift_bit ^^ 8) (word_of_nat i)"
  proof (intro allI impI conjI)
    fix i :: nat
    assume i: "i < 2 ^ Suc k"
    then show "i < length ys" using l by simp
    show "ys ! i = (shift_bit ^^ 8) (word_of_nat i)"
    proof (cases "i < 2 ^ k")
      case True
      then show ?thesis using assms(1,2) by (simp add: ys_def nth_append)
    next
      case False
      define j where "j = i - 2 ^ k"
      have j: "i = 2 ^ k + j" "j < 2 ^ k" using False i by (auto simp: j_def)
      have "ys ! i = xs ! j XOR (shift_bit ^^ 8) (2 ^ k)" using j assms(2) by (simp add: ys_def nth_append)
      also have "\<dots> = (shift_bit ^^ 8) (word_of_nat j XOR 2 ^ k)" using assms(1) j(2) by (simp add: shifts_xor)
      also have "word_of_nat j XOR 2 ^ k = (word_of_nat i :: u32)" unfolding j(1) by (rule upper_bit [OF j(2) assms(3), symmetric])
      finally show ?thesis .
    qed
  qed
qed

lemma doublings:
  assumes "n \<le> 32"
  shows "(\<forall>i < 2 ^ n. i < length (fold (\<lambda>k xs. xs @ map (\<lambda>x. x XOR (shift_bit ^^ 8) (2 ^ k)) xs) [0..<n] [0]) \<and>
      fold (\<lambda>k xs. xs @ map (\<lambda>x. x XOR (shift_bit ^^ 8) (2 ^ k)) xs) [0..<n] [0] ! i = (shift_bit ^^ 8) (word_of_nat i)) \<and>
    length (fold (\<lambda>k xs. xs @ map (\<lambda>x. x XOR (shift_bit ^^ 8) (2 ^ k)) xs) [0..<n] [0]) = 2 ^ n"
  using assms
proof (induction n)
  case 0
  then show ?case by (simp add: shifts_zero)
next
  case (Suc n)
  let ?xs = "fold (\<lambda>k xs. xs @ map (\<lambda>x. x XOR (shift_bit ^^ 8) (2 ^ k)) xs) [0..<n] [0]"
  have "(\<forall>i<2 ^ n. i < length ?xs \<and> ?xs ! i = (shift_bit ^^ 8) (word_of_nat i))" "length ?xs = 2 ^ n" "n < 32"
    using Suc by simp_all
  from doubling [OF this] show ?case by simp
qed

lemma tab_entry:
  assumes "i < 256"
  shows "crc32_tab ! i = (shift_bit ^^ 8) (word_of_nat i)"
proof -
  have "crc32_tab = fold (\<lambda>k xs. xs @ map (\<lambda>x. x XOR (shift_bit ^^ 8) (2 ^ k)) xs) [0..<8] [0]"
    unfolding tab_doubling tab_basis_def fold_map comp_def ..
  then show ?thesis using doublings [of 8] assms by simp
qed

section \<open>Eight bits at once\<close>

lemma low_byte: "(x AND 0xFF :: u32) = take_bit 8 x" "unat (x AND 0xFF :: u32) < 256"
proof -
  show t: "(x AND 0xFF :: u32) = take_bit 8 x" by (simp add: take_bit_eq_mask mask_numeral)
  have "unat (take_bit 8 x) = take_bit 8 (unat x)" by (rule unsigned_take_bit_eq)
  moreover have "take_bit 8 (unat x) < 2 ^ 8" by (rule take_bit_nat_less_exp)
  ultimately show "unat (x AND 0xFF :: u32) < 256" unfolding t by simp
qed

lemma byte_high_bits: "8 \<le> n \<Longrightarrow> \<not> bit (of_char c :: u32) n"
proof -
  assume n: "8 \<le> n"
  have "(of_char c :: nat) < 2 ^ 8" using nat_of_char_less_256 [of c] by simp
  also have "\<dots> \<le> 2 ^ n" using n by (rule power_increasing) simp
  finally have "\<not> bit (of_char c :: nat) n" by (simp add: bit_iff_odd)
  then have "\<not> bit (word_of_nat (of_char c) :: u32) n" by (simp add: bit_of_nat_iff del: of_nat_of_char)
  then show "\<not> bit (of_char c :: u32) n" unfolding of_nat_of_char .
qed

lemma split_byte: "(x :: u32) = take_bit 8 x XOR push_bit 8 (drop_bit 8 x)"
  by (rule bit_word_eqI) (auto simp: bit_xor_iff bit_take_bit_iff bit_push_bit_iff bit_drop_bit_eq)

lemma crc_byte_shifts: "crc_byte crc c = (shift_bit ^^ 8) (crc XOR of_char c)"
proof -
  define x where "x = crc XOR (of_char c :: u32)"
  define y where "y = push_bit 8 (drop_bit 8 x)"
  have "(shift_bit ^^ 8) x = (shift_bit ^^ 8) (take_bit 8 x XOR y)" unfolding y_def by (subst split_byte [of x]) rule
  also have "\<dots> = (shift_bit ^^ 8) (take_bit 8 x) XOR (shift_bit ^^ 8) y" by (rule shifts_xor)
  also have "(shift_bit ^^ 8) (take_bit 8 x) = crc32_tab ! unat (x AND 0xFF)"
    using tab_entry [OF low_byte(2) [of x]] unfolding low_byte(1) of_nat_unat ucast_id by (rule sym)
  also have "(shift_bit ^^ 8) y = drop_bit 8 y" by (rule shifts_high) (simp add: y_def bit_push_bit_iff)
  also have "drop_bit 8 y = drop_bit 8 crc"
    by (rule bit_word_eqI) (auto simp: y_def x_def bit_xor_iff bit_push_bit_iff bit_drop_bit_eq byte_high_bits
        dest: bit_imp_le_length)
  finally show ?thesis by (simp add: crc_byte_def x_def)
qed

text \<open>A bit fed into the register, and a message added to it beforehand.\<close>

lemma register_bit_shift: "register_bit (bit m 0) crc XOR drop_bit 1 m = shift_bit (crc XOR m)"
  by (rule bit_word_eqI) (auto simp: shift_bit_def register_bit_def bit_xor_iff bit_drop_bit_eq)

lemma register_bits_shift:
  "fold register_bit (map (bit m) [0..<n]) crc XOR drop_bit n m = (shift_bit ^^ n) (crc XOR m)"
proof (induction n)
  case (Suc n)
  let ?r = "fold register_bit (map (bit m) [0..<n]) crc"
  have "bit (drop_bit n m) 0 = bit m n" by (simp add: bit_drop_bit_eq)
  then have "register_bit (bit m n) ?r XOR drop_bit 1 (drop_bit n m) = shift_bit (?r XOR drop_bit n m)"
    using register_bit_shift [of "drop_bit n m" ?r] by simp
  then show ?case using Suc by (simp add: drop_bit_drop_bit add.commute)
qed simp

lemma register_byte: "fold register_bit (byte_bits c) crc = crc_byte crc c"
proof -
  have "drop_bit 8 (of_char c :: u32) = 0" by (rule bit_word_eqI) (simp add: bit_drop_bit_eq byte_high_bits)
  then show ?thesis
    using register_bits_shift [of "of_char c" 8 crc] by (simp add: byte_bits_def crc_byte_shifts)
qed

section \<open>Property\<close>

text \<open>
  C14: The table-driven checksum equals that of the shift register for the polynomial
  \<open>0xEDB88320\<close> which takes the message bit by bit, for every message and every start value.
\<close>

theorem crc32_equals_serial: "sparse_crc32 crc_in buf = crc32_serial crc_in buf"
proof -
  have "fold (\<lambda>c crc. crc_byte crc c) buf crc = fold register_bit (concat (map byte_bits buf)) crc" for crc
    by (induction buf arbitrary: crc) (simp_all add: register_byte)
  then show ?thesis by (simp add: sparse_crc32_def crc32_serial_def)
qed

end
