(* ===== verification/Backed_Block.thy ===== *)
theory Backed_Block
  imports Sparse_Crc
begin

text \<open>
  The list of the blocks that back a sparse file, \<^verbatim>\<open>libsparse/backed_block.c\<close>. A list of C structures is
  a list of records in the order of the \<^verbatim>\<open>next\<close> pointers; \<open>bb_addr\<close> is the address of a structure, needed
  because the list keeps a pointer to the block queued last. An \<^verbatim>\<open>unsigned int\<close> is a natural number with
  the wrap-around written out.
\<close>

section \<open>Blocks\<close>

text \<open>
  The union of a block: the bytes that a data block points to, the address of the duplicated file name,
  the name and the offset, a descriptor and an offset, or a fill value.
\<close>

datatype bb_content =
    BACKED_BLOCK_DATA string
  | BACKED_BLOCK_FILE nat string int
  | BACKED_BLOCK_FD int int
  | BACKED_BLOCK_FILL u32

record backed_block =
  bb_addr :: nat
  bb_block :: nat
  bb_len :: nat
  bb_content :: bb_content

record backed_block_list =
  data_blocks :: "backed_block list"
  last_used :: "nat option"
  bbl_block_size :: nat

text \<open>A failed assertion, a use of freed memory and a division by zero end the program.\<close>

datatype fault = Assertion | Bad_pointer | Division

definition u32_add :: "nat \<Rightarrow> nat \<Rightarrow> nat" where
  "u32_add a b = (a + b) mod 2 ^ 32"

definition backed_block_list_new :: "nat \<Rightarrow> backed_block_list" where
  "backed_block_list_new block_size = \<lparr>data_blocks = [], last_used = None, bbl_block_size = block_size\<rparr>"

text \<open>The addresses that the two destroy functions free, in order, the one of the list apart.\<close>

definition backed_block_destroy :: "backed_block \<Rightarrow> nat list" where
  "backed_block_destroy b = (case bb_content b of BACKED_BLOCK_FILE p nm off \<Rightarrow> [p, bb_addr b] | _ \<Rightarrow> [bb_addr b])"

definition backed_block_list_destroy :: "backed_block_list \<Rightarrow> nat list" where
  "backed_block_list_destroy bbl = concat (map backed_block_destroy (data_blocks bbl))"

text \<open>The offset that a reader of a file or descriptor block asks for; other blocks fail an assertion.\<close>

definition backed_block_file_offset :: "backed_block \<Rightarrow> fault + int" where
  "backed_block_file_offset b =
     (case bb_content b of
        BACKED_BLOCK_FILE p nm off \<Rightarrow> Inr off
      | BACKED_BLOCK_FD fd off \<Rightarrow> Inr off
      | _ \<Rightarrow> Inl Assertion)"

section \<open>Queueing\<close>

text \<open>\<^verbatim>\<open>merge_bb\<close> on two blocks: \<open>None\<close> is \<^verbatim>\<open>-EINVAL\<close>, otherwise the first block takes in the second.\<close>

fun same_type :: "bb_content \<Rightarrow> bb_content \<Rightarrow> bool" where
  "same_type (BACKED_BLOCK_DATA _) (BACKED_BLOCK_DATA _) = True"
| "same_type (BACKED_BLOCK_FILE _ _ _) (BACKED_BLOCK_FILE _ _ _) = True"
| "same_type (BACKED_BLOCK_FD _ _) (BACKED_BLOCK_FD _ _) = True"
| "same_type (BACKED_BLOCK_FILL _) (BACKED_BLOCK_FILL _) = True"
| "same_type _ _ = False"

definition mergeable :: "nat \<Rightarrow> bb_content \<Rightarrow> bb_content \<Rightarrow> bool" where
  "mergeable len a b =
     (case (a, b) of
        (BACKED_BLOCK_FILL v, BACKED_BLOCK_FILL w) \<Rightarrow> v = w
      | (BACKED_BLOCK_FILE p nm off, BACKED_BLOCK_FILE q nm' off') \<Rightarrow> p = q \<and> off + int len = off'
      | (BACKED_BLOCK_FD fd off, BACKED_BLOCK_FD fd' off') \<Rightarrow> fd = fd' \<and> off + int len = off'
      | _ \<Rightarrow> False)"

definition merge_bb :: "nat \<Rightarrow> backed_block \<Rightarrow> backed_block \<Rightarrow> fault + backed_block option" where
  "merge_bb block_size a b =
     (if \<not> bb_block a < bb_block b then Inl Assertion
      else if \<not> same_type (bb_content a) (bb_content b) then Inr None
      else if block_size = 0 then Inl Division
      else if u32_add (bb_block a) (bb_len a div block_size) \<noteq> bb_block b then Inr None
      else if \<not> mergeable (bb_len a) (bb_content a) (bb_content b) then Inr None
      else Inr (Some (a\<lparr>bb_len := u32_add (bb_len a) (bb_len b)\<rparr>)))"

text \<open>
  The search for the place of a block: the blocks up to the one it follows, and the rest. It starts at a
  block that does not come after the new one.
\<close>

fun walk :: "nat \<Rightarrow> backed_block list \<Rightarrow> backed_block list \<times> backed_block list" where
  "walk blk [] = ([], [])"
| "walk blk [b] = ([b], [])"
| "walk blk (b # c # cs) =
     (if bb_block c < blk then (case walk blk (c # cs) of (p, r) \<Rightarrow> (b # p, r)) else ([b], c # cs))"

fun position :: "nat \<Rightarrow> backed_block list \<Rightarrow> nat option" where
  "position a [] = None"
| "position a (b # bs) = (if bb_addr b = a then Some 0 else map_option Suc (position a bs))"

text \<open>Where the search starts. A pointer to a freed block is read; it may be the address of the new one.\<close>

definition start_index :: "backed_block_list \<Rightarrow> backed_block \<Rightarrow> fault + nat" where
  "start_index bbl new_bb =
     (case last_used bbl of
        None \<Rightarrow> Inr 0
      | Some p \<Rightarrow>
          if p = bb_addr new_bb then Inr 0
          else case position p (data_blocks bbl) of
                 None \<Rightarrow> Inl Bad_pointer
               | Some i \<Rightarrow> Inr (if bb_block new_bb > bb_block (data_blocks bbl ! i) then i else 0))"

text \<open>The two calls of \<^verbatim>\<open>merge_bb\<close>: with the block after the new one, then with the one before.\<close>

definition merge_next :: "nat \<Rightarrow> backed_block \<Rightarrow> backed_block list \<Rightarrow> fault + backed_block \<times> backed_block list" where
  "merge_next block_size new_bb post =
     (case post of
        [] \<Rightarrow> Inr (new_bb, [])
      | c # cs \<Rightarrow>
          (case merge_bb block_size new_bb c of
             Inl e \<Rightarrow> Inl e
           | Inr None \<Rightarrow> Inr (new_bb, c # cs)
           | Inr (Some m) \<Rightarrow> Inr (m, cs)))"

definition merge_prev :: "nat \<Rightarrow> backed_block list \<Rightarrow> backed_block \<Rightarrow> fault + backed_block list" where
  "merge_prev block_size before new_bb =
     (case merge_bb block_size (last before) new_bb of
        Inl e \<Rightarrow> Inl e
      | Inr None \<Rightarrow> Inr (before @ [new_bb])
      | Inr (Some m) \<Rightarrow> Inr (butlast before @ [m]))"

definition queue_bb :: "backed_block_list \<Rightarrow> backed_block \<Rightarrow> fault + backed_block_list" where
  "queue_bb bbl new_bb =
     (case data_blocks bbl of
        [] \<Rightarrow> Inr (bbl\<lparr>data_blocks := [new_bb]\<rparr>)
      | b # bs \<Rightarrow>
          if bb_block b > bb_block new_bb then Inr (bbl\<lparr>data_blocks := new_bb # b # bs\<rparr>)
          else
            case start_index bbl new_bb of
              Inl e \<Rightarrow> Inl e
            | Inr i \<Rightarrow>
                (case walk (bb_block new_bb) (drop i (b # bs)) of
                   (p, post) \<Rightarrow>
                     (case merge_next (bbl_block_size bbl) new_bb post of
                        Inl e \<Rightarrow> Inl e
                      | Inr (m, post') \<Rightarrow>
                          (case merge_prev (bbl_block_size bbl) (take i (b # bs) @ p) m of
                             Inl e \<Rightarrow> Inl e
                           | Inr before \<Rightarrow>
                               Inr (bbl\<lparr>data_blocks := before @ post', last_used := Some (bb_addr new_bb)\<rparr>)))))"

text \<open>
  The four operations that add a block. \<open>addr\<close> is the answer of the allocation, \<open>None\<close> for no memory,
  which gives \<^verbatim>\<open>-ENOMEM\<close>.
\<close>

definition ENOMEM :: int where "ENOMEM = 12"

definition add_block :: "nat option \<Rightarrow> nat \<Rightarrow> nat \<Rightarrow> bb_content \<Rightarrow> backed_block_list \<Rightarrow> fault + int \<times> backed_block_list" where
  "add_block addr len blk c bbl =
     (case addr of
        None \<Rightarrow> Inr (- ENOMEM, bbl)
      | Some a \<Rightarrow>
          (case queue_bb bbl \<lparr>bb_addr = a, bb_block = blk, bb_len = len, bb_content = c\<rparr> of
             Inl e \<Rightarrow> Inl e
           | Inr bbl' \<Rightarrow> Inr (0, bbl')))"

definition backed_block_add_fill :: "nat option \<Rightarrow> backed_block_list \<Rightarrow> u32 \<Rightarrow> nat \<Rightarrow> nat \<Rightarrow> fault + int \<times> backed_block_list" where
  "backed_block_add_fill addr bbl fill_val len blk = add_block addr len blk (BACKED_BLOCK_FILL fill_val) bbl"

definition backed_block_add_data :: "nat option \<Rightarrow> backed_block_list \<Rightarrow> string \<Rightarrow> nat \<Rightarrow> nat \<Rightarrow> fault + int \<times> backed_block_list" where
  "backed_block_add_data addr bbl data len blk = add_block addr len blk (BACKED_BLOCK_DATA data) bbl"

definition backed_block_add_file ::
    "nat option \<Rightarrow> nat \<Rightarrow> backed_block_list \<Rightarrow> string \<Rightarrow> int \<Rightarrow> nat \<Rightarrow> nat \<Rightarrow> fault + int \<times> backed_block_list" where
  "backed_block_add_file addr name_addr bbl filename offset len blk =
     add_block addr len blk (BACKED_BLOCK_FILE name_addr filename offset) bbl"

definition backed_block_add_fd ::
    "nat option \<Rightarrow> backed_block_list \<Rightarrow> int \<Rightarrow> int \<Rightarrow> nat \<Rightarrow> nat \<Rightarrow> fault + int \<times> backed_block_list" where
  "backed_block_add_fd addr bbl fd offset len blk = add_block addr len blk (BACKED_BLOCK_FD fd offset) bbl"

section \<open>Splitting and moving\<close>

text \<open>
  \<^verbatim>\<open>backed_block_split\<close> on the block at an index. The allocation is not tested: the code compares the
  wrong variable with NULL.
\<close>

fun split_content :: "nat \<Rightarrow> bb_content \<Rightarrow> bb_content" where
  "split_content n (BACKED_BLOCK_DATA d) = BACKED_BLOCK_DATA (drop n d)"
| "split_content n (BACKED_BLOCK_FILE p nm off) = BACKED_BLOCK_FILE p nm (off + int n)"
| "split_content n (BACKED_BLOCK_FD fd off) = BACKED_BLOCK_FD fd (off + int n)"
| "split_content n (BACKED_BLOCK_FILL v) = BACKED_BLOCK_FILL v"

definition backed_block_split :: "nat option \<Rightarrow> backed_block_list \<Rightarrow> nat \<Rightarrow> nat \<Rightarrow> fault + backed_block_list" where
  "backed_block_split addr bbl i max_len =
     (let bs = bbl_block_size bbl; bb = data_blocks bbl ! i; n = ALIGN_DOWN max_len bs
      in if bs = 0 then Inl Division
         else if bb_len bb \<le> n then Inr bbl
         else
           case addr of
             None \<Rightarrow> Inl Bad_pointer
           | Some a \<Rightarrow>
               let new_bb = \<lparr>bb_addr = a, bb_block = u32_add (bb_block bb) (n div bs), bb_len = bb_len bb - n,
                             bb_content = split_content n (bb_content bb)\<rparr>
               in Inr (bbl\<lparr>data_blocks := take i (data_blocks bbl) @ bb\<lparr>bb_len := n\<rparr> # new_bb # drop (Suc i) (data_blocks bbl)\<rparr>))"

text \<open>
  \<^verbatim>\<open>backed_block_list_move\<close> of the blocks from \<open>start\<close> to \<open>end_bb\<close>, given by their indices in the first
  list; no end means its last block. The loop that looks for the place in a list with blocks tests from
  the second block on.
\<close>

fun move_walk :: "nat \<Rightarrow> backed_block list \<Rightarrow> backed_block list \<times> backed_block list" where
  "move_walk blk [] = ([], [])"
| "move_walk blk [b] = ([b], [])"
| "move_walk blk (b # c # cs) =
     (if bb_block c > blk then ([b], c # cs) else (case move_walk blk (c # cs) of (p, r) \<Rightarrow> (b # p, r)))"

definition backed_block_list_move ::
    "backed_block_list \<Rightarrow> backed_block_list \<Rightarrow> nat \<Rightarrow> nat option \<Rightarrow> backed_block_list \<times> backed_block_list" where
  "backed_block_list_move src dst start end_bb =
     (let bs = data_blocks src; stop = (case end_bb of Some e \<Rightarrow> Suc e | None \<Rightarrow> length bs);
          moved = take (stop - start) (drop start bs)
      in if bs = [] \<or> moved = [] then (src, dst)
         else
           (src\<lparr>data_blocks := take start bs @ drop stop bs, last_used := None\<rparr>,
            dst\<lparr>data_blocks :=
                  (if data_blocks dst = [] then moved
                   else case move_walk (bb_block (hd moved)) (data_blocks dst) of (p, r) \<Rightarrow> p @ moved @ r),
                last_used := None\<rparr>))"

section \<open>Well-formed lists\<close>

text \<open>
  The blocks are in order and do not overlap, each has at least one byte, and they lie within the 4 GB
  that an \<^verbatim>\<open>unsigned int\<close> length can count.
\<close>

definition bb_end :: "nat \<Rightarrow> backed_block \<Rightarrow> nat" where
  "bb_end bs b = bb_block b + DIV_ROUND_UP (bb_len b) bs"

definition bb_ok :: "nat \<Rightarrow> backed_block \<Rightarrow> bool" where
  "bb_ok bs b \<longleftrightarrow> 0 < bb_len b \<and> bb_end bs b * bs < 2 ^ 32"

definition packed :: "nat \<Rightarrow> backed_block list \<Rightarrow> bool" where
  "packed bs l \<longleftrightarrow> sorted_wrt (\<lambda>a b. bb_end bs a \<le> bb_block b) l \<and> list_all (bb_ok bs) l"

definition fits :: "nat \<Rightarrow> backed_block \<Rightarrow> backed_block list \<Rightarrow> bool" where
  "fits bs b l \<longleftrightarrow> list_all (\<lambda>a. bb_end bs a \<le> bb_block b \<or> bb_end bs b \<le> bb_block a) l"

lemma bb_end_gt: "0 < bs \<Longrightarrow> bb_ok bs b \<Longrightarrow> bb_block b < bb_end bs b"
  by (simp add: bb_ok_def bb_end_def DIV_ROUND_UP_def div_greater_zero_iff) linarith

lemma bb_len_le: "0 < bs \<Longrightarrow> bb_block b * bs + bb_len b \<le> bb_end bs b * bs"
  using dividend_less_div_times [of bs "bb_len b + bs - 1"]
  by (simp add: bb_end_def DIV_ROUND_UP_def algebra_simps)

lemma packed_append:
  "packed bs (xs @ ys) \<longleftrightarrow> packed bs xs \<and> packed bs ys \<and> (\<forall>a \<in> set xs. \<forall>b \<in> set ys. bb_end bs a \<le> bb_block b)"
  by (auto simp: packed_def sorted_wrt_append)

lemma packed_Cons:
  "packed bs (b # ys) \<longleftrightarrow> bb_ok bs b \<and> packed bs ys \<and> (\<forall>c \<in> set ys. bb_end bs b \<le> bb_block c)"
  by (auto simp: packed_def)

text \<open>Merging two neighbours gives a block over the same blocks.\<close>

lemma merge_exact:
  assumes "0 < bs" "bb_ok bs a" "bb_ok bs b" "bb_end bs a \<le> bb_block b"
    "u32_add (bb_block a) (bb_len a div bs) = bb_block b"
  shows "bb_len a = (bb_block b - bb_block a) * bs" "bb_end bs a = bb_block b"
    "u32_add (bb_len a) (bb_len b) = bb_len a + bb_len b" "bb_end bs (a\<lparr>bb_len := bb_len a + bb_len b\<rparr>) = bb_end bs b"
    "bs dvd bb_len a"
proof -
  let ?q = "bb_len a div bs"
  have le: "?q \<le> DIV_ROUND_UP (bb_len a) bs" unfolding DIV_ROUND_UP_def by (rule div_le_mono) (use assms(1) in simp)
  have lim: "bb_end bs c \<le> bb_end bs c * bs" for c using assms(1) by simp
  have "bb_block a + ?q \<le> bb_end bs a" using le by (simp add: bb_end_def)
  then have "bb_block a + ?q < 2 ^ 32" using assms(2) lim [of a] unfolding bb_ok_def by linarith
  then have q: "bb_block a + ?q = bb_block b" using assms(5) by (simp add: u32_add_def)
  with le assms(4) have ceil: "DIV_ROUND_UP (bb_len a) bs = ?q" by (simp add: bb_end_def)
  have "bb_len a \<le> ?q * bs" using bb_len_le [OF assms(1), of a] ceil by (simp add: bb_end_def algebra_simps)
  then have len: "bb_len a = ?q * bs" using div_times_less_eq_dividend [of "bb_len a" bs] by simp
  then show "bs dvd bb_len a" by (metis dvd_triv_right)
  show "bb_len a = (bb_block b - bb_block a) * bs" using len q by (metis diff_add_inverse)
  show "bb_end bs a = bb_block b" using ceil q by (simp add: bb_end_def)
  have "bb_len a + bb_len b \<le> bb_end bs b * bs"
  proof -
    have "?q * bs \<le> bb_block b * bs" by (rule mult_le_mono1) (use q in linarith)
    with bb_len_le [OF assms(1), of b] len show ?thesis by linarith
  qed
  then show "u32_add (bb_len a) (bb_len b) = bb_len a + bb_len b"
    using assms(3) by (simp add: u32_add_def bb_ok_def)
  have "DIV_ROUND_UP (bb_len a + bb_len b) bs = ?q + DIV_ROUND_UP (bb_len b) bs"
  proof -
    have "(bb_len a + bb_len b + bs - 1) div bs = (?q * bs + (bb_len b + bs - 1)) div bs"
      using len assms(1) by (simp add: add.assoc)
    also have "\<dots> = ?q + (bb_len b + bs - 1) div bs" by (rule div_mult_self3) (use assms(1) in simp)
    finally show ?thesis by (simp add: DIV_ROUND_UP_def)
  qed
  then show "bb_end bs (a\<lparr>bb_len := bb_len a + bb_len b\<rparr>) = bb_end bs b" using q by (simp add: bb_end_def)
qed

lemma merge_bb_cases:
  assumes "0 < bs" "bb_ok bs a" "bb_ok bs b" "bb_end bs a \<le> bb_block b" "merge_bb bs a b = r"
  obtains "r = Inr None"
  | "r = Inr (Some (a\<lparr>bb_len := bb_len a + bb_len b\<rparr>))" "mergeable (bb_len a) (bb_content a) (bb_content b)"
    "bb_len a = (bb_block b - bb_block a) * bs" "bb_end bs a = bb_block b"
    "bb_end bs (a\<lparr>bb_len := bb_len a + bb_len b\<rparr>) = bb_end bs b"
proof -
  have lt: "bb_block a < bb_block b" using bb_end_gt [OF assms(1,2)] assms(4) by simp
  show thesis
  proof (cases "u32_add (bb_block a) (bb_len a div bs) = bb_block b \<and> mergeable (bb_len a) (bb_content a) (bb_content b)
      \<and> same_type (bb_content a) (bb_content b)")
    case True
    then have adj: "u32_add (bb_block a) (bb_len a div bs) = bb_block b" by simp
    note m = merge_exact [OF assms(1-4) adj]
    have "r = Inr (Some (a\<lparr>bb_len := bb_len a + bb_len b\<rparr>))"
      using assms(1,5) lt True m(3) by (auto simp: merge_bb_def)
    then show ?thesis using m True that(2) by blast
  next
    case False
    then have "r = Inr None" using assms(1,5) lt by (auto simp: merge_bb_def)
    then show ?thesis by (rule that(1))
  qed
qed

section \<open>The image of a list\<close>

text \<open>
  The byte of a block at an offset; \<open>src\<close> gives the contents of the named files and of the descriptors.
  The image maps each byte position that a block backs.
\<close>

definition fill_byte :: "u32 \<Rightarrow> nat \<Rightarrow> char" where
  "fill_byte v i = char_of (unat (drop_bit (8 * (i mod 4)) v))"

fun bb_byte :: "(nat \<Rightarrow> int \<Rightarrow> char) \<times> (int \<Rightarrow> int \<Rightarrow> char) \<Rightarrow> bb_content \<Rightarrow> nat \<Rightarrow> char" where
  "bb_byte src (BACKED_BLOCK_DATA d) i = d ! i"
| "bb_byte src (BACKED_BLOCK_FILE p nm off) i = fst src p (off + int i)"
| "bb_byte src (BACKED_BLOCK_FD fd off) i = snd src fd (off + int i)"
| "bb_byte src (BACKED_BLOCK_FILL v) i = fill_byte v i"

type_synonym bb_source = "(nat \<Rightarrow> int \<Rightarrow> char) \<times> (int \<Rightarrow> int \<Rightarrow> char)"

definition bb_map :: "bb_source \<Rightarrow> nat \<Rightarrow> backed_block \<Rightarrow> nat \<rightharpoonup> char" where
  "bb_map src bs b pos =
     (if bb_block b * bs \<le> pos \<and> pos < bb_block b * bs + bb_len b
      then Some (bb_byte src (bb_content b) (pos - bb_block b * bs)) else None)"

fun backed_image :: "bb_source \<Rightarrow> nat \<Rightarrow> backed_block list \<Rightarrow> nat \<rightharpoonup> char" where
  "backed_image src bs [] = Map.empty"
| "backed_image src bs (b # l) = bb_map src bs b ++ backed_image src bs l"

lemma backed_image_append: "backed_image src bs (xs @ ys) = backed_image src bs xs ++ backed_image src bs ys"
  by (induction xs) simp_all

lemma dom_bb_map:
  assumes "0 < bs" shows "dom (bb_map src bs b) \<subseteq> {bb_block b * bs ..< bb_end bs b * bs}"
  using bb_len_le [OF assms, of b] by (auto simp: bb_map_def split: if_splits)

lemma dom_image: "dom (backed_image src bs l) = (\<Union>b \<in> set l. dom (bb_map src bs b))"
  by (induction l) auto

lemma bb_map_disjoint:
  assumes "0 < bs" "bb_end bs a \<le> bb_block b" shows "dom (bb_map src bs a) \<inter> dom (bb_map src' bs b) = {}"
proof -
  have "bb_end bs a * bs \<le> bb_block b * bs" using assms(2) by simp
  then have "{bb_block a * bs ..< bb_end bs a * bs} \<inter> {bb_block b * bs ..< bb_end bs b * bs} = {}"
    by (auto simp del: mult_le_cancel2 mult_less_cancel2)
  then show ?thesis using dom_bb_map [OF assms(1), of src a] dom_bb_map [OF assms(1), of src' b] by blast
qed

lemma image_insert:
  assumes "0 < bs" "\<forall>c \<in> set ys. bb_end bs b \<le> bb_block c"
  shows "backed_image src bs (xs @ b # ys) = backed_image src bs (xs @ ys) ++ bb_map src bs b"
proof -
  have "dom (bb_map src bs b) \<inter> dom (backed_image src bs ys) = {}"
    using bb_map_disjoint [OF assms(1)] assms(2) unfolding dom_image by blast
  then have "bb_map src bs b ++ backed_image src bs ys = backed_image src bs ys ++ bb_map src bs b" by (rule map_add_comm)
  then show ?thesis by (simp add: backed_image_append)
qed

lemma fill_byte_shift: "fill_byte v (4 * k + i) = fill_byte v i"
  by (simp add: fill_byte_def)

lemma bb_map_merge:
  assumes "4 dvd bs" "0 < bb_len b" "bb_len a = (bb_block b - bb_block a) * bs" "bb_block a < bb_block b"
    "mergeable (bb_len a) (bb_content a) (bb_content b)"
  shows "bb_map src bs (a\<lparr>bb_len := bb_len a + bb_len b\<rparr>) = bb_map src bs a ++ bb_map src bs b"
proof
  fix pos
  have start: "bb_block a * bs + bb_len a = bb_block b * bs"
    using assms(3,4) by (simp add: diff_mult_distrib)
  have byte: "bb_byte src (bb_content a) (bb_len a + i) = bb_byte src (bb_content b) i" for i
  proof -
    obtain k where "bb_len a = 4 * k" using assms(1,3) by (metis dvdE dvd_mult)
    then show ?thesis using assms(5) fill_byte_shift [of _ k i]
      by (auto simp: mergeable_def add.assoc [symmetric] split: bb_content.splits)
  qed
  define A B where "A = bb_block a * bs" and "B = bb_block b * bs"
  note [simp] = A_def [symmetric] B_def [symmetric]
  have B: "B = A + bb_len a" using start by simp
  have at_b: "bb_byte src (bb_content a) (pos - A) = bb_byte src (bb_content b) (pos - B)" if "B \<le> pos"
  proof -
    have "pos - A = bb_len a + (pos - B)" using that B by simp
    then show ?thesis using byte [of "pos - B"] by simp
  qed
  show "bb_map src bs (a\<lparr>bb_len := bb_len a + bb_len b\<rparr>) pos = (bb_map src bs a ++ bb_map src bs b) pos"
    using at_b B by (simp add: bb_map_def map_add_def split: option.split)
qed

section \<open>Queueing keeps the list well formed\<close>

lemma walk_split:
  assumes "walk blk l = (p, r)" "l \<noteq> []" "sorted_wrt (\<lambda>a b. bb_block a \<le> bb_block b) l"
  shows "l = p @ r \<and> p \<noteq> [] \<and> hd p = hd l \<and> (\<forall>b \<in> set (tl p). bb_block b < blk) \<and> (\<forall>b \<in> set r. blk \<le> bb_block b)"
  using assms
proof (induction blk l arbitrary: p rule: walk.induct)
  case (3 blk b c cs)
  show ?case
  proof (cases "bb_block c < blk")
    case True
    obtain p' where w: "walk blk (c # cs) = (p', r)" and p: "p = b # p'"
      using 3(2) True by (auto split: prod.splits)
    have srt: "sorted_wrt (\<lambda>a b. bb_block a \<le> bb_block b) (c # cs)" using 3(4) by simp
    note ih = 3(1) [OF True w list.distinct(2) srt]
    obtain h q where h: "p' = h # q" using ih by (cases p') blast+
    have q: "p' = c # q" using ih unfolding h list.sel by blast
    show ?thesis using ih unfolding p q list.sel append_Cons list.inject set_simps using True by blast
  next
    case False
    then have "blk \<le> bb_block c" by simp
    with 3(2,4) False show ?thesis by (auto dest!: bspec intro: order_trans)
  qed
qed auto

lemma packed_sorted:
  assumes "0 < bs" "packed bs l" shows "sorted_wrt (\<lambda>a b. bb_block a \<le> bb_block b) l"
  using assms(2)
proof (induction l)
  case (Cons b l)
  then show ?case using bb_end_gt [OF assms(1), of b] unfolding packed_Cons by fastforce
qed simp

lemma packed_insert:
  assumes "0 < bs" "packed bs (xs @ ys)" "bb_ok bs b" "fits bs b (xs @ ys)"
    "\<forall>a \<in> set xs. bb_block a \<le> bb_block b" "\<forall>c \<in> set ys. bb_block b \<le> bb_block c"
  shows "packed bs (xs @ b # ys)"
proof -
  have gt: "bb_block b < bb_end bs b" by (rule bb_end_gt [OF assms(1,3)])
  have xs: "bb_end bs a \<le> bb_block b" if "a \<in> set xs" for a
  proof -
    have "bb_end bs a \<le> bb_block b \<or> bb_end bs b \<le> bb_block a"
      using assms(4) that by (simp add: fits_def list_all_iff)
    then show ?thesis using assms(5) that gt by fastforce
  qed
  have ys: "bb_end bs b \<le> bb_block c" if c: "c \<in> set ys" for c
  proof -
    have "bb_end bs c \<le> bb_block b \<or> bb_end bs b \<le> bb_block c"
      using assms(4) c by (simp add: fits_def list_all_iff)
    moreover have "bb_ok bs c" using assms(2) c by (auto simp: packed_def list_all_iff)
    then have "bb_block c < bb_end bs c" by (rule bb_end_gt [OF assms(1)])
    ultimately show ?thesis using assms(6) c by fastforce
  qed
  show ?thesis using assms(2,3) xs ys unfolding packed_append packed_Cons by auto
qed

text \<open>Two neighbours of a well-formed list that merge leave it well formed, with the same image.\<close>

lemma merge_packed:
  assumes "0 < bs" "4 dvd bs" "packed bs (xs @ a # b # ys)" "merge_bb bs a b = r"
  obtains "r = Inr None"
  | m where "r = Inr (Some m)" "packed bs (xs @ m # ys)" "bb_block m = bb_block a" "bb_addr m = bb_addr a"
    "backed_image src bs (xs @ m # ys) = backed_image src bs (xs @ a # b # ys)"
proof -
  have ok: "bb_ok bs a" "bb_ok bs b" "bb_end bs a \<le> bb_block b"
    using assms(3) unfolding packed_append packed_Cons by auto
  show thesis
  proof (rule merge_bb_cases [OF assms(1) ok assms(4)])
    assume "r = Inr None" then show thesis by (rule that(1))
  next
    let ?m = "a\<lparr>bb_len := bb_len a + bb_len b\<rparr>"
    assume m: "r = Inr (Some ?m)" "mergeable (bb_len a) (bb_content a) (bb_content b)"
      "bb_len a = (bb_block b - bb_block a) * bs" "bb_end bs a = bb_block b" "bb_end bs ?m = bb_end bs b"
    have lt: "bb_block a < bb_block b" using bb_end_gt [OF assms(1) ok(1)] m(4) by simp
    have len: "0 < bb_len b" using ok(2) by (simp add: bb_ok_def)
    have okm: "bb_ok bs ?m" using ok(2) m(5) by (simp add: bb_ok_def)
    have "packed bs (xs @ ?m # ys)" using assms(3) m(5) okm unfolding packed_append packed_Cons by auto
    moreover have "backed_image src bs (xs @ ?m # ys) = backed_image src bs (xs @ a # b # ys)"
      using bb_map_merge [OF assms(2) len m(3) lt m(2), of src] by (simp add: backed_image_append)
    ultimately show thesis using that(2) [OF m(1)] by simp
  qed
qed

lemma position_nth: "position a l = Some i \<Longrightarrow> i < length l \<and> bb_addr (l ! i) = a"
  by (induction l arbitrary: i) (auto split: if_splits)

lemma start_index_below:
  assumes "start_index bbl b = Inr i" "data_blocks bbl = c # cs" "bb_block c \<le> bb_block b"
  shows "i < length (c # cs) \<and> bb_block ((c # cs) ! i) \<le> bb_block b"
  using assms position_nth
  by (fastforce simp: start_index_def split: option.splits if_splits)

lemma insert_point:
  assumes "0 < bs" "packed bs l" "i < length l" "bb_block (l ! i) \<le> blk" "walk blk (drop i l) = (p, r)"
  shows "l = (take i l @ p) @ r" "p \<noteq> []" "\<forall>a \<in> set (take i l @ p). bb_block a \<le> blk" "\<forall>c \<in> set r. blk \<le> bb_block c"
proof -
  have srt: "sorted_wrt (\<lambda>a b. bb_block a \<le> bb_block b) l" by (rule packed_sorted [OF assms(1,2)])
  have d: "drop i l \<noteq> []" "sorted_wrt (\<lambda>a b. bb_block a \<le> bb_block b) (drop i l)"
    using assms(3) srt by (simp_all add: sorted_wrt_drop)
  note w = walk_split [OF assms(5) d]
  then show "l = (take i l @ p) @ r" using append_take_drop_id [of i l] by simp
  from w show "p \<noteq> []" "\<forall>c \<in> set r. blk \<le> bb_block c" by blast+
  have "hd p = hd (drop i l)" using w by blast
  then have hd: "hd p = l ! i" using hd_drop_conv_nth [OF assms(3)] by (rule trans)
  have tl: "bb_block a < blk" if "a \<in> set (tl p)" for a using w that by blast
  have "set p = insert (hd p) (set (tl p))" using \<open>p \<noteq> []\<close> by (cases p) simp_all
  then have p: "\<forall>a \<in> set p. bb_block a \<le> blk" using tl hd assms(4) by (auto intro: less_imp_le)
  have "bb_block a \<le> blk" if a: "a \<in> set (take i l)" for a
  proof -
    obtain j where "j < length (take i l)" "take i l ! j = a" using a unfolding in_set_conv_nth by blast
    then have j: "j < i" "a = l ! j" by auto
    then have "bb_block a \<le> bb_block (l ! i)" using srt assms(3) by (simp add: sorted_wrt_iff_nth_less)
    then show ?thesis using assms(4) by simp
  qed
  with p show "\<forall>a \<in> set (take i l @ p). bb_block a \<le> blk" by auto
qed

lemma merge_next_packed:
  assumes "0 < bs" "4 dvd bs" "packed bs (xs @ b # r)"
  obtains m r' where "merge_next bs b r = Inr (m, r')" "packed bs (xs @ m # r')"
    "backed_image src bs (xs @ m # r') = backed_image src bs (xs @ b # r)" "bb_addr m = bb_addr b"
proof (cases r)
  case Nil then show ?thesis using that [of b "[]"] assms(3) by (simp add: merge_next_def)
next
  case (Cons c cs)
  show ?thesis
  proof (rule merge_packed [OF assms(1,2) assms(3) [unfolded Cons] refl, where src = src])
    assume "merge_bb bs b c = Inr None"
    then show thesis using that [of b "c # cs"] assms(3) Cons by (simp add: merge_next_def)
  next
    fix m
    assume "merge_bb bs b c = Inr (Some m)" "packed bs (xs @ m # cs)" "bb_addr m = bb_addr b"
      "backed_image src bs (xs @ m # cs) = backed_image src bs (xs @ b # c # cs)"
    then show thesis using that [of m cs] Cons by (simp add: merge_next_def)
  qed
qed

lemma merge_prev_packed:
  assumes "0 < bs" "4 dvd bs" "packed bs (xs @ m # r)" "xs \<noteq> []"
  obtains l where "merge_prev bs xs m = Inr l" "packed bs (l @ r)"
    "backed_image src bs (l @ r) = backed_image src bs (xs @ m # r)"
proof -
  obtain ys a where xs: "xs = ys @ [a]" using assms(4) by (metis append_butlast_last_id)
  have pk: "packed bs (ys @ a # m # r)" using assms(3) xs by simp
  show thesis
  proof (rule merge_packed [OF assms(1,2) pk refl, where src = src])
    assume "merge_bb bs a m = Inr None"
    then show thesis using that [of "xs @ [m]"] assms(3) xs by (simp add: merge_prev_def)
  next
    fix n
    assume "merge_bb bs a m = Inr (Some n)" "packed bs (ys @ n # r)"
      "backed_image src bs (ys @ n # r) = backed_image src bs (ys @ a # m # r)"
    then show thesis using that [of "ys @ [n]"] xs by (simp add: merge_prev_def)
  qed
qed

lemma queue_bb_packed:
  assumes "0 < bbl_block_size bbl" "4 dvd bbl_block_size bbl" "packed (bbl_block_size bbl) (data_blocks bbl)"
    "bb_ok (bbl_block_size bbl) b" "fits (bbl_block_size bbl) b (data_blocks bbl)" "start_index bbl b = Inr i"
  obtains bbl' where "queue_bb bbl b = Inr bbl'" "bbl_block_size bbl' = bbl_block_size bbl"
    "packed (bbl_block_size bbl) (data_blocks bbl')"
    "backed_image src (bbl_block_size bbl) (data_blocks bbl') =
       backed_image src (bbl_block_size bbl) (data_blocks bbl) ++ bb_map src (bbl_block_size bbl) b"
proof (cases "data_blocks bbl")
  case Nil
  then show ?thesis using that [of "bbl\<lparr>data_blocks := [b]\<rparr>"] assms(4)
    by (simp add: queue_bb_def packed_def)
next
  case (Cons c cs)
  let ?bs = "bbl_block_size bbl" and ?l = "data_blocks bbl"
  show ?thesis
  proof (cases "bb_block b < bb_block c")
    case True
    have srt: "\<forall>d \<in> set ?l. bb_block b \<le> bb_block d"
      using packed_sorted [OF assms(1,3)] True Cons by (auto intro: less_imp_le order_trans)
    have pk: "packed ?bs (b # ?l)" using packed_insert [of ?bs "[]" ?l b] assms srt by simp
    then have "\<forall>d \<in> set ?l. bb_end ?bs b \<le> bb_block d" unfolding packed_Cons by simp
    from image_insert [OF assms(1) this, of src "[]"] pk True Cons show ?thesis
      using that [of "bbl\<lparr>data_blocks := b # ?l\<rparr>"] by (simp add: queue_bb_def)
  next
    case False
    then have below: "i < length ?l \<and> bb_block (?l ! i) \<le> bb_block b"
      using start_index_below [OF assms(6) Cons] unfolding Cons by simp
    obtain p r where w: "walk (bb_block b) (drop i ?l) = (p, r)" by (cases "walk (bb_block b) (drop i ?l)")
    define xs where "xs = take i ?l @ p"
    note ip = insert_point [OF assms(1,3) conjunct1 [OF below] conjunct2 [OF below] w, folded xs_def]
    have ne: "xs \<noteq> []" using ip(2) by (simp add: xs_def)
    have pk: "packed ?bs (xs @ b # r)"
      using packed_insert [OF assms(1) _ assms(4) _ ip(3,4)] assms(3,5) unfolding ip(1) [symmetric] by simp
    have after: "\<forall>d \<in> set r. bb_end ?bs b \<le> bb_block d" using pk unfolding packed_append packed_Cons by simp
    obtain m r' where n: "merge_next ?bs b r = Inr (m, r')" "packed ?bs (xs @ m # r')"
      "backed_image src ?bs (xs @ m # r') = backed_image src ?bs (xs @ b # r)"
      by (rule merge_next_packed [OF assms(1,2) pk])
    obtain l where v: "merge_prev ?bs xs m = Inr l" "packed ?bs (l @ r')"
      "backed_image src ?bs (l @ r') = backed_image src ?bs (xs @ m # r')"
      by (rule merge_prev_packed [OF assms(1,2) n(2) ne])
    have "queue_bb bbl b = Inr (bbl\<lparr>data_blocks := l @ r', last_used := Some (bb_addr b)\<rparr>)"
      using w n(1) v(1) False assms(6) Cons unfolding queue_bb_def xs_def by simp
    then show ?thesis
      using that v(2,3) n(3) image_insert [OF assms(1) after, of src xs] ip(1) by simp
  qed
qed

text \<open>
  C9: queueing a block that overlaps no block of a well-formed list succeeds, whichever block the search
  starts from and whatever it merges, gives a well-formed list, and its image is that of the list with the
  bytes of the block added.
\<close>

theorem queue_bb_well_formed:
  assumes "0 < bbl_block_size bbl" "4 dvd bbl_block_size bbl" "packed (bbl_block_size bbl) (data_blocks bbl)"
    "bb_ok (bbl_block_size bbl) b" "fits (bbl_block_size bbl) b (data_blocks bbl)" "start_index bbl b = Inr i"
  shows "\<exists>bbl'. queue_bb bbl b = Inr bbl' \<and> bbl_block_size bbl' = bbl_block_size bbl
    \<and> packed (bbl_block_size bbl) (data_blocks bbl')
    \<and> backed_image src (bbl_block_size bbl) (data_blocks bbl') =
        backed_image src (bbl_block_size bbl) (data_blocks bbl) ++ bb_map src (bbl_block_size bbl) b"
  by (rule queue_bb_packed [OF assms, where src = src]) blast

definition fill_at :: "nat \<Rightarrow> nat \<Rightarrow> u32 \<Rightarrow> backed_block" where
  "fill_at a blk v = \<lparr>bb_addr = a, bb_block = blk, bb_len = 4096, bb_content = BACKED_BLOCK_FILL v\<rparr>"

theorem queue_bb_well_formed_witness:
  "\<exists>bbl'. queue_bb \<lparr>data_blocks = [fill_at 1 0 7, fill_at 2 2 7], last_used = Some 1, bbl_block_size = 4096\<rparr> (fill_at 3 1 7) = Inr bbl'
    \<and> packed 4096 (data_blocks bbl')"
  using queue_bb_well_formed [of "\<lparr>data_blocks = [fill_at 1 0 7, fill_at 2 2 7], last_used = Some 1, bbl_block_size = 4096\<rparr>"
      "fill_at 3 1 7" 0]
  by (auto simp: packed_def bb_ok_def bb_end_def DIV_ROUND_UP_def fits_def fill_at_def start_index_def)

text \<open>
  C21: the pointer to the block queued last is kept when that block is merged into the one before it and
  freed. So of three fills of one value for three blocks in a row, queued one after the other, the third
  reads the freed block.
\<close>

theorem last_used_dangles:
  assumes "0 < bs" "(blk + 3) * bs < 2 ^ 32" "distinct [a1, a2, a3]"
  shows "\<exists>l1 l2. backed_block_add_fill (Some a1) (backed_block_list_new bs) v bs blk = Inr (0, l1)
    \<and> backed_block_add_fill (Some a2) l1 v bs (blk + 1) = Inr (0, l2)
    \<and> backed_block_add_fill (Some a3) l2 v bs (blk + 2) = Inl Bad_pointer"
proof -
  define l1 where "l1 = \<lparr>data_blocks = [\<lparr>bb_addr = a1, bb_block = blk, bb_len = bs, bb_content = BACKED_BLOCK_FILL v\<rparr>],
      last_used = None, bbl_block_size = bs\<rparr>"
  define l2 where "l2 = \<lparr>data_blocks = [\<lparr>bb_addr = a1, bb_block = blk, bb_len = bs + bs, bb_content = BACKED_BLOCK_FILL v\<rparr>],
      last_used = Some a2, bbl_block_size = bs\<rparr>"
  note defs = backed_block_add_fill_def add_block_def queue_bb_def start_index_def
  have "blk + 3 \<le> (blk + 3) * bs" using assms(1) by simp
  then have lim: "blk + 3 < 2 ^ 32" using assms(2) by linarith
  have "2 * bs \<le> (blk + 3) * bs" by (rule mult_le_mono1) simp
  then have two: "bs + bs < 2 ^ 32" using assms(2) by linarith
  have "backed_block_add_fill (Some a1) (backed_block_list_new bs) v bs blk = Inr (0, l1)"
    by (simp add: defs backed_block_list_new_def l1_def)
  moreover have "backed_block_add_fill (Some a2) l1 v bs (blk + 1) = Inr (0, l2)"
    using assms(1) lim two
    by (simp add: l1_def l2_def defs merge_next_def merge_prev_def merge_bb_def mergeable_def u32_add_def)
  moreover have "backed_block_add_fill (Some a3) l2 v bs (blk + 2) = Inl Bad_pointer"
    using assms(3) by (simp add: l2_def defs)
  ultimately show ?thesis by blast
qed

theorem last_used_dangles_witness:
  "\<exists>l1 l2. backed_block_add_fill (Some 1) (backed_block_list_new 4096) 0 4096 5 = Inr (0, l1)
    \<and> backed_block_add_fill (Some 2) l1 0 4096 6 = Inr (0, l2)
    \<and> backed_block_add_fill (Some 3) l2 0 4096 7 = Inl Bad_pointer"
  using last_used_dangles [of 4096 5 1 2 3 0] by simp

section \<open>Splitting\<close>

definition bb_sized :: "backed_block \<Rightarrow> bool" where
  "bb_sized b = (case bb_content b of BACKED_BLOCK_DATA d \<Rightarrow> bb_len b \<le> length d | _ \<Rightarrow> True)"

lemma split_content_byte:
  assumes "4 dvd n" "bb_sized b" "n + i < bb_len b"
  shows "bb_byte src (split_content n (bb_content b)) i = bb_byte src (bb_content b) (n + i)"
proof -
  obtain k where "n = 4 * k" using assms(1) by (rule dvdE)
  then show ?thesis using assms(2,3) fill_byte_shift [of _ k i]
    by (cases "bb_content b") (auto simp: bb_sized_def add.assoc)
qed

lemma split_bb_map:
  assumes "0 < bs" "4 dvd bs" "bb_sized b" "k * bs < bb_len b"
  shows "bb_map src bs (b\<lparr>bb_len := k * bs\<rparr>)
      ++ bb_map src bs \<lparr>bb_addr = a, bb_block = bb_block b + k, bb_len = bb_len b - k * bs, bb_content = split_content (k * bs) (bb_content b)\<rparr>
    = bb_map src bs b" (is "?l ++ ?r = _")
proof
  fix pos
  define A n where "A = bb_block b * bs" and "n = k * bs"
  have E: "(bb_block b + k) * bs = A + n" by (simp add: A_def n_def algebra_simps)
  have n: "4 dvd n" "n < bb_len b" using assms(2,4) by (simp_all add: n_def)
  show "(?l ++ ?r) pos = bb_map src bs b pos"
  proof (cases "A + n \<le> pos \<and> pos < A + bb_len b")
    case True
    then have "n + (pos - (A + n)) < bb_len b" "n + (pos - (A + n)) = pos - A" using n(2) by auto
    from split_content_byte [OF n(1) assms(3) this(1), of src] this(2) True n(2) show ?thesis
      by (simp add: map_add_def bb_map_def E flip: A_def n_def)
  next
    case False
    with n(2) show ?thesis by (auto simp: map_add_def bb_map_def E simp flip: A_def n_def)
  qed
qed

lemma split_packed:
  assumes "0 < bs" "packed bs (xs @ b # ys)" "0 < k" "k * bs < bb_len b"
  shows "packed bs (xs @ b\<lparr>bb_len := k * bs\<rparr> # \<lparr>bb_addr = a, bb_block = bb_block b + k, bb_len = bb_len b - k * bs, bb_content = c\<rparr> # ys)"
proof -
  let ?b = "b\<lparr>bb_len := k * bs\<rparr>" and ?c = "\<lparr>bb_addr = a, bb_block = bb_block b + k, bb_len = bb_len b - k * bs, bb_content = c\<rparr>"
  have eb: "bb_end bs ?b = bb_block b + k" using assms(1) by (simp add: bb_end_def)
  have "DIV_ROUND_UP (bb_len b) bs = (k * bs + (bb_len b - k * bs + bs - 1)) div bs"
    using assms(1,4) by (simp add: DIV_ROUND_UP_def)
  also have "\<dots> = k + DIV_ROUND_UP (bb_len b - k * bs) bs"
    unfolding DIV_ROUND_UP_def by (rule div_mult_self3) (use assms(1) in simp)
  finally have ec: "bb_end bs ?c = bb_end bs b" by (simp add: bb_end_def)
  have okb: "bb_ok bs b" using assms(2) unfolding packed_append packed_Cons by simp
  have okc: "bb_ok bs ?c" using okb ec assms(4) by (simp add: bb_ok_def)
  have le: "bb_block b + k \<le> bb_end bs b" using bb_end_gt [OF assms(1) okc] ec by simp
  then have "(bb_block b + k) * bs \<le> bb_end bs b * bs" by (rule mult_le_mono1)
  moreover have "bb_end bs b * bs < 2 ^ 32" using okb by (simp add: bb_ok_def)
  ultimately have "bb_end bs ?b * bs < 2 ^ 32" unfolding eb by (rule le_less_trans)
  then have okb': "bb_ok bs ?b" using assms(1,3) by (simp add: bb_ok_def)
  show ?thesis using assms(2) okb' okc eb ec le unfolding packed_append packed_Cons by force
qed

text \<open>
  C40: splitting a block of a well-formed list at a positive number of blocks, the new structure being
  allocated, keeps the list well formed and its image, and no block is left longer than the limit but the
  second part.
\<close>

theorem split_keeps_image:
  assumes "0 < bbl_block_size bbl" "4 dvd bbl_block_size bbl" "packed (bbl_block_size bbl) (data_blocks bbl)"
    "i < length (data_blocks bbl)" "bb_sized (data_blocks bbl ! i)" "bbl_block_size bbl \<le> max_len"
  shows "\<exists>bbl'. backed_block_split (Some a) bbl i max_len = Inr bbl'
    \<and> packed (bbl_block_size bbl) (data_blocks bbl') \<and> bb_len (data_blocks bbl' ! i) \<le> max_len
    \<and> backed_image src (bbl_block_size bbl) (data_blocks bbl') = backed_image src (bbl_block_size bbl) (data_blocks bbl)"
proof -
  let ?bs = "bbl_block_size bbl" and ?l = "data_blocks bbl" and ?b = "data_blocks bbl ! i"
  define k where "k = max_len div ?bs"
  have k: "0 < k" "ALIGN_DOWN max_len ?bs = k * ?bs" "k * ?bs \<le> max_len"
    using assms(1,6) by (simp_all add: k_def ALIGN_DOWN_def div_greater_zero_iff mult.commute)
  have l: "?l = take i ?l @ ?b # drop (Suc i) ?l" using assms(4) by (rule id_take_nth_drop)
  show ?thesis
  proof (cases "bb_len ?b \<le> k * ?bs")
    case True
    then have "backed_block_split (Some a) bbl i max_len = Inr bbl"
      using assms(1) k(2) by (simp add: backed_block_split_def Let_def)
    with True k(3) assms(3) show ?thesis by simp
  next
    case False
    then have lt: "k * ?bs < bb_len ?b" by simp
    let ?c = "\<lparr>bb_addr = a, bb_block = bb_block ?b + k, bb_len = bb_len ?b - k * ?bs, bb_content = split_content (k * ?bs) (bb_content ?b)\<rparr>"
    define m where "m = take i ?l @ ?b\<lparr>bb_len := k * ?bs\<rparr> # ?c # drop (Suc i) ?l"
    have pk: "packed ?bs m"
      unfolding m_def by (rule split_packed [OF assms(1) _ k(1) lt]) (use assms(3) l in simp)
    have "bb_ok ?bs ?c" using pk unfolding m_def packed_append packed_Cons by simp
    then have "bb_block ?b + k < bb_end ?bs ?c" using bb_end_gt [OF assms(1), of ?c] by simp
    moreover have "bb_end ?bs ?c \<le> bb_end ?bs ?c * ?bs" using assms(1) by simp
    ultimately have "bb_block ?b + k < 2 ^ 32" using \<open>bb_ok ?bs ?c\<close> unfolding bb_ok_def by linarith
    then have "backed_block_split (Some a) bbl i max_len = Inr (bbl\<lparr>data_blocks := m\<rparr>)"
      using assms(1) k(2) lt by (simp add: backed_block_split_def Let_def m_def u32_add_def)
    moreover have "backed_image src ?bs m = backed_image src ?bs (take i ?l @ ?b # drop (Suc i) ?l)"
      using split_bb_map [OF assms(1,2,5) lt, of src a] by (simp add: m_def backed_image_append)
    moreover have "bb_len (m ! i) \<le> max_len" using assms(4) k(3) by (simp add: m_def nth_append)
    ultimately show ?thesis using pk l by simp
  qed
qed

theorem split_keeps_image_witness:
  "\<exists>bbl'. backed_block_split (Some 9) \<lparr>data_blocks = [(fill_at 1 0 7)\<lparr>bb_len := 12288\<rparr>], last_used = None, bbl_block_size = 4096\<rparr> 0 8200 = Inr bbl'
    \<and> bb_len (data_blocks bbl' ! 0) \<le> 8200"
  using split_keeps_image [of "\<lparr>data_blocks = [(fill_at 1 0 7)\<lparr>bb_len := 12288\<rparr>], last_used = None, bbl_block_size = 4096\<rparr>" 0 8200 9]
  by (auto simp: packed_def bb_ok_def bb_end_def DIV_ROUND_UP_def fill_at_def bb_sized_def)

text \<open>
  the two parts of a split file block share the duplicated name, so that destroying the list frees
  the name twice.
\<close>

theorem split_frees_twice:
  assumes "bb_content (data_blocks bbl ! i) = BACKED_BLOCK_FILE p nm off" "i < length (data_blocks bbl)"
    "0 < bbl_block_size bbl" "ALIGN_DOWN max_len (bbl_block_size bbl) < bb_len (data_blocks bbl ! i)"
    "backed_block_split (Some a) bbl i max_len = Inr bbl'"
  shows "\<not> distinct (backed_block_list_destroy bbl')"
proof -
  have "\<exists>blk len. data_blocks bbl' = take i (data_blocks bbl)
      @ (data_blocks bbl ! i)\<lparr>bb_len := ALIGN_DOWN max_len (bbl_block_size bbl)\<rparr>
      # \<lparr>bb_addr = a, bb_block = blk, bb_len = len, bb_content = BACKED_BLOCK_FILE p nm (off + int (ALIGN_DOWN max_len (bbl_block_size bbl)))\<rparr>
      # drop (Suc i) (data_blocks bbl)"
    using assms(1,3-5) by (auto simp: backed_block_split_def Let_def)
  then show ?thesis using assms(1) by (auto simp: backed_block_list_destroy_def backed_block_destroy_def)
qed

definition file_list :: backed_block_list where
  "file_list = \<lparr>data_blocks = [\<lparr>bb_addr = 1, bb_block = 0, bb_len = 8192, bb_content = BACKED_BLOCK_FILE 5 ''a'' 0\<rparr>],
     last_used = None, bbl_block_size = 4096\<rparr>"

theorem split_frees_twice_witness:
  "case backed_block_split (Some 2) file_list 0 4096 of Inl _ \<Rightarrow> False | Inr l \<Rightarrow> \<not> distinct (backed_block_list_destroy l)"
  using split_frees_twice [of file_list 0 5 "''a''" 0 4096 2]
  by (simp add: file_list_def backed_block_split_def ALIGN_DOWN_def Let_def)

end
