(* ===== verification/Output_File.thy ===== *)
theory Output_File
  imports Backed_Block
begin

text \<open>
  The writers of \<^verbatim>\<open>libsparse/output_file.c\<close>: the two tables of operations, for a descriptor and for a
  callback, and the two tables of chunk writers, for a sparse and for a raw image. The table for gzip
  files calls zlib and is not modelled. The block size is positive: the callers in \<^verbatim>\<open>sparse.c\<close> divide by
  it before they open a file.
\<close>

section \<open>Bytes\<close>

text \<open>An integer of \<open>n\<close> bytes in memory, lowest byte first.\<close>

fun le_str :: "nat \<Rightarrow> nat \<Rightarrow> string" where
  "le_str 0 x = []"
| "le_str (Suc n) x = char_of (x mod 256) # le_str n (x div 256)"

fun le_nat :: "string \<Rightarrow> nat" where
  "le_nat [] = 0"
| "le_nat (c # s) = of_char c + 256 * le_nat s"

lemma length_le_str [simp]: "length (le_str n x) = n"
  by (induction n arbitrary: x) auto

lemma le_nat_str: "le_nat (le_str n x) = x mod 256 ^ n"
  by (induction n arbitrary: x) (simp_all add: mod_mult2_eq)

text \<open>The rounding macros on unsigned integers, and division of 64-bit integers towards zero.\<close>

definition u32_DIV_ROUND_UP :: "nat \<Rightarrow> nat \<Rightarrow> nat" where
  "u32_DIV_ROUND_UP x y = ((x + y - 1) mod 2 ^ 32) div y"

definition u32_ALIGN :: "nat \<Rightarrow> nat \<Rightarrow> nat" where
  "u32_ALIGN x y = (y * u32_DIV_ROUND_UP x y) mod 2 ^ 32"

definition c_div :: "int \<Rightarrow> int \<Rightarrow> int" where
  "c_div a b = (if a < 0 then - (- a div b) else a div b)"

section \<open>Operations on a file\<close>

text \<open>
  The tables of operations: \<^verbatim>\<open>skip\<close>, \<^verbatim>\<open>pad\<close> and \<^verbatim>\<open>write\<close>, on the state that the structure around the common part
  keeps. \<^verbatim>\<open>write\<close> takes the bytes that the pointer and the length name.
\<close>

record 'p output_file_ops =
  op_skip :: "int \<Rightarrow> 'p \<Rightarrow> int \<times> 'p"
  op_pad :: "int \<Rightarrow> 'p \<Rightarrow> int \<times> 'p"
  op_write :: "string \<Rightarrow> 'p \<Rightarrow> int \<times> 'p"

text \<open>
  An open file: its bytes, its size, the position, and the answers of the system to the calls on it, an
  error number or the count of bytes that a write may transfer.
\<close>

record out_fd =
  fd_data :: "nat \<Rightarrow> char"
  fd_size :: nat
  fd_pos :: nat
  fd_calls :: nat
  fd_answers :: "nat \<Rightarrow> int + nat"

definition fd_char :: "out_fd \<Rightarrow> nat \<Rightarrow> char" where
  "fd_char f i = (if i < fd_size f then fd_data f i else NUL)"

definition MAX_RW_COUNT :: nat where "MAX_RW_COUNT = 0x7ffff000"

definition EINVAL :: int where "EINVAL = 22"

definition fd_store :: "string \<Rightarrow> out_fd \<Rightarrow> out_fd" where
  "fd_store d f =
     f\<lparr>fd_data := (\<lambda>i. if fd_pos f \<le> i \<and> i < fd_pos f + length d then d ! (i - fd_pos f) else fd_char f i),
       fd_size := (if d = [] then fd_size f else max (fd_size f) (fd_pos f + length d)),
       fd_pos := fd_pos f + length d\<rparr>"

definition fd_write :: "string \<Rightarrow> out_fd \<Rightarrow> int \<times> out_fd" where
  "fd_write d f =
     (let f' = f\<lparr>fd_calls := Suc (fd_calls f)\<rparr>
      in case fd_answers f (fd_calls f) of
           Inl e \<Rightarrow> (- 1, f')
         | Inr n \<Rightarrow> let m = min n (min (length d) MAX_RW_COUNT) in (int m, fd_store (take m d) f'))"

definition file_skip :: "int \<Rightarrow> out_fd \<Rightarrow> int \<times> out_fd" where
  "file_skip cnt f =
     (let f' = f\<lparr>fd_calls := Suc (fd_calls f)\<rparr>
      in case fd_answers f (fd_calls f) of
           Inl e \<Rightarrow> (- 1, f')
         | Inr _ \<Rightarrow> if int (fd_pos f) + cnt < 0 then (- 1, f') else (0, f'\<lparr>fd_pos := nat (int (fd_pos f) + cnt)\<rparr>))"

definition file_pad :: "int \<Rightarrow> out_fd \<Rightarrow> int \<times> out_fd" where
  "file_pad len f =
     (let f' = f\<lparr>fd_calls := Suc (fd_calls f)\<rparr>
      in case fd_answers f (fd_calls f) of
           Inl e \<Rightarrow> (- e, f')
         | Inr _ \<Rightarrow> if len < 0 then (- EINVAL, f') else (0, f'\<lparr>fd_data := fd_char f, fd_size := nat len\<rparr>))"

definition file_write :: "string \<Rightarrow> out_fd \<Rightarrow> int \<times> out_fd" where
  "file_write d f = (case fd_write d f of (ret, f') \<Rightarrow> if ret < 0 then (- 1, f') else if ret < c_int (length d) then (- 1, f') else (0, f'))"

definition file_ops :: "out_fd output_file_ops" where
  "file_ops = \<lparr>op_skip = file_skip, op_pad = file_pad, op_write = file_write\<rparr>"

text \<open>The operations that hand everything to a callback; a NULL buffer asks for a hole.\<close>

type_synonym 'p callback = "string option \<Rightarrow> int \<Rightarrow> 'p \<Rightarrow> int \<times> 'p"

function callback_file_skip :: "'p callback \<Rightarrow> int \<Rightarrow> 'p \<Rightarrow> int \<times> 'p" where
  "callback_file_skip cb off p =
     (if off > 0 then
        let to_write = min off (int INT_MAX)
        in case cb None to_write p of
             (ret, p') \<Rightarrow> if ret < 0 then (ret, p') else callback_file_skip cb (off - to_write) p'
      else (0, p))"
  by pat_completeness auto
termination by (relation "measure (\<lambda>(cb, off, p). nat off)") (auto simp: INT_MAX_def)

declare callback_file_skip.simps [simp del]

definition callback_file_pad :: "int \<Rightarrow> 'p \<Rightarrow> int \<times> 'p" where
  "callback_file_pad len p = (- 1, p)"

definition callback_file_write :: "'p callback \<Rightarrow> string \<Rightarrow> 'p \<Rightarrow> int \<times> 'p" where
  "callback_file_write cb d p = cb (Some d) (c_int (length d)) p"

definition callback_file_ops :: "'p callback \<Rightarrow> 'p output_file_ops" where
  "callback_file_ops cb = \<lparr>op_skip = callback_file_skip cb, op_pad = callback_file_pad, op_write = callback_file_write cb\<rparr>"

section \<open>Chunk writers\<close>

text \<open>
  The common part. \<open>out_sparse\<close> tells which of the two tables of chunk writers is set; \<open>overrun\<close> is set when
  a write reads past the end of the buffer of zeros.
\<close>

record 'p output_file =
  cur_out_ptr :: int
  chunk_cnt :: nat
  out_crc32 :: u32
  ops :: "'p output_file_ops"
  out_sparse :: bool
  use_crc :: bool
  out_block_size :: nat
  out_len :: int
  fill_buf :: string
  priv :: 'p
  overrun :: bool

definition out_write :: "string \<Rightarrow> 'p output_file \<Rightarrow> int \<times> 'p output_file" where
  "out_write d out = (case op_write (ops out) d (priv out) of (ret, p) \<Rightarrow> (ret, out\<lparr>priv := p\<rparr>))"

definition out_skip :: "int \<Rightarrow> 'p output_file \<Rightarrow> int \<times> 'p output_file" where
  "out_skip n out = (case op_skip (ops out) n (priv out) of (ret, p) \<Rightarrow> (ret, out\<lparr>priv := p\<rparr>))"

definition CHUNK_TYPE_RAW :: nat where "CHUNK_TYPE_RAW = 0xCAC1"
definition CHUNK_TYPE_FILL :: nat where "CHUNK_TYPE_FILL = 0xCAC2"
definition CHUNK_TYPE_DONT_CARE :: nat where "CHUNK_TYPE_DONT_CARE = 0xCAC3"
definition CHUNK_TYPE_CRC32 :: nat where "CHUNK_TYPE_CRC32 = 0xCAC4"
definition SPARSE_HEADER_MAGIC :: nat where "SPARSE_HEADER_MAGIC = 0xed26ff3a"
definition SPARSE_HEADER_LEN :: nat where "SPARSE_HEADER_LEN = 28"
definition CHUNK_HEADER_LEN :: nat where "CHUNK_HEADER_LEN = 12"

text \<open>The two packed structures of the format as they are written.\<close>

definition chunk_header :: "nat \<Rightarrow> nat \<Rightarrow> nat \<Rightarrow> string" where
  "chunk_header chunk_type chunk_sz total_sz = le_str 2 chunk_type @ le_str 2 0 @ le_str 4 chunk_sz @ le_str 4 total_sz"

definition sparse_header :: "nat \<Rightarrow> nat \<Rightarrow> nat \<Rightarrow> string" where
  "sparse_header blk_sz total_blks total_chunks =
     le_str 4 SPARSE_HEADER_MAGIC @ le_str 2 1 @ le_str 2 0 @ le_str 2 SPARSE_HEADER_LEN @ le_str 2 CHUNK_HEADER_LEN
       @ le_str 4 blk_sz @ le_str 4 total_blks @ le_str 4 total_chunks @ le_str 4 0"

text \<open>Writes in a row; the first that fails ends it.\<close>

fun out_writes :: "string list \<Rightarrow> 'p output_file \<Rightarrow> bool \<times> 'p output_file" where
  "out_writes [] out = (True, out)"
| "out_writes (d # ds) out = (case out_write d out of (ret, out') \<Rightarrow> if ret < 0 then (False, out') else out_writes ds out')"

definition write_sparse_skip_chunk :: "int \<Rightarrow> 'p output_file \<Rightarrow> int \<times> 'p output_file" where
  "write_sparse_skip_chunk skip_len out =
     (if skip_len mod int (out_block_size out) \<noteq> 0 then (- 1, out)
      else
        case out_writes [chunk_header CHUNK_TYPE_DONT_CARE (nat (c_div skip_len (int (out_block_size out)) mod 2 ^ 32)) CHUNK_HEADER_LEN] out of
          (False, out') \<Rightarrow> (- 1, out')
        | (True, out') \<Rightarrow> (0, out'\<lparr>cur_out_ptr := cur_out_ptr out' + skip_len, chunk_cnt := u32_add (chunk_cnt out') 1\<rparr>))"

definition write_sparse_fill_chunk :: "nat \<Rightarrow> u32 \<Rightarrow> 'p output_file \<Rightarrow> int \<times> 'p output_file" where
  "write_sparse_fill_chunk len fill_val out =
     (let rnd_up_len = u32_ALIGN len (out_block_size out)
      in case out_writes [chunk_header CHUNK_TYPE_FILL (rnd_up_len div out_block_size out) (CHUNK_HEADER_LEN + 4), le_str 4 (unat fill_val)] out of
           (False, out') \<Rightarrow> (- 1, out')
         | (True, out') \<Rightarrow>
             (0, out'\<lparr>out_crc32 := (if use_crc out
                                   then ((\<lambda>crc. sparse_crc32 crc (le_str 4 (unat fill_val))) ^^ (out_block_size out div 4)) (out_crc32 out')
                                   else out_crc32 out'),
                      cur_out_ptr := cur_out_ptr out' + c_int rnd_up_len, chunk_cnt := u32_add (chunk_cnt out') 1\<rparr>))"

definition write_sparse_data_chunk :: "string \<Rightarrow> 'p output_file \<Rightarrow> int \<times> 'p output_file" where
  "write_sparse_data_chunk data out =
     (let len = length data; rnd_up_len = u32_ALIGN len (out_block_size out);
          zero_len = (rnd_up_len + 2 ^ 32 - len) mod 2 ^ 32; zeros = replicate zero_len NUL
      in case out_writes ([chunk_header CHUNK_TYPE_RAW (rnd_up_len div out_block_size out) (u32_add CHUNK_HEADER_LEN rnd_up_len), data]
                           @ (if zero_len = 0 then [] else [zeros])) out of
           (False, out') \<Rightarrow> (- 1, out')
         | (True, out') \<Rightarrow>
             (0, out'\<lparr>out_crc32 := (if use_crc out then (let crc = sparse_crc32 (out_crc32 out') data in if zero_len = 0 then crc else sparse_crc32 crc zeros)
                                   else out_crc32 out'),
                      cur_out_ptr := cur_out_ptr out' + c_int rnd_up_len, chunk_cnt := u32_add (chunk_cnt out') 1,
                      overrun := (overrun out' \<or> zero_len > out_block_size out)\<rparr>))"

text \<open>The result of the second write is not looked at.\<close>

definition write_sparse_end_chunk :: "'p output_file \<Rightarrow> int \<times> 'p output_file" where
  "write_sparse_end_chunk out =
     (if use_crc out then
        case out_write (chunk_header CHUNK_TYPE_CRC32 0 (CHUNK_HEADER_LEN + 4)) out of
          (ret, out1) \<Rightarrow>
            if ret < 0 then (ret, out1)
            else (case out_write (le_str 4 (unat (out_crc32 out1))) out1 of
                    (_, out2) \<Rightarrow> (0, out2\<lparr>chunk_cnt := u32_add (chunk_cnt out2) 1\<rparr>))
      else (0, out))"

definition write_normal_data_chunk :: "string \<Rightarrow> 'p output_file \<Rightarrow> int \<times> 'p output_file" where
  "write_normal_data_chunk data out =
     (let len = length data; rnd_up_len = u32_ALIGN len (out_block_size out)
      in case out_write data out of
           (ret, out') \<Rightarrow>
             if ret < 0 then (ret, out')
             else if rnd_up_len > len then out_skip (int (rnd_up_len - len)) out'
             else (ret, out'))"

text \<open>The loop of the fill writer; it ends because the block size is positive.\<close>

function normal_fill_loop :: "nat \<Rightarrow> 'p output_file \<Rightarrow> int \<times> 'p output_file" where
  "normal_fill_loop len out =
     (if len = 0 \<or> out_block_size out = 0 then (0, out)
      else
        let write_len = min len (out_block_size out)
        in case out_write (take write_len (fill_buf out)) out of
             (ret, out') \<Rightarrow> if ret < 0 then (ret, out') else normal_fill_loop (len - write_len) out')"
  by pat_completeness auto
termination by (relation "measure fst") auto

declare normal_fill_loop.simps [simp del]

definition write_normal_fill_chunk :: "nat \<Rightarrow> u32 \<Rightarrow> 'p output_file \<Rightarrow> int \<times> 'p output_file" where
  "write_normal_fill_chunk len fill_val out =
     (let n = out_block_size out div 4
      in normal_fill_loop len (out\<lparr>fill_buf := concat (replicate n (le_str 4 (unat fill_val))) @ drop (4 * n) (fill_buf out)\<rparr>))"

definition write_normal_skip_chunk :: "int \<Rightarrow> 'p output_file \<Rightarrow> int \<times> 'p output_file" where
  "write_normal_skip_chunk len out = out_skip len out"

definition write_normal_end_chunk :: "'p output_file \<Rightarrow> int \<times> 'p output_file" where
  "write_normal_end_chunk out = (case op_pad (ops out) (out_len out) (priv out) of (ret, p) \<Rightarrow> (ret, out\<lparr>priv := p\<rparr>))"

text \<open>The calls through the table.\<close>

definition write_data_chunk :: "string \<Rightarrow> 'p output_file \<Rightarrow> int \<times> 'p output_file" where
  "write_data_chunk data out = (if out_sparse out then write_sparse_data_chunk data out else write_normal_data_chunk data out)"

definition write_fill_chunk :: "nat \<Rightarrow> u32 \<Rightarrow> 'p output_file \<Rightarrow> int \<times> 'p output_file" where
  "write_fill_chunk len v out = (if out_sparse out then write_sparse_fill_chunk len v out else write_normal_fill_chunk len v out)"

definition write_skip_chunk :: "int \<Rightarrow> 'p output_file \<Rightarrow> int \<times> 'p output_file" where
  "write_skip_chunk len out = (if out_sparse out then write_sparse_skip_chunk len out else write_normal_skip_chunk len out)"

definition output_file_close :: "'p output_file \<Rightarrow> 'p" where
  "output_file_close out = priv (snd (if out_sparse out then write_sparse_end_chunk out else write_normal_end_chunk out))"

text \<open>
  Where the blocks come from: opening a named file, and mapping a part of a descriptor at an offset that
  is a multiple of the page: the error number, or the bytes, as many as asked for.
\<close>

record inputs =
  in_open :: "string \<Rightarrow> int + int"
  in_map :: "int \<Rightarrow> int \<Rightarrow> nat \<Rightarrow> int + string"

definition write_fd_chunk :: "inputs \<Rightarrow> nat \<Rightarrow> int \<Rightarrow> int \<Rightarrow> 'p output_file \<Rightarrow> int \<times> 'p output_file" where
  "write_fd_chunk inp len fd offset out =
     (let aligned_offset = 4096 * (offset div 4096); aligned_diff = nat (offset - aligned_offset);
          buffer_size = u32_add len aligned_diff
      in case in_map inp fd aligned_offset buffer_size of
           Inl e \<Rightarrow> (- e, out)
         | Inr data \<Rightarrow> write_data_chunk (take len (drop aligned_diff data)) out)"

definition write_file_chunk :: "inputs \<Rightarrow> nat \<Rightarrow> string \<Rightarrow> int \<Rightarrow> 'p output_file \<Rightarrow> int \<times> 'p output_file" where
  "write_file_chunk inp len file offset out =
     (case in_open inp file of Inl e \<Rightarrow> (- e, out) | Inr fd \<Rightarrow> write_fd_chunk inp len fd offset out)"

section \<open>Opening\<close>

text \<open>\<^verbatim>\<open>output_file_init\<close> when both buffers are allocated; \<open>None\<close> is a negative result.\<close>

definition output_file_init :: "bool \<times> bool \<Rightarrow> 'p output_file_ops \<Rightarrow> 'p \<Rightarrow> nat \<Rightarrow> int \<Rightarrow> bool \<Rightarrow> nat \<Rightarrow> bool \<Rightarrow> 'p output_file option \<times> 'p" where
  "output_file_init mem ops0 p block_size len sparse chunks crc =
     (let out = \<lparr>cur_out_ptr = 0, chunk_cnt = 0, out_crc32 = 0, ops = ops0, out_sparse = sparse, use_crc = crc,
                 out_block_size = block_size, out_len = len, fill_buf = replicate block_size NUL, priv = p, overrun = False\<rparr>
      in if mem \<noteq> (True, True) then (None, p)
         else if sparse then
           case out_write (sparse_header block_size (nat (c_div len (int block_size) mod 2 ^ 32)) (if crc then u32_add chunks 1 else chunks)) out of
             (ret, out') \<Rightarrow> (if ret < 0 then None else Some out', priv out')
         else (Some out, p))"

end
