(* ===== verification/Sparse.thy ===== *)
theory Sparse
  imports Output_File
begin

text \<open>
  Sparse files, \<^verbatim>\<open>libsparse/sparse.c\<close>: a size, a block size and the list of the blocks that back it; writing
  it to a descriptor or to a callback, and cutting it into files of a limited size.
\<close>

record sparse_file =
  s_block_size :: nat
  s_len :: int
  s_verbose :: bool
  backed_blocks :: backed_block_list

text \<open>\<open>mem\<close> is the answer of the first allocation; the one of the list is taken to succeed.\<close>

definition sparse_file_new :: "bool \<Rightarrow> nat \<Rightarrow> int \<Rightarrow> sparse_file option" where
  "sparse_file_new mem block_size len =
     (if mem then Some \<lparr>s_block_size = block_size, s_len = len, s_verbose = False, backed_blocks = backed_block_list_new block_size\<rparr>
      else None)"

definition with_blocks :: "sparse_file \<Rightarrow> fault + int \<times> backed_block_list \<Rightarrow> fault + int \<times> sparse_file" where
  "with_blocks s r = (case r of Inl e \<Rightarrow> Inl e | Inr (ret, l) \<Rightarrow> Inr (ret, s\<lparr>backed_blocks := l\<rparr>))"

definition sparse_file_add_data :: "nat option \<Rightarrow> sparse_file \<Rightarrow> string \<Rightarrow> nat \<Rightarrow> nat \<Rightarrow> fault + int \<times> sparse_file" where
  "sparse_file_add_data addr s data len blk = with_blocks s (backed_block_add_data addr (backed_blocks s) data len blk)"

definition sparse_file_add_fill :: "nat option \<Rightarrow> sparse_file \<Rightarrow> u32 \<Rightarrow> nat \<Rightarrow> nat \<Rightarrow> fault + int \<times> sparse_file" where
  "sparse_file_add_fill addr s fill_val len blk = with_blocks s (backed_block_add_fill addr (backed_blocks s) fill_val len blk)"

definition sparse_file_add_file ::
    "nat option \<Rightarrow> nat \<Rightarrow> sparse_file \<Rightarrow> string \<Rightarrow> int \<Rightarrow> nat \<Rightarrow> nat \<Rightarrow> fault + int \<times> sparse_file" where
  "sparse_file_add_file addr name_addr s filename file_offset len blk =
     with_blocks s (backed_block_add_file addr name_addr (backed_blocks s) filename file_offset len blk)"

definition sparse_file_add_fd :: "nat option \<Rightarrow> sparse_file \<Rightarrow> int \<Rightarrow> int \<Rightarrow> nat \<Rightarrow> nat \<Rightarrow> fault + int \<times> sparse_file" where
  "sparse_file_add_fd addr s fd file_offset len blk = with_blocks s (backed_block_add_fd addr (backed_blocks s) fd file_offset len blk)"

text \<open>The block after the last one of a backed block.\<close>

definition next_block :: "nat \<Rightarrow> backed_block \<Rightarrow> nat" where
  "next_block bs bb = u32_add (bb_block bb) (u32_DIV_ROUND_UP (bb_len bb) bs)"

fun count_chunks :: "nat \<Rightarrow> nat \<Rightarrow> nat \<Rightarrow> backed_block list \<Rightarrow> nat \<times> nat" where
  "count_chunks bs last_block chunks [] = (last_block, chunks)"
| "count_chunks bs last_block chunks (bb # bbs) =
     count_chunks bs (next_block bs bb) (u32_add chunks (if bb_block bb > last_block then 2 else 1)) bbs"

definition sparse_count_chunks :: "sparse_file \<Rightarrow> nat" where
  "sparse_count_chunks s =
     (case count_chunks (s_block_size s) 0 0 (data_blocks (backed_blocks s)) of
        (last_block, chunks) \<Rightarrow>
          if int last_block < c_div (s_len s + int (s_block_size s) - 1) (int (s_block_size s)) then u32_add chunks 1 else chunks)"

text \<open>Writing one block; the result of the chunk writer is dropped.\<close>

definition sparse_file_write_block :: "inputs \<Rightarrow> backed_block \<Rightarrow> 'p output_file \<Rightarrow> 'p output_file" where
  "sparse_file_write_block inp bb out =
     snd (case bb_content bb of
            BACKED_BLOCK_DATA d \<Rightarrow> write_data_chunk (take (bb_len bb) d) out
          | BACKED_BLOCK_FILE p nm off \<Rightarrow> write_file_chunk inp (bb_len bb) nm off out
          | BACKED_BLOCK_FD fd off \<Rightarrow> write_fd_chunk inp (bb_len bb) fd off out
          | BACKED_BLOCK_FILL v \<Rightarrow> write_fill_chunk (bb_len bb) v out)"

fun write_blocks :: "inputs \<Rightarrow> nat \<Rightarrow> nat \<Rightarrow> backed_block list \<Rightarrow> 'p output_file \<Rightarrow> nat \<times> 'p output_file" where
  "write_blocks inp bs last_block [] out = (last_block, out)"
| "write_blocks inp bs last_block (bb # bbs) out =
     write_blocks inp bs (next_block bs bb) bbs
       (sparse_file_write_block inp bb
          (if bb_block bb > last_block then snd (write_skip_chunk (int (bb_block bb - last_block) * int bs) out) else out))"

definition write_all_blocks :: "inputs \<Rightarrow> sparse_file \<Rightarrow> 'p output_file \<Rightarrow> fault + int \<times> 'p output_file" where
  "write_all_blocks inp s out =
     (case write_blocks inp (s_block_size s) 0 (data_blocks (backed_blocks s)) out of
        (last_block, out') \<Rightarrow>
          let pad = s_len s - int last_block * int (s_block_size s)
          in if pad < 0 then Inl Assertion
             else Inr (0, if pad > 0 then snd (write_skip_chunk pad out') else out'))"

text \<open>
  \<^verbatim>\<open>sparse_file_write\<close> and \<^verbatim>\<open>sparse_file_callback\<close>: they differ in the operations of the file, so one definition takes
  the table and the state. A block size of zero is divided by. The structure around the file is
  allocated before its two buffers; without it \<^verbatim>\<open>output_file_open_fd\<close> uses a NULL pointer.
\<close>

definition sparse_file_write ::
    "inputs \<Rightarrow> bool \<times> bool \<Rightarrow> sparse_file \<Rightarrow> 'p output_file_ops \<Rightarrow> 'p \<Rightarrow> bool \<Rightarrow> bool \<Rightarrow> fault + int \<times> 'p" where
  "sparse_file_write inp mem s ops0 p sparse crc =
     (if s_block_size s = 0 then Inl Division
      else
        case output_file_init mem ops0 p (s_block_size s) (s_len s) sparse (sparse_count_chunks s) crc of
          (None, p') \<Rightarrow> Inr (- ENOMEM, p')
        | (Some out, _) \<Rightarrow>
            (case write_all_blocks inp s out of
               Inl e \<Rightarrow> Inl e
             | Inr (ret, out') \<Rightarrow> Inr (ret, output_file_close out')))"

text \<open>The callback that counts, and the length it gives.\<close>

definition out_counter_write :: "int callback" where
  "out_counter_write data len count = (0, count + len)"

definition sparse_file_len :: "inputs \<Rightarrow> bool \<times> bool \<Rightarrow> sparse_file \<Rightarrow> bool \<Rightarrow> bool \<Rightarrow> fault + int" where
  "sparse_file_len inp mem s sparse crc =
     (if s_block_size s = 0 then Inl Division
      else
        case output_file_init mem (callback_file_ops out_counter_write) 0 (s_block_size s) (s_len s) sparse (sparse_count_chunks s) crc of
          (None, p') \<Rightarrow> Inr (- 1)
        | (Some out, _) \<Rightarrow>
            (case write_all_blocks inp s out of
               Inl e \<Rightarrow> Inl e
             | Inr (ret, out') \<Rightarrow> if ret < 0 then Inr (- 1) else Inr (output_file_close out')))"

section \<open>Cutting\<close>

text \<open>
  \<^verbatim>\<open>move_chunks_up_to_len\<close>: the loop over the blocks from index \<open>i\<close> finds the last block to move. Its result is
  the list, perhaps with one block split, the index of the last block, and whether the loop was left
  with a block in hand; \<open>addr\<close> is the allocation of the split.
\<close>

definition overhead :: nat where
  "overhead = SPARSE_HEADER_LEN + 4 * CHUNK_HEADER_LEN + 4"

definition counted :: "inputs \<Rightarrow> backed_block \<Rightarrow> int output_file \<Rightarrow> int \<times> int output_file" where
  "counted inp bb out = (let out' = sparse_file_write_block inp bb (out\<lparr>priv := 0\<rparr>) in (priv out', out'))"

function move_loop ::
    "inputs \<Rightarrow> nat option \<Rightarrow> nat \<Rightarrow> int \<Rightarrow> nat option \<Rightarrow> nat \<Rightarrow> int output_file \<Rightarrow> backed_block_list
      \<Rightarrow> fault + (backed_block_list \<times> nat option \<times> bool)" where
  "move_loop inp addr len file_len last_bb i out l =
     (if i < length (data_blocks l) then
        case counted inp (data_blocks l ! i) out of
          (count, out') \<Rightarrow>
            if file_len + count > int len then
              if last_bb = None \<or> int len - file_len > int (len div 8) then
                (case backed_block_split addr l i (nat ((int len - file_len) mod 2 ^ 32)) of
                   Inl e \<Rightarrow> Inl e
                 | Inr l' \<Rightarrow> Inr (l', Some i, True))
              else Inr (l, last_bb, True)
            else move_loop inp addr len (file_len + count) (Some i) (Suc i) out' l
      else Inr (l, last_bb, False))"
  by pat_completeness auto
termination by (relation "measure (\<lambda>(inp, addr, len, file_len, last_bb, i, out, l). length (data_blocks l) - i)") auto

declare move_loop.simps [simp del]

text \<open>The limit is unsigned: one below the overhead wraps around.\<close>

definition move_chunks_up_to_len ::
    "inputs \<Rightarrow> bool \<times> bool \<Rightarrow> nat option \<Rightarrow> sparse_file \<Rightarrow> sparse_file \<Rightarrow> nat \<Rightarrow> fault + (sparse_file \<times> sparse_file \<times> bool)" where
  "move_chunks_up_to_len inp mem addr src dst len0 =
     (let len = (len0 + 2 ^ 32 - overhead) mod 2 ^ 32
      in if s_block_size dst = 0 then Inl Division
         else
           case output_file_init mem (callback_file_ops out_counter_write) 0 (s_block_size dst) (s_len dst) True 0 False of
             (None, _) \<Rightarrow> Inr (src, dst, False)
           | (Some out, _) \<Rightarrow>
               (case move_loop inp addr len 0 None 0 out (backed_blocks src) of
                  Inl e \<Rightarrow> Inl e
                | Inr (l, last_bb, again) \<Rightarrow>
                    (case backed_block_list_move l (backed_blocks dst) 0 last_bb of
                       (l', m) \<Rightarrow> Inr (src\<lparr>backed_blocks := l'\<rparr>, dst\<lparr>backed_blocks := m\<rparr>, again))))"

end
