(* ===== verification/Sparse_Raw.thy ===== *)
theory Sparse_Raw
  imports Sparse
begin

text \<open>
  Writing a sparse file as a raw image, the way the file system generator does: on a descriptor whose
  calls succeed the image is laid over what the medium held, each byte at its place.
\<close>

section \<open>Where the bytes come from\<close>

text \<open>\<open>src\<close> gives the contents of files and descriptors; \<open>supplied\<close> says that a block can be read from there.\<close>

definition supplied :: "inputs \<Rightarrow> bb_source \<Rightarrow> backed_block \<Rightarrow> bool" where
  "supplied inp src b =
     (case bb_content b of
        BACKED_BLOCK_DATA d \<Rightarrow> bb_len b \<le> length d
      | BACKED_BLOCK_FILE p nm off \<Rightarrow>
          (\<exists>fd. in_open inp nm = Inr fd \<and> in_map inp fd = (\<lambda>a n. Inr (map (\<lambda>i. fst src p (a + int i)) [0..<n])))
      | BACKED_BLOCK_FD fd off \<Rightarrow> in_map inp fd = (\<lambda>a n. Inr (map (\<lambda>i. snd src fd (a + int i)) [0..<n]))
      | BACKED_BLOCK_FILL v \<Rightarrow> True)"

definition block_bytes :: "bb_source \<Rightarrow> backed_block \<Rightarrow> string" where
  "block_bytes src b = map (bb_byte src (bb_content b)) [0..<bb_len b]"

lemma bb_byte_lam:
  "bb_byte src (BACKED_BLOCK_FILE p nm off) = (\<lambda>i. fst src p (off + int i))"
  "bb_byte src (BACKED_BLOCK_FD fd off) = (\<lambda>i. snd src fd (off + int i))"
  by (rule ext, simp)+

lemma length_block_bytes [simp]: "length (block_bytes src b) = bb_len b"
  by (simp add: block_bytes_def)

lemma mapped_part:
  assumes "len + 4096 \<le> 2 ^ 32" "in_map inp fd = (\<lambda>a n. Inr (map (\<lambda>i. g (a + int i)) [0..<n]))"
  shows "write_fd_chunk inp len fd off out = write_data_chunk (map (\<lambda>i. g (off + int i)) [0..<len]) out"
proof -
  define d where "d = nat (off - 4096 * (off div 4096))"
  have d: "int d = off mod 4096" by (simp add: d_def minus_mult_div_eq_mod)
  have "off mod 4096 < 4096" by simp
  then have "d < 4096" using d by linarith
  then have n: "u32_add len d = len + d" using assms(1) by (simp add: u32_add_def)
  have "take len (drop d (map (\<lambda>i. g (4096 * (off div 4096) + int i)) [0..<len + d]))
      = map (\<lambda>i. g (off + int i)) [0..<len]"
  proof (rule nth_equalityI)
    fix i assume "i < length (take len (drop d (map (\<lambda>i. g (4096 * (off div 4096) + int i)) [0..<len + d])))"
    then have "i < len" by simp
    moreover have "4096 * (off div 4096) + (int i + int d) = off + int i" using d by simp
    then have "g (4096 * (off div 4096) + (int i + int d)) = g (off + int i)" by (rule arg_cong)
    ultimately show "take len (drop d (map (\<lambda>i. g (4096 * (off div 4096) + int i)) [0..<len + d])) ! i
        = map (\<lambda>i. g (off + int i)) [0..<len] ! i"
      by (simp add: add.commute [of d])
  qed simp
  then show ?thesis using n assms(2) by (simp add: write_fd_chunk_def Let_def flip: d_def)
qed

text \<open>Blocks other than fills are written as data.\<close>

lemma write_block_data:
  assumes "supplied inp src b" "bb_len b + 4096 \<le> 2 ^ 32" "\<forall>v. bb_content b \<noteq> BACKED_BLOCK_FILL v"
  shows "sparse_file_write_block inp b out = snd (write_data_chunk (block_bytes src b) out)"
proof (cases "bb_content b")
  case (BACKED_BLOCK_DATA d)
  then have "block_bytes src b = take (bb_len b) d"
    using assms(1) by (intro nth_equalityI) (simp_all add: block_bytes_def supplied_def)
  then show ?thesis by (simp add: BACKED_BLOCK_DATA sparse_file_write_block_def)
next
  case (BACKED_BLOCK_FILE p nm off)
  then obtain fd where fd: "in_open inp nm = Inr fd" "in_map inp fd = (\<lambda>a n. Inr (map (\<lambda>i. fst src p (a + int i)) [0..<n]))"
    using assms(1) by (auto simp: supplied_def)
  then show ?thesis using mapped_part [OF assms(2) fd(2), of off out]
    by (simp add: BACKED_BLOCK_FILE sparse_file_write_block_def write_file_chunk_def block_bytes_def bb_byte_lam)
next
  case (BACKED_BLOCK_FD fd off)
  then have "in_map inp fd = (\<lambda>a n. Inr (map (\<lambda>i. snd src fd (a + int i)) [0..<n]))" using assms(1) by (simp add: supplied_def)
  from mapped_part [OF assms(2) this, of off out] show ?thesis
    by (simp add: BACKED_BLOCK_FD sparse_file_write_block_def block_bytes_def bb_byte_lam)
next
  case (BACKED_BLOCK_FILL v)
  then show ?thesis using assms(3) by simp
qed

section \<open>A descriptor whose calls succeed\<close>

definition reliable :: "out_fd \<Rightarrow> bool" where
  "reliable f \<longleftrightarrow> fd_answers f = (\<lambda>n. Inr MAX_RW_COUNT)"

text \<open>What a reader of the file sees, and where the next byte goes.\<close>

definition over :: "(nat \<Rightarrow> char) \<Rightarrow> (nat \<rightharpoonup> char) \<Rightarrow> nat \<Rightarrow> char" where
  "over v m = (\<lambda>i. case m i of Some c \<Rightarrow> c | None \<Rightarrow> v i)"

definition placed :: "nat \<Rightarrow> string \<Rightarrow> nat \<rightharpoonup> char" where
  "placed pos d = (\<lambda>i. if pos \<le> i \<and> i < pos + length d then Some (d ! (i - pos)) else None)"

lemma over_over [simp]: "over (over v m) m' = over v (m ++ m')"
  by (rule ext) (simp add: over_def map_add_def split: option.split)

lemma over_empty [simp]: "over v Map.empty = v"
  by (simp add: over_def)

lemma fd_char_store: "fd_char (fd_store d f) = over (fd_char f) (placed (fd_pos f) d)"
  by (rule ext) (auto simp: fd_char_def fd_store_def over_def placed_def)

lemma fd_char_calls [simp]: "fd_char (f\<lparr>fd_calls := n\<rparr>) = fd_char f" "fd_char (f\<lparr>fd_calls := n, fd_pos := p\<rparr>) = fd_char f"
  by (rule ext, simp add: fd_char_def)+

lemma placed_Nil [simp]: "placed pos [] = Map.empty"
  by (rule ext) (simp add: placed_def)

lemma placed_append: "placed pos (d @ e) = placed pos d ++ placed (pos + length d) e"
  by (rule ext) (auto simp: placed_def map_add_def nth_append)

lemma placed_bytes: "placed (bb_block b * bs) (block_bytes src b) = bb_map src bs b"
  by (rule ext) (auto simp: placed_def bb_map_def block_bytes_def)

lemma file_write_ok:
  assumes "reliable f" "length d \<le> MAX_RW_COUNT"
  shows "file_write d f = (0, fd_store d (f\<lparr>fd_calls := Suc (fd_calls f)\<rparr>))"
  using assms by (simp add: file_write_def fd_write_def reliable_def Let_def MAX_RW_COUNT_def INT_MAX_def)

lemma file_skip_ok:
  assumes "reliable f" "0 \<le> n"
  shows "file_skip n f = (0, f\<lparr>fd_calls := Suc (fd_calls f), fd_pos := fd_pos f + nat n\<rparr>)"
  using assms by (simp add: file_skip_def reliable_def Let_def nat_add_distrib)


text \<open>The file behind a raw writer: same settings, a reliable descriptor.\<close>

definition raw_out :: "nat \<Rightarrow> out_fd output_file \<Rightarrow> bool" where
  "raw_out bs out \<longleftrightarrow> ops out = file_ops \<and> \<not> out_sparse out \<and> out_block_size out = bs \<and> length (fill_buf out) = bs \<and> reliable (priv out)"

definition out_view :: "out_fd output_file \<Rightarrow> nat \<Rightarrow> char" where
  "out_view out = fd_char (priv out)"

lemma out_write_ok:
  assumes "raw_out bs out" "length d \<le> MAX_RW_COUNT"
  obtains out' where "out_write d out = (0, out')" "raw_out bs out'" "fill_buf out' = fill_buf out" "out_len out' = out_len out"
    "fd_pos (priv out') = fd_pos (priv out) + length d"
    "out_view out' = over (out_view out) (placed (fd_pos (priv out)) d)"
proof -
  let ?f = "(priv out)\<lparr>fd_calls := Suc (fd_calls (priv out))\<rparr>"
  have rel: "reliable (priv out)" using assms(1) by (simp add: raw_out_def)
  have w: "out_write d out = (0, out\<lparr>priv := fd_store d ?f\<rparr>)"
    using assms(1) file_write_ok [OF rel assms(2)] by (simp add: out_write_def raw_out_def file_ops_def)
  show thesis using that [OF w] assms(1) fd_char_store [of d ?f]
    by (simp add: raw_out_def reliable_def fd_store_def out_view_def)
qed

lemma out_skip_ok:
  assumes "raw_out bs out" "0 \<le> n"
  obtains out' where "out_skip n out = (0, out')" "raw_out bs out'" "fill_buf out' = fill_buf out" "out_len out' = out_len out"
    "fd_pos (priv out') = fd_pos (priv out) + nat n" "out_view out' = out_view out"
proof -
  have rel: "reliable (priv out)" using assms(1) by (simp add: raw_out_def)
  let ?f = "(priv out)\<lparr>fd_calls := Suc (fd_calls (priv out)), fd_pos := fd_pos (priv out) + nat n\<rparr>"
  have w: "out_skip n out = (0, out\<lparr>priv := ?f\<rparr>)"
    using assms(1) file_skip_ok [OF rel assms(2)] by (simp add: out_skip_def raw_out_def file_ops_def)
  show thesis using that [OF w] assms(1) by (simp add: raw_out_def reliable_def out_view_def)
qed

lemma u32_round:
  assumes "0 < bs" "DIV_ROUND_UP n bs * bs < 2 ^ 32" "n + bs \<le> 2 ^ 32" "0 < n"
  shows "u32_DIV_ROUND_UP n bs = DIV_ROUND_UP n bs" "u32_ALIGN n bs = DIV_ROUND_UP n bs * bs" "n \<le> u32_ALIGN n bs"
proof -
  show d: "u32_DIV_ROUND_UP n bs = DIV_ROUND_UP n bs"
    using assms(3,4) by (simp add: u32_DIV_ROUND_UP_def DIV_ROUND_UP_def)
  show a: "u32_ALIGN n bs = DIV_ROUND_UP n bs * bs"
    using assms(2) by (simp add: u32_ALIGN_def d mult.commute)
  show "n \<le> u32_ALIGN n bs" using ALIGN_ge [OF assms(1), of n] by (simp add: a ALIGN_def mult.commute)
qed

text \<open>One chunk was written: what changed from \<open>out\<close> to \<open>out'\<close>.\<close>

definition wrote :: "nat \<Rightarrow> out_fd output_file \<Rightarrow> nat \<Rightarrow> (nat \<rightharpoonup> char) \<Rightarrow> out_fd output_file \<Rightarrow> bool" where
  "wrote bs out n m out' \<longleftrightarrow> raw_out bs out' \<and> out_len out' = out_len out
     \<and> fd_pos (priv out') = fd_pos (priv out) + n \<and> out_view out' = over (out_view out) m"

lemma wrote_trans: "wrote bs a n m b \<Longrightarrow> wrote bs b n' m' c \<Longrightarrow> wrote bs a (n + n') (m ++ m') c"
  by (simp add: wrote_def)

lemma raw_data_chunk:
  assumes "raw_out bs out" "0 < bs" "length d \<le> MAX_RW_COUNT" "0 < length d" "bs \<le> 2 ^ 31" "DIV_ROUND_UP (length d) bs * bs < 2 ^ 32"
  shows "wrote bs out (DIV_ROUND_UP (length d) bs * bs) (placed (fd_pos (priv out)) d) (snd (write_data_chunk d out))"
proof -
  have lim: "length d + bs \<le> 2 ^ 32" using assms(3,5) by (simp add: MAX_RW_COUNT_def)
  note r = u32_round [OF assms(2,6) lim assms(4)]
  have s: "\<not> out_sparse out" "out_block_size out = bs" using assms(1) by (simp_all add: raw_out_def)
  obtain out1 where w: "out_write d out = (0, out1)" "raw_out bs out1" "out_len out1 = out_len out"
    "fd_pos (priv out1) = fd_pos (priv out) + length d" "out_view out1 = over (out_view out) (placed (fd_pos (priv out)) d)"
    by (rule out_write_ok [OF assms(1,3)])
  show ?thesis
  proof (cases "length d < u32_ALIGN (length d) bs")
    case True
    have nn: "0 \<le> int (u32_ALIGN (length d) bs - length d)" by simp
    obtain out2 where k: "out_skip (int (u32_ALIGN (length d) bs - length d)) out1 = (0, out2)" "raw_out bs out2" "out_len out2 = out_len out1"
      "fd_pos (priv out2) = fd_pos (priv out1) + nat (int (u32_ALIGN (length d) bs - length d))" "out_view out2 = out_view out1"
      by (rule out_skip_ok [OF w(2) nn])
    have "snd (write_data_chunk d out) = out2"
      using s True w(1) k(1) by (simp add: write_data_chunk_def write_normal_data_chunk_def)
    moreover have "fd_pos (priv out2) = fd_pos (priv out) + DIV_ROUND_UP (length d) bs * bs"
      using k(4) w(4) True r(2) unfolding nat_int by linarith
    ultimately show ?thesis using k w by (simp add: wrote_def)
  next
    case False
    have "snd (write_data_chunk d out) = out1"
      using s False w(1) by (simp add: write_data_chunk_def write_normal_data_chunk_def)
    then show ?thesis using w False r(2,3) by (simp add: wrote_def)
  qed
qed

text \<open>A fill of whole blocks.\<close>

lemma le_str_char: "i < n \<Longrightarrow> le_str n x ! i = char_of (x div 256 ^ i)"
proof (induction n arbitrary: x i)
  case (Suc n)
  show ?case
  proof (cases i)
    case 0 then show ?thesis by simp
  next
    case (Suc j)
    then show ?thesis using Suc.prems Suc.IH [of j "x div 256"] by (simp add: div_mult2_eq)
  qed
qed simp

lemma fill_words:
  "i < 4 * n \<Longrightarrow> concat (replicate n (le_str 4 (unat v))) ! i = fill_byte v i"
proof (induction n arbitrary: i)
  case (Suc n)
  show ?case
  proof (cases "i < 4")
    case True
    have "le_str 4 (unat v) ! i = char_of (unat v div 256 ^ i)" by (rule le_str_char [OF True])
    also have "unat v div 256 ^ i = drop_bit (8 * i) (unat v)" by (simp add: drop_bit_eq_div power_mult)
    also have "\<dots> = unat (drop_bit (8 * i) v)"
      by (rule unat_drop_bit_eq [symmetric])
    finally show ?thesis using True by (simp add: nth_append fill_byte_def)
  next
    case False
    then obtain j where j: "i = 4 * 1 + j" by (metis add.commute le_Suc_ex linorder_not_less mult_1_right)
    then have "j < 4 * n" using Suc.prems by simp
    from Suc.IH [OF this] show ?thesis using fill_byte_shift [of v 1 j] j by (simp add: nth_append)
  qed
qed simp

lemma fill_buffer:
  assumes "4 dvd bs" "length buf = bs"
  shows "concat (replicate (bs div 4) (le_str 4 (unat v))) @ drop (4 * (bs div 4)) buf = map (fill_byte v) [0..<bs]"
proof -
  have n: "4 * (bs div 4) = bs" using assms(1) by simp
  have "length (concat (replicate k (le_str 4 x))) = 4 * k" for k x by (induction k) simp_all
  then have "concat (replicate (bs div 4) (le_str 4 (unat v))) = map (fill_byte v) [0..<bs]"
    using n fill_words [of _ "bs div 4" v] by (intro nth_equalityI) simp_all
  then show ?thesis using n assms(2) by simp
qed

lemma raw_fill_loop:
  assumes "raw_out bs out" "0 < bs" "bs \<le> MAX_RW_COUNT" "4 dvd bs" "fill_buf out = map (fill_byte v) [0..<bs]"
  shows "wrote bs out (k * bs) (placed (fd_pos (priv out)) (map (fill_byte v) [0..<k * bs])) (snd (normal_fill_loop (k * bs) out))"
  using assms(1,5)
proof (induction k arbitrary: out)
  case 0
  then show ?case by (subst normal_fill_loop.simps) (simp add: wrote_def)
next
  case (Suc k)
  have bs: "out_block_size out = bs" using Suc.prems(1) by (simp add: raw_out_def)
  have len: "length (fill_buf out) \<le> MAX_RW_COUNT" using Suc.prems(2) assms(3) by simp
  obtain out1 where w: "out_write (fill_buf out) out = (0, out1)" "raw_out bs out1" "fill_buf out1 = fill_buf out" "out_len out1 = out_len out"
    "fd_pos (priv out1) = fd_pos (priv out) + length (fill_buf out)" "out_view out1 = over (out_view out) (placed (fd_pos (priv out)) (fill_buf out))"
    by (rule out_write_ok [OF Suc.prems(1) len])
  have step: "normal_fill_loop (Suc k * bs) out = normal_fill_loop (k * bs) out1"
    using w(1) Suc.prems(2) assms(2) bs by (subst normal_fill_loop.simps) simp
  have first: "wrote bs out bs (placed (fd_pos (priv out)) (fill_buf out)) out1"
    using w Suc.prems(2) by (simp add: wrote_def)
  have fb: "fill_buf out1 = map (fill_byte v) [0..<bs]" using w(3) Suc.prems(2) by simp
  have pos: "fd_pos (priv out1) = fd_pos (priv out) + bs" using w(5) Suc.prems(2) by simp
  obtain m where m: "bs = 4 * m" using assms(4) by (rule dvdE)
  have per: "fill_byte v i = fill_byte v (i - bs)" if "\<not> i < bs" for i
    using fill_byte_shift [of v m "i - bs"] that m by simp
  have "map (fill_byte v) [0..<Suc k * bs] = map (fill_byte v) [0..<bs] @ map (fill_byte v) [0..<k * bs]"
    by (rule nth_equalityI) (auto simp: nth_append intro: per)
  then have "placed (fd_pos (priv out)) (map (fill_byte v) [0..<Suc k * bs])
      = placed (fd_pos (priv out)) (fill_buf out) ++ placed (fd_pos (priv out1)) (map (fill_byte v) [0..<k * bs])"
    using pos Suc.prems(2) by (simp add: placed_append)
  with wrote_trans [OF first Suc.IH [OF w(2) fb]] step show ?case by simp
qed

lemma raw_fill_chunk:
  assumes "raw_out bs out" "0 < bs" "bs \<le> MAX_RW_COUNT" "4 dvd bs" "bs dvd len"
  shows "wrote bs out len (placed (fd_pos (priv out)) (map (fill_byte v) [0..<len])) (snd (write_fill_chunk len v out))"
proof -
  obtain k where k: "len = k * bs" using assms(5) by (metis dvdE mult.commute)
  let ?out = "out\<lparr>fill_buf := map (fill_byte v) [0..<bs]\<rparr>"
  have raw: "raw_out bs ?out" using assms(1) by (simp add: raw_out_def)
  have lb: "length (fill_buf out) = bs" "out_block_size out = bs" "\<not> out_sparse out" using assms(1) by (simp_all add: raw_out_def)
  have "write_fill_chunk len v out = normal_fill_loop len ?out"
    using fill_buffer [OF assms(4) lb(1), of v] lb by (simp add: write_fill_chunk_def write_normal_fill_chunk_def Let_def)
  then show ?thesis using raw_fill_loop [OF raw assms(2-4), of v k] k by (simp add: wrote_def out_view_def)
qed

section \<open>The whole image\<close>

text \<open>The blocks a raw writer places right: readable, small enough for one write, fills of whole blocks.\<close>

definition writable :: "inputs \<Rightarrow> bb_source \<Rightarrow> nat \<Rightarrow> backed_block \<Rightarrow> bool" where
  "writable inp src bs b \<longleftrightarrow> supplied inp src b \<and> bb_len b \<le> MAX_RW_COUNT
     \<and> (case bb_content b of BACKED_BLOCK_FILL v \<Rightarrow> bs dvd bb_len b | _ \<Rightarrow> True)"

lemma raw_block:
  assumes "raw_out bs out" "0 < bs" "bs \<le> MAX_RW_COUNT" "4 dvd bs" "bb_ok bs b" "writable inp src bs b"
    "fd_pos (priv out) = bb_block b * bs"
  shows "wrote bs out ((bb_end bs b - bb_block b) * bs) (bb_map src bs b) (sparse_file_write_block inp b out)"
proof -
  have n: "bb_end bs b - bb_block b = DIV_ROUND_UP (bb_len b) bs" by (simp add: bb_end_def)
  have pos: "0 < bb_len b" and lim: "bb_end bs b * bs < 2 ^ 32" using assms(5) by (simp_all add: bb_ok_def)
  have "DIV_ROUND_UP (bb_len b) bs * bs \<le> bb_end bs b * bs" by (simp add: bb_end_def)
  then have lim': "DIV_ROUND_UP (bb_len b) bs * bs < 2 ^ 32" using lim by (rule le_less_trans)
  show ?thesis
  proof (cases "\<exists>v. bb_content b = BACKED_BLOCK_FILL v")
    case True
    then obtain v where v: "bb_content b = BACKED_BLOCK_FILL v" by blast
    then have dvd: "bs dvd bb_len b" using assms(6) by (simp add: writable_def)
    then obtain k where k: "bb_len b = k * bs" by (metis dvdE mult.commute)
    have "DIV_ROUND_UP (bb_len b) bs * bs = bb_len b" using assms(2) k by simp
    moreover have "map (fill_byte v) [0..<bb_len b] = block_bytes src b" by (simp add: block_bytes_def v)
    ultimately show ?thesis
      using raw_fill_chunk [OF assms(1-4) dvd, of v] assms(7) placed_bytes [of b bs src] n v
      by (simp add: sparse_file_write_block_def)
  next
    case False
    then have nf: "\<forall>v. bb_content b \<noteq> BACKED_BLOCK_FILL v" by blast
    have s: "supplied inp src b" "bb_len b + 4096 \<le> 2 ^ 32" "bb_len b \<le> MAX_RW_COUNT"
      using assms(6) by (simp_all add: writable_def MAX_RW_COUNT_def)
    have "bs \<le> 2 ^ 31" using assms(3) by (simp add: MAX_RW_COUNT_def)
    then have "wrote bs out (DIV_ROUND_UP (bb_len b) bs * bs) (placed (fd_pos (priv out)) (block_bytes src b))
        (snd (write_data_chunk (block_bytes src b) out))"
      using raw_data_chunk [OF assms(1,2), of "block_bytes src b"] s(3) pos lim' by simp
    then show ?thesis using write_block_data [OF s(1,2) nf, of out] assms(7) placed_bytes [of b bs src] n by simp
  qed
qed

lemma next_block_end:
  assumes "0 < bs" "bs \<le> MAX_RW_COUNT" "bb_ok bs b" "bb_len b \<le> MAX_RW_COUNT"
  shows "next_block bs b = bb_end bs b"
proof -
  have pos: "0 < bb_len b" and lim: "bb_end bs b * bs < 2 ^ 32" using assms(3) by (simp_all add: bb_ok_def)
  have "DIV_ROUND_UP (bb_len b) bs * bs \<le> bb_end bs b * bs" by (simp add: bb_end_def)
  then have "DIV_ROUND_UP (bb_len b) bs * bs < 2 ^ 32" using lim by (rule le_less_trans)
  moreover have "bb_len b + bs \<le> 2 ^ 32" using assms(2,4) by (simp add: MAX_RW_COUNT_def)
  ultimately have "u32_DIV_ROUND_UP (bb_len b) bs = DIV_ROUND_UP (bb_len b) bs" using u32_round(1) assms(1) pos by blast
  moreover have "bb_end bs b \<le> bb_end bs b * bs" using assms(1) by simp
  then have "bb_end bs b < 2 ^ 32" using lim by (rule le_less_trans)
  ultimately show ?thesis by (simp add: next_block_def u32_add_def bb_end_def)
qed

lemma raw_blocks:
  assumes "0 < bs" "bs \<le> MAX_RW_COUNT" "4 dvd bs" "packed bs l" "list_all (writable inp src bs) l"
    "raw_out bs out" "fd_pos (priv out) = at * bs" "\<forall>b \<in> set l. at \<le> bb_block b"
  shows "\<exists>upto out'. write_blocks inp bs at l out = (upto, out') \<and> upto = (if l = [] then at else bb_end bs (last l))
    \<and> wrote bs out ((upto - at) * bs) (backed_image src bs l) out' \<and> at \<le> upto"
  using assms(4-8)
proof (induction l arbitrary: at out)
  case Nil
  then show ?case by (simp add: wrote_def)
next
  case (Cons b l)
  have ok: "bb_ok bs b" "packed bs l" "\<forall>c \<in> set l. bb_end bs b \<le> bb_block c" using Cons.prems(1) by (simp_all add: packed_Cons)
  have wr: "writable inp src bs b" "list_all (writable inp src bs) l" using Cons.prems(2) by simp_all
  have le: "at \<le> bb_block b" using Cons.prems(5) by simp
  have end_gt: "bb_block b < bb_end bs b" by (rule bb_end_gt [OF assms(1) ok(1)])
  have nb: "next_block bs b = bb_end bs b"
    using next_block_end [OF assms(1,2) ok(1)] wr(1) by (simp add: writable_def)
  define out1 where "out1 = (if bb_block b > at then snd (write_skip_chunk (int (bb_block b - at) * int bs) out) else out)"
  have skip: "wrote bs out ((bb_block b - at) * bs) Map.empty out1"
  proof (cases "bb_block b > at")
    case True
    obtain o2 where o2: "out_skip (int (bb_block b - at) * int bs) out = (0, o2)" "raw_out bs o2" "out_len o2 = out_len out"
      "fd_pos (priv o2) = fd_pos (priv out) + nat (int (bb_block b - at) * int bs)" "out_view o2 = out_view out"
      by (rule out_skip_ok [OF Cons.prems(3), of "int (bb_block b - at) * int bs"]) simp
    have "\<not> out_sparse out" using Cons.prems(3) by (simp add: raw_out_def)
    then have "out1 = o2" using True o2(1) by (simp add: out1_def write_skip_chunk_def write_normal_skip_chunk_def)
    moreover have "nat (int (bb_block b - at) * int bs) = (bb_block b - at) * bs" by (simp flip: of_nat_mult)
    ultimately show ?thesis using o2 by (simp add: wrote_def)
  next
    case False
    then show ?thesis using le Cons.prems(3) by (simp add: out1_def wrote_def)
  qed
  then have r1: "raw_out bs out1" and p1: "fd_pos (priv out1) = bb_block b * bs"
    using Cons.prems(4) le by (simp_all add: wrote_def flip: add_mult_distrib)
  define out2 where "out2 = sparse_file_write_block inp b out1"
  have blk: "wrote bs out1 ((bb_end bs b - bb_block b) * bs) (bb_map src bs b) out2"
    unfolding out2_def by (rule raw_block [OF r1 assms(1-3) ok(1) wr(1) p1])
  then have r2: "raw_out bs out2" and p2: "fd_pos (priv out2) = bb_end bs b * bs"
    using p1 end_gt by (simp_all add: wrote_def flip: add_mult_distrib)
  obtain upto out' where ih: "write_blocks inp bs (bb_end bs b) l out2 = (upto, out')"
    "upto = (if l = [] then bb_end bs b else bb_end bs (last l))"
    "wrote bs out2 ((upto - bb_end bs b) * bs) (backed_image src bs l) out'" "bb_end bs b \<le> upto"
    using Cons.IH [OF ok(2) wr(2) r2 p2 ok(3)] by blast
  have n: "(bb_block b - at) * bs + (bb_end bs b - bb_block b) * bs + (upto - bb_end bs b) * bs = (upto - at) * bs"
    using le end_gt ih(4) by (simp flip: add_mult_distrib)
  have "wrote bs out ((upto - at) * bs) (backed_image src bs (b # l)) out'"
    using wrote_trans [OF wrote_trans [OF skip blk] ih(3)] by (simp add: n)
  moreover have "write_blocks inp bs at (b # l) out = (upto, out')"
    using ih(1) nb by (simp add: out2_def out1_def)
  ultimately show ?case using ih(2,4) le end_gt by auto
qed

lemma raw_close:
  assumes "raw_out bs out" "0 \<le> out_len out"
  shows "fd_size (output_file_close out) = nat (out_len out)"
    "fd_char (output_file_close out) = (\<lambda>i. if int i < out_len out then out_view out i else NUL)"
proof -
  have p: "output_file_close out = (priv out)\<lparr>fd_calls := Suc (fd_calls (priv out)), fd_data := fd_char (priv out), fd_size := nat (out_len out)\<rparr>"
    using assms by (simp add: raw_out_def reliable_def output_file_close_def write_normal_end_chunk_def file_ops_def file_pad_def Let_def)
  show "fd_size (output_file_close out) = nat (out_len out)" by (simp add: p)
  show "fd_char (output_file_close out) = (\<lambda>i. if int i < out_len out then out_view out i else NUL)"
    by (rule ext) (simp add: p fd_char_def out_view_def zless_nat_eq_int_zless)
qed

text \<open>
  C5: writing a well-formed sparse file as a raw image to a descriptor whose calls succeed returns 0, and
  the medium then holds, up to the length of the file, every byte that a block backs at its place and in
  all other places what it held before.
\<close>

theorem raw_image_written:
  assumes "0 < s_block_size s" "4 dvd s_block_size s" "s_block_size s \<le> MAX_RW_COUNT"
    "packed (s_block_size s) (data_blocks (backed_blocks s))"
    "list_all (writable inp src (s_block_size s)) (data_blocks (backed_blocks s))"
    "list_all (\<lambda>b. int (bb_end (s_block_size s) b) * int (s_block_size s) \<le> s_len s) (data_blocks (backed_blocks s))"
    "0 \<le> s_len s" "reliable f" "fd_pos f = 0"
  shows "\<exists>f'. sparse_file_write inp (True, True) s file_ops f False crc = Inr (0, f') \<and> fd_size f' = nat (s_len s)
    \<and> fd_char f' = (\<lambda>i. if int i < s_len s then over (fd_char f) (backed_image src (s_block_size s) (data_blocks (backed_blocks s))) i else NUL)"
proof -
  let ?bs = "s_block_size s" and ?l = "data_blocks (backed_blocks s)"
  obtain out where init: "output_file_init (True, True) file_ops f ?bs (s_len s) False (sparse_count_chunks s) crc = (Some out, f)"
    "raw_out ?bs out" "priv out = f" "out_len out = s_len s"
    using assms(8) by (simp add: output_file_init_def Let_def raw_out_def)
  have p0: "fd_pos (priv out) = 0 * ?bs" using init(3) assms(9) by simp
  have ge: "\<forall>b \<in> set ?l. 0 \<le> bb_block b" by simp
  obtain upto out1 where w: "write_blocks inp ?bs 0 ?l out = (upto, out1)"
    "upto = (if ?l = [] then 0 else bb_end ?bs (last ?l))" "wrote ?bs out ((upto - 0) * ?bs) (backed_image src ?bs ?l) out1"
    using raw_blocks [OF assms(1,3,2,4,5) init(2) p0 ge] by blast
  have "int upto * int ?bs \<le> s_len s"
    using w(2) assms(6,7) last_in_set [of ?l] by (auto simp: list_all_iff)
  then have pad: "0 \<le> s_len s - int upto * int ?bs" by simp
  have r1: "raw_out ?bs out1" "out_len out1 = s_len s" "out_view out1 = over (out_view out) (backed_image src ?bs ?l)"
    using w(3) init(4) by (simp_all add: wrote_def)
  obtain out2 where k: "out_skip (s_len s - int upto * int ?bs) out1 = (0, out2)" "raw_out ?bs out2" "out_len out2 = out_len out1"
    "out_view out2 = out_view out1" by (rule out_skip_ok [OF r1(1) pad])
  define out3 where "out3 = (if s_len s - int upto * int ?bs > 0 then out2 else out1)"
  have r3: "raw_out ?bs out3" "out_len out3 = s_len s" "out_view out3 = over (fd_char f) (backed_image src ?bs ?l)"
    using r1 k init(3) by (auto simp: out3_def out_view_def)
  have "\<not> out_sparse out1" using r1(1) by (simp add: raw_out_def)
  then have "write_all_blocks inp s out = Inr (0, out3)"
    using w(1) pad k(1) by (simp add: write_all_blocks_def out3_def write_skip_chunk_def write_normal_skip_chunk_def Let_def)
  then have "sparse_file_write inp (True, True) s file_ops f False crc = Inr (0, output_file_close out3)"
    using init(1) assms(1) by (simp add: sparse_file_write_def)
  then show ?thesis using raw_close [OF r3(1), unfolded r3(2,3)] assms(7) by simp
qed

definition small_file :: sparse_file where
  "small_file = \<lparr>s_block_size = 4, s_len = 16, s_verbose = False,
     backed_blocks = \<lparr>data_blocks = [\<lparr>bb_addr = 1, bb_block = 1, bb_len = 3, bb_content = BACKED_BLOCK_DATA ''abc''\<rparr>,
                                     \<lparr>bb_addr = 2, bb_block = 2, bb_len = 4, bb_content = BACKED_BLOCK_FILL 0x41414141\<rparr>],
                      last_used = None, bbl_block_size = 4\<rparr>\<rparr>"

definition blank_fd :: out_fd where
  "blank_fd = \<lparr>fd_data = (\<lambda>i. CHR ''x''), fd_size = 8, fd_pos = 0, fd_calls = 0, fd_answers = (\<lambda>n. Inr MAX_RW_COUNT)\<rparr>"

definition no_inputs :: inputs where
  "no_inputs = \<lparr>in_open = (\<lambda>s. Inl 2), in_map = (\<lambda>fd a n. Inl 9)\<rparr>"

theorem raw_image_written_witness:
  "\<exists>f'. sparse_file_write no_inputs (True, True) small_file file_ops blank_fd False False = Inr (0, f')
    \<and> map (fd_char f') [0..<16] = ''xxxxabcxAAAA'' @ [NUL, NUL, NUL, NUL]"
proof -
  let ?src = "(\<lambda>p i. NUL, \<lambda>fd i. NUL)"
  have "\<exists>f'. sparse_file_write no_inputs (True, True) small_file file_ops blank_fd False False = Inr (0, f')
      \<and> fd_size f' = nat (s_len small_file)
      \<and> fd_char f' = (\<lambda>i. if int i < s_len small_file then over (fd_char blank_fd) (backed_image ?src (s_block_size small_file)
          (data_blocks (backed_blocks small_file))) i else NUL)"
    by (rule raw_image_written)
      (simp_all add: small_file_def blank_fd_def packed_def bb_ok_def bb_end_def DIV_ROUND_UP_def writable_def supplied_def
        reliable_def MAX_RW_COUNT_def)
  moreover have "map (\<lambda>i. if int i < s_len small_file then over (fd_char blank_fd) (backed_image ?src (s_block_size small_file)
          (data_blocks (backed_blocks small_file))) i else NUL) [0..<16] = ''xxxxabcxAAAA'' @ [NUL, NUL, NUL, NUL]"
    by (simp add: small_file_def blank_fd_def upt_rec over_def map_add_def bb_map_def fd_char_def fill_byte_def char_of_def bit_0)
  ultimately show ?thesis by metis
qed

section \<open>Errors while writing\<close>

definition broken :: "int \<Rightarrow> (nat \<Rightarrow> char) \<Rightarrow> out_fd output_file \<Rightarrow> bool" where
  "broken e v out \<longleftrightarrow> ops out = file_ops \<and> \<not> out_sparse out \<and> fd_answers (priv out) = (\<lambda>n. Inl e) \<and> fd_char (priv out) = v"

lemma broken_calls:
  assumes "broken e v out"
  shows "fst (out_write d out) < 0" "broken e v (snd (out_write d out))" "broken e v (snd (out_skip n out))"
  using assms
  by (simp_all add: broken_def out_write_def out_skip_def file_ops_def file_write_def fd_write_def file_skip_def Let_def)

lemma broken_data: "broken e v out \<Longrightarrow> broken e v (snd (write_data_chunk d out))"
  using broken_calls(1,2) [of e v out d]
  by (auto simp: write_data_chunk_def write_normal_data_chunk_def Let_def broken_def split: prod.splits)

lemma broken_fill: "broken e v out \<Longrightarrow> broken e v (snd (write_fill_chunk len c out))"
proof -
  assume b: "broken e v out"
  have loop: "broken e v o1 \<Longrightarrow> broken e v (snd (normal_fill_loop n o1))" for n o1
    using broken_calls(1,2) [of e v o1 "take (min n (out_block_size o1)) (fill_buf o1)"]
    by (subst normal_fill_loop.simps) (auto simp: Let_def split: prod.splits)
  from b have "broken e v (out\<lparr>fill_buf := buf\<rparr>)" for buf by (simp add: broken_def)
  from loop [OF this] b show ?thesis by (simp add: write_fill_chunk_def write_normal_fill_chunk_def Let_def broken_def)
qed

lemma broken_block: "broken e v out \<Longrightarrow> broken e v (sparse_file_write_block inp b out)"
  by (auto simp: sparse_file_write_block_def write_file_chunk_def write_fd_chunk_def Let_def broken_data broken_fill
      split: bb_content.split sum.split)

lemma broken_skip: "broken e v out \<Longrightarrow> broken e v (snd (write_skip_chunk n out))"
  using broken_calls(3) [of e v out n] by (simp add: write_skip_chunk_def write_normal_skip_chunk_def broken_def)

lemma broken_blocks:
  "broken e v out \<Longrightarrow> broken e v (snd (write_blocks inp bs at l out))"
  by (induction l arbitrary: at out) (simp_all add: broken_block broken_skip)

lemma write_blocks_last: "fst (write_blocks inp bs at l out) = fst (count_chunks bs at n l)"
  by (induction l arbitrary: at n out) simp_all

text \<open>
  when every call on the descriptor fails, writing a raw image that fits the length still returns 0,
  and nothing was written.
\<close>

theorem write_errors_ignored:
  assumes "0 < s_block_size s" "fd_answers f = (\<lambda>n. Inl e)"
    "int (fst (count_chunks (s_block_size s) 0 0 (data_blocks (backed_blocks s)))) * int (s_block_size s) \<le> s_len s"
  shows "\<exists>f'. sparse_file_write inp (True, True) s file_ops f False crc = Inr (0, f') \<and> fd_char f' = fd_char f"
proof -
  let ?bs = "s_block_size s" and ?l = "data_blocks (backed_blocks s)"
  obtain out where init: "output_file_init (True, True) file_ops f ?bs (s_len s) False (sparse_count_chunks s) crc = (Some out, f)"
    "broken e (fd_char f) out"
    using assms(2) by (simp add: output_file_init_def Let_def broken_def)
  obtain upto out1 where w: "write_blocks inp ?bs 0 ?l out = (upto, out1)" by (cases "write_blocks inp ?bs 0 ?l out")
  have b1: "broken e (fd_char f) out1" using broken_blocks [OF init(2), of inp ?bs 0 ?l] w by simp
  have "int upto * int ?bs \<le> s_len s" using assms(3) write_blocks_last [of inp ?bs 0 ?l out 0] w by simp
  then obtain out2 where a: "write_all_blocks inp s out = Inr (0, out2)" "broken e (fd_char f) out2"
    using w b1 broken_skip [OF b1] by (simp add: write_all_blocks_def Let_def)
  have "sparse_file_write inp (True, True) s file_ops f False crc = Inr (0, output_file_close out2)"
    using init(1) a(1) assms(1) by (simp add: sparse_file_write_def)
  moreover have "fd_char (output_file_close out2) = fd_char f"
    using a(2) by (auto simp: output_file_close_def write_normal_end_chunk_def broken_def file_ops_def file_pad_def Let_def)
  ultimately show ?thesis by blast
qed

theorem write_errors_ignored_witness:
  "\<exists>f'. sparse_file_write no_inputs (True, True) small_file file_ops (blank_fd\<lparr>fd_answers := \<lambda>n. Inl 5\<rparr>) False False = Inr (0, f')
    \<and> fd_char f' = fd_char (blank_fd\<lparr>fd_answers := \<lambda>n. Inl 5\<rparr>)"
  by (rule write_errors_ignored) (simp_all add: small_file_def blank_fd_def next_block_def u32_add_def u32_DIV_ROUND_UP_def)

end
