(* ===== verification/Sparse_Stream.thy ===== *)
theory Sparse_Stream
  imports Sparse_Raw
begin

text \<open>
  Writing a sparse file in the sparse format. The contract \<open>sink\<close> says what a chunk writer needs of the
  table of operations it writes through; the bytes that a whole file gives are proved once for every sink.
  The two sinks of the program are a descriptor and the counter of \<^verbatim>\<open>sparse_file_len\<close>.
\<close>

section \<open>The format\<close>

definition enc_skip :: "nat \<Rightarrow> string" where
  "enc_skip n = (if n = 0 then [] else chunk_header CHUNK_TYPE_DONT_CARE n CHUNK_HEADER_LEN)"

definition enc_block :: "bb_source \<Rightarrow> nat \<Rightarrow> backed_block \<Rightarrow> string" where
  "enc_block src bs b =
     (let k = DIV_ROUND_UP (bb_len b) bs
      in case bb_content b of
           BACKED_BLOCK_FILL v \<Rightarrow> chunk_header CHUNK_TYPE_FILL k 16 @ le_str 4 (unat v)
         | _ \<Rightarrow> chunk_header CHUNK_TYPE_RAW k (12 + k * bs) @ block_bytes src b @ replicate (k * bs - bb_len b) NUL)"

fun enc_blocks :: "bb_source \<Rightarrow> nat \<Rightarrow> nat \<Rightarrow> backed_block list \<Rightarrow> string" where
  "enc_blocks src bs at [] = []"
| "enc_blocks src bs at (b # l) = enc_skip (bb_block b - at) @ enc_block src bs b @ enc_blocks src bs (bb_end bs b) l"

definition last_end :: "nat \<Rightarrow> nat \<Rightarrow> backed_block list \<Rightarrow> nat" where
  "last_end bs at l = (if l = [] then at else bb_end bs (last l))"

lemma length_chunk_header [simp]: "length (chunk_header t n m) = 12"
  by (simp add: chunk_header_def)

lemma length_sparse_header [simp]: "length (sparse_header a b c) = 28"
  by (simp add: sparse_header_def)

text \<open>The whole file: the header, the chunks and the checksum \<open>c\<close>.\<close>

definition enc_body :: "bb_source \<Rightarrow> sparse_file \<Rightarrow> string" where
  "enc_body src s =
     (let bs = s_block_size s; l = data_blocks (backed_blocks s)
      in enc_blocks src bs 0 l @ enc_skip (nat (s_len s) div bs - last_end bs 0 l))"

definition enc_end :: "bool \<Rightarrow> u32 \<Rightarrow> string" where
  "enc_end crc c = (if crc then chunk_header CHUNK_TYPE_CRC32 0 16 @ le_str 4 (unat c) else [])"

definition enc_file :: "bb_source \<Rightarrow> sparse_file \<Rightarrow> bool \<Rightarrow> u32 \<Rightarrow> string" where
  "enc_file src s crc c =
     sparse_header (s_block_size s) (nat (c_div (s_len s) (int (s_block_size s)) mod 2 ^ 32))
         (if crc then u32_add (sparse_count_chunks s) 1 else sparse_count_chunks s)
       @ enc_body src s @ enc_end crc c"

text \<open>The files that the format holds: well formed, readable, of a length of whole blocks.\<close>

definition exportable :: "inputs \<Rightarrow> bb_source \<Rightarrow> sparse_file \<Rightarrow> bool" where
  "exportable inp src s \<longleftrightarrow>
     (let bs = s_block_size s; l = data_blocks (backed_blocks s)
      in 0 < bs \<and> 4 dvd bs \<and> bs \<le> MAX_RW_COUNT \<and> packed bs l \<and> list_all (supplied inp src) l \<and> list_all (\<lambda>b. bb_len b \<le> MAX_RW_COUNT) l
         \<and> int bs dvd s_len s \<and> int (last_end bs 0 l) * int bs \<le> s_len s \<and> s_len s < 2 ^ 32)"

lemma c_div_nonneg: "0 \<le> a \<Longrightarrow> c_div a b = a div b"
  by (simp add: c_div_def)

section \<open>Sinks\<close>

locale sink =
  fixes ops0 :: "'p output_file_ops" and good :: "'p \<Rightarrow> bool" and emitted :: "'p \<Rightarrow> 'e" and add :: "'e \<Rightarrow> string \<Rightarrow> 'e"
  assumes accepts: "good p \<Longrightarrow> length d \<le> MAX_RW_COUNT \<Longrightarrow>
      \<exists>p'. op_write ops0 d p = (0, p') \<and> good p' \<and> emitted p' = add (emitted p) d"
    and add_add: "add (add e x) y = add e (x @ y)"
    and add_Nil: "add e [] = e"
begin

definition sparse_out :: "nat \<Rightarrow> bool \<Rightarrow> 'p output_file \<Rightarrow> bool" where
  "sparse_out bs crc out \<longleftrightarrow> ops out = ops0 \<and> out_sparse out \<and> out_block_size out = bs \<and> use_crc out = crc \<and> good (priv out)"

definition sent :: "nat \<Rightarrow> bool \<Rightarrow> 'p output_file \<Rightarrow> string \<Rightarrow> 'p output_file \<Rightarrow> bool" where
  "sent bs crc out d out' \<longleftrightarrow> sparse_out bs crc out' \<and> emitted (priv out') = add (emitted (priv out)) d"

lemma sent_trans: "sent bs crc a d b \<Longrightarrow> sent bs crc b d' c \<Longrightarrow> sent bs crc a (d @ d') c"
  by (simp add: sent_def add_add)

lemma sent_refl: "sparse_out bs crc a \<Longrightarrow> sent bs crc a [] a"
  by (simp add: sent_def add_Nil)

lemma write_sent:
  assumes "sparse_out bs crc out" "length d \<le> MAX_RW_COUNT"
  shows "\<exists>out'. out_write d out = (0, out') \<and> sent bs crc out d out' \<and> out_len out' = out_len out"
proof -
  have "good (priv out)" using assms(1) by (simp add: sparse_out_def)
  then obtain p where "op_write ops0 d (priv out) = (0, p)" "good p" "emitted p = add (emitted (priv out)) d"
    using accepts assms(2) by blast
  then show ?thesis using assms(1) by (simp add: sparse_out_def sent_def out_write_def)
qed

lemma writes_sent:
  assumes "sparse_out bs crc out" "list_all (\<lambda>d. length d \<le> MAX_RW_COUNT) ds"
  shows "\<exists>out'. out_writes ds out = (True, out') \<and> sent bs crc out (concat ds) out'"
  using assms
proof (induction ds arbitrary: out)
  case Nil then show ?case by (simp add: sent_refl)
next
  case (Cons d ds)
  obtain o1 where w: "out_write d out = (0, o1)" "sent bs crc out d o1" using write_sent [of bs crc out d] Cons.prems by auto
  then have "sparse_out bs crc o1" by (simp add: sent_def)
  then obtain o2 where "out_writes ds o1 = (True, o2)" "sent bs crc o1 (concat ds) o2" using Cons by auto
  then show ?case using w sent_trans by auto
qed

lemma skip_sent:
  assumes "sparse_out bs crc out" "0 < bs" "0 < n" "n < 2 ^ 32"
  shows "sent bs crc out (enc_skip n) (snd (write_skip_chunk (int n * int bs) out))"
proof -
  have c: "c_div (int n * int bs) (int bs) = int n" by (subst c_div_nonneg) (use assms(2) in simp_all)
  have m: "nat (int n mod 2 ^ 32) = n" using assms(4) by simp
  let ?h = "chunk_header CHUNK_TYPE_DONT_CARE n CHUNK_HEADER_LEN"
  obtain o1 where "out_writes [?h] out = (True, o1)" "sent bs crc out (concat [?h]) o1"
    using writes_sent [OF assms(1), of "[?h]"] by (auto simp: MAX_RW_COUNT_def)
  then show ?thesis using assms(1,3) c m
    by (simp add: write_skip_chunk_def write_sparse_skip_chunk_def sparse_out_def sent_def enc_skip_def)
qed

lemma fill_sent:
  assumes "sparse_out bs crc out" "u32_ALIGN len bs = k * bs" "0 < bs"
  shows "sent bs crc out (chunk_header CHUNK_TYPE_FILL k 16 @ le_str 4 (unat v)) (snd (write_fill_chunk len v out))"
proof -
  let ?ds = "[chunk_header CHUNK_TYPE_FILL k 16, le_str 4 (unat v)]"
  obtain o1 where "out_writes ?ds out = (True, o1)" "sent bs crc out (concat ?ds) o1"
    using writes_sent [OF assms(1), of ?ds] by (auto simp: MAX_RW_COUNT_def)
  then show ?thesis using assms
    by (simp add: write_fill_chunk_def write_sparse_fill_chunk_def sparse_out_def sent_def Let_def CHUNK_HEADER_LEN_def)
qed

lemma data_sent:
  assumes "sparse_out bs crc out" "u32_ALIGN (length d) bs = k * bs" "0 < bs" "length d \<le> k * bs" "length d \<le> MAX_RW_COUNT"
    "k * bs - length d \<le> MAX_RW_COUNT" "12 + k * bs < 2 ^ 32"
  shows "sent bs crc out (chunk_header CHUNK_TYPE_RAW k (12 + k * bs) @ d @ replicate (k * bs - length d) NUL) (snd (write_data_chunk d out))"
proof -
  define z where "z = k * bs - length d"
  define ds where "ds = [chunk_header CHUNK_TYPE_RAW k (12 + k * bs), d] @ (if z = 0 then [] else [replicate z NUL])"
  have "list_all (\<lambda>d. length d \<le> MAX_RW_COUNT) ds"
    using assms(5,6) by (simp add: ds_def z_def MAX_RW_COUNT_def)
  then obtain o1 where w: "out_writes ds out = (True, o1)" "sent bs crc out (concat ds) o1"
    using writes_sent [OF assms(1)] by blast
  have "z < 2 ^ 32" using assms(7) unfolding z_def by linarith
  moreover have "k * bs + 2 ^ 32 - length d = z + 2 ^ 32" using assms(4) unfolding z_def by linarith
  ultimately have zl: "(k * bs + 2 ^ 32 - length d) mod 2 ^ 32 = z" by (simp only: mod_add_self2 mod_less)
  have t: "u32_add CHUNK_HEADER_LEN (k * bs) = 12 + k * bs" using assms(7) by (simp add: u32_add_def CHUNK_HEADER_LEN_def)
  have n: "k * bs div bs = k" using assms(3) by simp
  have c: "concat ds = chunk_header CHUNK_TYPE_RAW k (12 + k * bs) @ d @ replicate z NUL" by (simp add: ds_def)
  have o: "out_block_size out = bs" "out_sparse out" using assms(1) by (simp_all add: sparse_out_def)
  show ?thesis
    using w unfolding write_data_chunk_def write_sparse_data_chunk_def Let_def o assms(2) zl t n ds_def [symmetric] c z_def [symmetric]
    by (simp add: o sent_def sparse_out_def)
qed

lemma block_sent:
  assumes "sparse_out bs crc out" "0 < bs" "bs \<le> MAX_RW_COUNT" "bb_ok bs b" "supplied inp src b" "bb_len b \<le> MAX_RW_COUNT"
  shows "sent bs crc out (enc_block src bs b) (sparse_file_write_block inp b out)"
proof -
  define k where "k = DIV_ROUND_UP (bb_len b) bs"
  have pos: "0 < bb_len b" using assms(4) by (simp add: bb_ok_def)
  have kb: "k * bs \<le> bb_len b + bs - 1" unfolding k_def DIV_ROUND_UP_def by (rule div_times_less_eq_dividend)
  have l: "bb_len b + bs \<le> 2 ^ 32" "k * bs < 2 ^ 32" "12 + k * bs < 2 ^ 32" "k * bs - bb_len b \<le> MAX_RW_COUNT"
    using kb assms(3,6) pos by (simp_all add: MAX_RW_COUNT_def)
  note r = u32_round [OF assms(2) l(2) [unfolded k_def] l(1) pos, folded k_def]
  show ?thesis
  proof (cases "\<exists>v. bb_content b = BACKED_BLOCK_FILL v")
    case True
    then obtain v where v: "bb_content b = BACKED_BLOCK_FILL v" by blast
    then show ?thesis using fill_sent [OF assms(1) r(2) assms(2), of v]
      by (simp add: sparse_file_write_block_def enc_block_def Let_def k_def)
  next
    case False
    then have nf: "\<forall>v. bb_content b \<noteq> BACKED_BLOCK_FILL v" by blast
    have "bb_len b + 4096 \<le> 2 ^ 32" using assms(6) by (simp add: MAX_RW_COUNT_def)
    from write_block_data [OF assms(5) this nf, of out]
    have "sparse_file_write_block inp b out = snd (write_data_chunk (block_bytes src b) out)" .
    moreover have "enc_block src bs b = chunk_header CHUNK_TYPE_RAW k (12 + k * bs) @ block_bytes src b @ replicate (k * bs - bb_len b) NUL"
      using nf by (simp add: enc_block_def Let_def k_def split: bb_content.split)
    ultimately show ?thesis
      using data_sent [OF assms(1), of "block_bytes src b" k] r assms(2,6) l by simp
  qed
qed

lemma blocks_sent:
  assumes "0 < bs" "bs \<le> MAX_RW_COUNT" "packed bs l" "list_all (supplied inp src) l" "list_all (\<lambda>b. bb_len b \<le> MAX_RW_COUNT) l"
    "sparse_out bs crc out" "\<forall>b \<in> set l. at \<le> bb_block b"
  shows "\<exists>out'. write_blocks inp bs at l out = (last_end bs at l, out') \<and> sent bs crc out (enc_blocks src bs at l) out'"
  using assms(3-7)
proof (induction l arbitrary: at out)
  case Nil
  then show ?case by (simp add: sent_refl last_end_def)
next
  case (Cons b l)
  have ok: "bb_ok bs b" "packed bs l" "\<forall>c \<in> set l. bb_end bs b \<le> bb_block c" using Cons.prems(1) by (simp_all add: packed_Cons)
  have wr: "supplied inp src b" "bb_len b \<le> MAX_RW_COUNT" "list_all (supplied inp src) l" "list_all (\<lambda>b. bb_len b \<le> MAX_RW_COUNT) l"
    using Cons.prems(2,3) by simp_all
  have nb: "next_block bs b = bb_end bs b" by (rule next_block_end [OF assms(1,2) ok(1) wr(2)])
  define out1 where "out1 = (if bb_block b > at then snd (write_skip_chunk (int (bb_block b - at) * int bs) out) else out)"
  have "bb_end bs b \<le> bb_end bs b * bs" using assms(1) by simp
  moreover have "bb_end bs b * bs < 2 ^ 32" using ok(1) by (simp add: bb_ok_def)
  ultimately have lim: "bb_block b - at < 2 ^ 32" using bb_end_gt [OF assms(1) ok(1)] by linarith
  have skip: "sent bs crc out (enc_skip (bb_block b - at)) out1"
  proof (cases "bb_block b > at")
    case True
    then show ?thesis using skip_sent [OF Cons.prems(4) assms(1) _ lim] by (simp add: out1_def)
  next
    case False
    then show ?thesis using Cons.prems(4) by (simp add: out1_def enc_skip_def sent_refl)
  qed
  then have s1: "sparse_out bs crc out1" by (simp add: sent_def)
  note blk = block_sent [OF s1 assms(1,2) ok(1) wr(1,2)]
  then have s2: "sparse_out bs crc (sparse_file_write_block inp b out1)" by (simp add: sent_def)
  obtain out' where ih: "write_blocks inp bs (bb_end bs b) l (sparse_file_write_block inp b out1) = (last_end bs (bb_end bs b) l, out')"
    "sent bs crc (sparse_file_write_block inp b out1) (enc_blocks src bs (bb_end bs b) l) out'"
    using Cons.IH [OF ok(2) wr(3,4) s2 ok(3)] by blast
  have "write_blocks inp bs at (b # l) out = (last_end bs at (b # l), out')"
    using ih(1) nb by (simp add: out1_def last_end_def)
  then show ?case using sent_trans [OF sent_trans [OF skip blk] ih(2)] by auto
qed

lemma all_sent:
  assumes "exportable inp src s" "sparse_out (s_block_size s) crc out"
  shows "\<exists>out'. write_all_blocks inp s out = Inr (0, out') \<and> sent (s_block_size s) crc out (enc_body src s) out'"
proof -
  define bs l where "bs = s_block_size s" and "l = data_blocks (backed_blocks s)"
  have e: "0 < bs" "bs \<le> MAX_RW_COUNT" "packed bs l" "list_all (supplied inp src) l" "list_all (\<lambda>b. bb_len b \<le> MAX_RW_COUNT) l"
    "int bs dvd s_len s" "int (last_end bs 0 l) * int bs \<le> s_len s" "s_len s < 2 ^ 32"
    using assms(1) by (simp_all add: exportable_def Let_def bs_def l_def)
  obtain out1 where w: "write_blocks inp bs 0 l out = (last_end bs 0 l, out1)" "sent bs crc out (enc_blocks src bs 0 l) out1"
    using blocks_sent [OF e(1-5) assms(2) [folded bs_def]] by blast
  obtain n where n: "s_len s = int bs * n" using e(6) by (rule dvdE)
  have "0 \<le> s_len s" using e(7) by (meson of_nat_0_le_iff order_trans zero_le_mult_iff)
  then have "0 \<le> n" using n e(1) by (simp add: zero_le_mult_iff)
  then obtain m where m: "n = int m" using nonneg_int_cases by blast
  have "nat (s_len s) = bs * m" by (simp add: n m nat_mult_distrib)
  then have d: "nat (s_len s) div bs = m" using e(1) by simp
  have "int (last_end bs 0 l * bs) \<le> int (m * bs)" using e(7) n m by (simp add: mult.commute)
  then have le: "last_end bs 0 l \<le> m" unfolding of_nat_le_iff using e(1) by simp
  define k where "k = m - last_end bs 0 l"
  have pad: "s_len s - int (last_end bs 0 l) * int bs = int k * int bs"
    using le by (simp add: k_def n m of_nat_diff algebra_simps)
  have "m \<le> bs * m" using e(1) by simp
  moreover have "int (bs * m) < int (2 ^ 32)" using e(8) n m by simp
  then have "bs * m < 2 ^ 32" unfolding of_nat_less_iff .
  ultimately have lim: "k < 2 ^ 32" unfolding k_def by linarith
  have body: "enc_body src s = enc_blocks src bs 0 l @ enc_skip k"
    by (simp add: enc_body_def Let_def d k_def flip: bs_def l_def)
  have s1: "sparse_out bs crc out1" using w(2) by (simp add: sent_def)
  show ?thesis
  proof (cases "0 < k")
    case True
    then have "0 < int k * int bs" using e(1) by simp
    then have "write_all_blocks inp s out = Inr (0, snd (write_skip_chunk (int k * int bs) out1))"
      using w(1) e(7) unfolding write_all_blocks_def bs_def [symmetric] l_def [symmetric] Let_def by (simp add: pad)
    then show ?thesis using sent_trans [OF w(2) skip_sent [OF s1 e(1) True lim]] body unfolding bs_def [symmetric] by auto
  next
    case False
    then have z: "k = 0" by simp
    have "write_all_blocks inp s out = Inr (0, out1)"
      using w(1) e(7) unfolding write_all_blocks_def bs_def [symmetric] l_def [symmetric] Let_def by (simp add: pad z)
    moreover have "enc_body src s = enc_blocks src bs 0 l" using body by (simp add: z enc_skip_def)
    ultimately show ?thesis using w(2) unfolding bs_def [symmetric] by simp
  qed
qed

lemma close_sent:
  assumes "sparse_out bs crc out"
  shows "\<exists>c. good (output_file_close out) \<and> emitted (output_file_close out) = add (emitted (priv out)) (enc_end crc c)"
proof (cases crc)
  case False
  then show ?thesis using assms
    by (simp add: sparse_out_def output_file_close_def write_sparse_end_chunk_def enc_end_def add_Nil)
next
  case True
  let ?h = "chunk_header CHUNK_TYPE_CRC32 0 16"
  obtain o1 where w1: "out_write ?h out = (0, o1)" "sent bs crc out ?h o1"
    using write_sent [OF assms, of ?h] by (auto simp: MAX_RW_COUNT_def)
  then have s1: "sparse_out bs crc o1" by (simp add: sent_def)
  let ?c = "le_str 4 (unat (out_crc32 o1))"
  obtain o2 where w2: "out_write ?c o1 = (0, o2)" "sent bs crc o1 ?c o2"
    using write_sent [OF s1, of ?c] by (auto simp: MAX_RW_COUNT_def)
  have "output_file_close out = priv o2"
    using assms True w1(1) w2(1)
    by (simp add: sparse_out_def output_file_close_def write_sparse_end_chunk_def CHUNK_HEADER_LEN_def)
  then show ?thesis using sent_trans [OF w1(2) w2(2)] True by (auto simp: sent_def sparse_out_def enc_end_def)
qed

lemma file_sent:
  assumes "exportable inp src s" "good p"
  shows "\<exists>p' c. sparse_file_write inp (True, True) s ops0 p True crc = Inr (0, p') \<and> good p' \<and> emitted p' = add (emitted p) (enc_file src s crc c)"
proof -
  let ?bs = "s_block_size s"
  define h where "h = sparse_header ?bs (nat (c_div (s_len s) (int ?bs) mod 2 ^ 32))
    (if crc then u32_add (sparse_count_chunks s) 1 else sparse_count_chunks s)"
  define out where "out = \<lparr>cur_out_ptr = 0, chunk_cnt = 0, out_crc32 = 0, ops = ops0, out_sparse = True, use_crc = crc,
      out_block_size = ?bs, out_len = s_len s, fill_buf = replicate ?bs NUL, priv = p, overrun = False\<rparr>"
  have so: "sparse_out ?bs crc out" using assms(2) by (simp add: sparse_out_def out_def)
  have "length h \<le> MAX_RW_COUNT" by (simp add: h_def MAX_RW_COUNT_def)
  then obtain o1 where w: "out_write h out = (0, o1)" "sent ?bs crc out h o1" using write_sent [OF so] by blast
  then have s1: "sparse_out ?bs crc o1" by (simp add: sent_def)
  have init: "output_file_init (True, True) ops0 p ?bs (s_len s) True (sparse_count_chunks s) crc = (Some o1, priv o1)"
    unfolding output_file_init_def Let_def h_def [symmetric] out_def [symmetric] w(1) by simp
  obtain o2 where a: "write_all_blocks inp s o1 = Inr (0, o2)" "sent ?bs crc o1 (enc_body src s) o2"
    using all_sent [OF assms(1) s1] by blast
  then have s2: "sparse_out ?bs crc o2" by (simp add: sent_def)
  obtain c where c: "good (output_file_close o2)" "emitted (output_file_close o2) = add (emitted (priv o2)) (enc_end crc c)"
    using close_sent [OF s2] by blast
  have "0 < ?bs" using assms(1) by (simp add: exportable_def Let_def)
  then have "sparse_file_write inp (True, True) s ops0 p True crc = Inr (0, output_file_close o2)"
    using init a(1) by (simp add: sparse_file_write_def)
  moreover have "emitted (priv o2) = add (emitted p) (h @ enc_body src s)"
    using sent_trans [OF w(2) a(2)] by (simp add: sent_def out_def)
  ultimately show ?thesis using c by (auto simp: add_add enc_file_def h_def)
qed

end

section \<open>The sinks of the program\<close>

definition appending :: "out_fd \<Rightarrow> bool" where
  "appending f \<longleftrightarrow> reliable f \<and> fd_size f = fd_pos f"

definition fd_written :: "out_fd \<Rightarrow> string" where
  "fd_written f = map (fd_char f) [0..<fd_pos f]"

lemma fd_written_store: "fd_written (fd_store d f) = fd_written f @ d"
  by (rule nth_equalityI) (auto simp: fd_written_def fd_store_def fd_char_def nth_append)

lemma file_sink:
  assumes "appending f" "length d \<le> MAX_RW_COUNT"
  shows "\<exists>f'. op_write file_ops d f = (0, f') \<and> appending f' \<and> fd_written f' = fd_written f @ d"
proof -
  let ?f = "fd_store d (f\<lparr>fd_calls := Suc (fd_calls f)\<rparr>)"
  have rel: "reliable f" using assms(1) by (simp add: appending_def)
  have "fd_written (f\<lparr>fd_calls := Suc (fd_calls f)\<rparr>) = fd_written f" by (simp add: fd_written_def)
  moreover have "appending ?f" using assms(1) by (simp add: appending_def fd_store_def reliable_def)
  ultimately show ?thesis using file_write_ok [OF rel assms(2)] fd_written_store by (simp add: file_ops_def)
qed

interpretation to_file: sink file_ops appending fd_written "(@)"
  by unfold_locales (simp_all add: file_sink)

interpretation to_counter: sink "callback_file_ops out_counter_write" "\<lambda>n. True" "\<lambda>n. n" "\<lambda>n d. n + int (length d)"
  by unfold_locales
    (simp_all add: callback_file_ops_def callback_file_write_def out_counter_write_def MAX_RW_COUNT_def INT_MAX_def)

lemma sparse_file_len_counts:
  "sparse_file_write inp mem s (callback_file_ops out_counter_write) 0 sparse crc = Inr (0, n) \<Longrightarrow>
     sparse_file_len inp mem s sparse crc = Inr n"
  by (auto simp: sparse_file_write_def sparse_file_len_def ENOMEM_def split: if_splits prod.splits option.splits sum.splits)

lemma length_enc_end: "length (enc_end crc c) = length (enc_end crc c')"
  by (simp add: enc_end_def)

text \<open>
  C15: the length that \<^verbatim>\<open>sparse_file_len\<close> counts for a file in the sparse format is the number of bytes that
  \<^verbatim>\<open>sparse_file_write\<close> then appends to a file whose writes succeed, with and without checksum.
\<close>

theorem sparse_len_exact:
  assumes "exportable inp src s" "reliable f" "fd_size f = fd_pos f"
  shows "\<exists>f'. sparse_file_write inp (True, True) s file_ops f True crc = Inr (0, f')
    \<and> sparse_file_len inp (True, True) s True crc = Inr (int (fd_size f') - int (fd_size f))"
proof -
  have app: "appending f" using assms(2,3) by (simp add: appending_def)
  obtain f' c where f: "sparse_file_write inp (True, True) s file_ops f True crc = Inr (0, f')" "appending f'"
    "fd_written f' = fd_written f @ enc_file src s crc c"
    using to_file.file_sent [OF assms(1) app] by blast
  obtain n c' where n: "sparse_file_write inp (True, True) s (callback_file_ops out_counter_write) 0 True crc = Inr (0, n)"
    "n = 0 + int (length (enc_file src s crc c'))"
    using to_counter.file_sent [OF assms(1) TrueI] by blast
  have "length (fd_written f') = length (fd_written f) + length (enc_file src s crc c)" using f(3) by simp
  then have "fd_size f' = fd_size f + length (enc_file src s crc c)"
    using f(2) assms(3) by (simp add: fd_written_def appending_def)
  then have "n = int (fd_size f') - int (fd_size f)"
    using n(2) length_enc_end [of crc c c'] by (simp add: enc_file_def)
  then show ?thesis using f(1) sparse_file_len_counts [OF n(1)] by blast
qed

theorem sparse_len_exact_witness:
  "\<exists>f'. sparse_file_write no_inputs (True, True) small_file file_ops (blank_fd\<lparr>fd_size := 0\<rparr>) True True = Inr (0, f')
    \<and> sparse_file_len no_inputs (True, True) small_file True True = Inr (int (fd_size f'))"
  using sparse_len_exact [of no_inputs "(\<lambda>p i. NUL, \<lambda>fd i. NUL)" small_file "blank_fd\<lparr>fd_size := 0\<rparr>" True]
  by (simp add: exportable_def small_file_def blank_fd_def packed_def bb_ok_def bb_end_def DIV_ROUND_UP_def supplied_def
      reliable_def MAX_RW_COUNT_def last_end_def)

end
