(* ===== verification/Spec2Isabelle.thy ===== *)
theory Spec2Isabelle
  imports Diskconfig_Props Aboot_Props Sparse_Stream
begin

text \<open>
  A verification development for tboot, the Android fastboot-style recovery and provisioning program.
\<close>

end
